(* ===== verification/Prelude.thy ===== *)
theory Prelude
  imports Main "HOL-Library.Word"
begin

text \<open>
  Shared vocabulary of the development: the machine types of the C sources, the error codes
  of \<^verbatim>\<open>include/common/error.h\<close> with the result type they induce, the little-endian
  encoding that every serializer of the port uses, and the generic lemmas on lists and words
  the component theories rely on.
\<close>

unbundle bit_operations_syntax

section \<open>Machine types\<close>

type_synonym byte = "8 word"
type_synonym u32 = "32 word"
type_synonym u64 = "64 word"
type_synonym bytes = "byte list"

named_theorems codec \<open>encoders rewritten to the canonical little-endian form\<close>
named_theorems errs \<open>definitions that only propagate error codes\<close>

section \<open>Error codes and results\<close>

datatype bonsai_err_t =
    BNS_OK | BNS_EINVAL | BNS_ECRYPTO | BNS_ENET | BNS_EPARSE | BNS_ENOTFOUND | BNS_EPERSIST
  | BNS_ESHREDDED | BNS_EINTEGRITY | BNS_EBINDING | BNS_EHOPLIMIT | BNS_EPERM | BNS_ENOMEM
  | BNS_EUNSUPPORTED | BNS_ERANGE

fun bns_err_name :: "bonsai_err_t \<Rightarrow> string" where
  "bns_err_name BNS_OK = ''BNS_OK''"
| "bns_err_name BNS_EINVAL = ''BNS_EINVAL''"
| "bns_err_name BNS_ECRYPTO = ''BNS_ECRYPTO''"
| "bns_err_name BNS_ENET = ''BNS_ENET''"
| "bns_err_name BNS_EPARSE = ''BNS_EPARSE''"
| "bns_err_name BNS_ENOTFOUND = ''BNS_ENOTFOUND''"
| "bns_err_name BNS_EPERSIST = ''BNS_EPERSIST''"
| "bns_err_name BNS_ESHREDDED = ''BNS_ESHREDDED''"
| "bns_err_name BNS_EINTEGRITY = ''BNS_EINTEGRITY''"
| "bns_err_name BNS_EBINDING = ''BNS_EBINDING''"
| "bns_err_name BNS_EHOPLIMIT = ''BNS_EHOPLIMIT''"
| "bns_err_name BNS_EPERM = ''BNS_EPERM''"
| "bns_err_name BNS_ENOMEM = ''BNS_ENOMEM''"
| "bns_err_name BNS_EUNSUPPORTED = ''BNS_EUNSUPPORTED''"
| "bns_err_name BNS_ERANGE = ''BNS_ERANGE''"

text \<open>
  A C function that returns a code and fills an out-parameter is a function into
  \<open>'a res\<close>: \<open>Inl e\<close> when the code \<open>e\<close> is returned, \<open>Inr x\<close> when
  \<^verbatim>\<open>BNS_OK\<close> is returned with \<open>x\<close> in the out-parameter. The idiom
  \<^verbatim>\<open>rc = f(); if (rc != BNS_OK) return rc;\<close> is \<open>res_bind\<close>.
\<close>

type_synonym 'a res = "bonsai_err_t + 'a"

fun res_bind :: "'a res \<Rightarrow> ('a \<Rightarrow> 'b res) \<Rightarrow> 'b res" where
  "res_bind (Inl e) f = Inl e"
| "res_bind (Inr x) f = f x"

lemma res_bind_Inr_iff: "res_bind m f = Inr y \<longleftrightarrow> (\<exists>x. m = Inr x \<and> f x = Inr y)"
  by (cases m) auto

lemma res_bind_Inl_iff:
  "res_bind m f = Inl e \<longleftrightarrow> m = Inl e \<or> (\<exists>x. m = Inr x \<and> f x = Inl e)"
  by (cases m) auto

lemma res_bind_assoc: "res_bind (res_bind m f) g = res_bind m (\<lambda>x. res_bind (f x) g)"
  by (cases m) auto

lemma res_bind_cong [fundef_cong]:
  "m = m' \<Longrightarrow> (\<And>x. m' = Inr x \<Longrightarrow> f x = f' x) \<Longrightarrow> res_bind m f = res_bind m' f'"
  by (cases m') auto

lemma res_cases:
  obtains (err) e where "m = Inl e" | (ok) x where "m = Inr x"
  by (cases m) auto

text \<open>The guard \<^verbatim>\<open>if (!cond) return e;\<close>.\<close>

definition res_guard :: "bool \<Rightarrow> bonsai_err_t \<Rightarrow> unit res" where
  "res_guard c e = (if c then Inr () else Inl e)"

lemma res_guard_Inr [simp]: "res_guard c e = Inr u \<longleftrightarrow> c"
  by (simp add: res_guard_def)

lemma res_guard_Inl [simp]: "res_guard c e = Inl e' \<longleftrightarrow> \<not> c \<and> e = e'"
  by (auto simp: res_guard_def)

lemma res_guard_True [simp]: "res_guard True e = Inr ()"
  by simp

lemma res_guard_False [simp]: "res_guard False e = Inl e"
  by simp

text \<open>The bytes of a C string up to its terminator.\<close>

definition str_bytes :: "string \<Rightarrow> bytes" where
  "str_bytes s = map (\<lambda>c. of_nat (of_char c)) s"

section \<open>Lists\<close>

lemma take_drop_append:
  "length pre = n \<Longrightarrow> take (length xs) (drop n (pre @ xs @ post)) = xs"
  by simp

lemma nth_append_off: "length pre = n \<Longrightarrow> i < length xs \<Longrightarrow> (pre @ xs @ post) ! (n + i) = xs ! i"
  by (simp add: nth_append)

lemma drop_eq_take_drop: "n + k \<le> length xs \<Longrightarrow> drop n xs = take k (drop n xs) @ drop (n + k) xs"
  by (metis append_take_drop_id drop_drop add.commute)

lemma drop_append_less: "drop off d = bs @ rest \<Longrightarrow> bs \<noteq> [] \<Longrightarrow> off < length d"
  by (metis append_is_Nil_conv drop_all not_less)

lemma drop_append_minus: "drop off d = bs @ rest \<Longrightarrow> length d - off = length bs + length rest"
  by (metis length_append length_drop)

lemma drop_append_length: "drop off d = bs @ rest \<Longrightarrow> bs \<noteq> [] \<Longrightarrow> off + length bs \<le> length d"
proof -
  assume a: "drop off d = bs @ rest" "bs \<noteq> []"
  have "length d - off = length bs + length rest" by (rule drop_append_minus[OF a(1)])
  then show ?thesis using drop_append_less[OF a] by linarith
qed

lemma drop_append_drop: "drop off d = bs @ rest \<Longrightarrow> drop (off + length bs) d = rest"
  by (metis add.commute append_eq_conv_conj drop_drop)

lemma drop_append_nth: "drop off d = bs @ rest \<Longrightarrow> i < length bs \<Longrightarrow> d ! (off + i) = bs ! i"
  by (metis drop_append_less length_greater_0_conv length_pos_if_in_set nth_append nth_drop
      nth_mem order_less_imp_le list.size(3) not_less_zero)

lemma take_add_drop: "take n xs @ take k (drop n xs) = take (n + k) xs"
  by (simp add: take_add)

lemma map_rev_nth: "length xs = n \<Longrightarrow> map (\<lambda>j. xs ! (n - 1 - j)) [0..<n] = rev xs"
  by (rule nth_equalityI) (auto simp: rev_nth)

lemma list_eq_nth_4:
  "length xs = 4 \<Longrightarrow> xs = [xs ! 0, xs ! 1, xs ! 2, xs ! 3]"
  by (rule nth_equalityI) (auto simp: less_Suc_eq numeral_eq_Suc)

text \<open>The index of the first match, for the linear scans that return a pointer into an array.\<close>

fun find_idx :: "('a \<Rightarrow> bool) \<Rightarrow> 'a list \<Rightarrow> nat option" where
  "find_idx P [] = None"
| "find_idx P (x # xs) = (if P x then Some 0 else map_option Suc (find_idx P xs))"

lemma find_idx_Some: "find_idx P xs = Some i \<Longrightarrow> i < length xs \<and> P (xs ! i) \<and> (\<forall>j < i. \<not> P (xs ! j))"
proof (induction xs arbitrary: i)
  case (Cons x xs)
  show ?case
  proof (cases i)
    case (Suc k)
    then have k: "\<not> P x" "find_idx P xs = Some k" using Cons.prems by (auto split: if_splits)
    from Cons.IH[OF k(2)] show ?thesis using Suc k(1) by (auto simp: nth_Cons split: nat.split)
  qed (use Cons.prems in \<open>auto split: if_splits\<close>)
qed simp

lemma find_idx_None: "find_idx P xs = None \<longleftrightarrow> (\<forall>x \<in> set xs. \<not> P x)"
  by (induction xs) auto

lemma find_idx_map: "find_idx (\<lambda>x. Q (f x)) xs = find_idx Q (map f xs)"
  by (induction xs) auto

section \<open>Little-endian encoding\<close>

text \<open>
  \<open>le_bytes k n\<close> is the loop \<^verbatim>\<open>for (i = 0; i < k; i++) b[i] = (uint8_t)(n >> (8 * i));\<close>
  and \<open>le_val\<close> its inverse; both are characterised bit by bit, so that every variant of
  the two loops in the sources is shown equal to them by extensionality on bits.
\<close>

definition le_bytes :: "nat \<Rightarrow> 'a::len word \<Rightarrow> bytes" where
  "le_bytes k n = map (\<lambda>i. ucast (drop_bit (8 * i) n)) [0..<k]"

fun le_val :: "bytes \<Rightarrow> 'a::len word" where
  "le_val [] = 0"
| "le_val (b # bs) = ucast b OR push_bit 8 (le_val bs)"

lemma length_le_bytes [simp]: "length (le_bytes k n) = k"
  by (simp add: le_bytes_def)

lemma nth_le_bytes [simp]: "i < k \<Longrightarrow> le_bytes k n ! i = ucast (drop_bit (8 * i) n)"
  by (simp add: le_bytes_def)

lemma le_bytes_0 [simp]: "le_bytes 0 n = []"
  by (simp add: le_bytes_def)

lemma le_bytes_Suc: "le_bytes (Suc k) n = ucast n # le_bytes k (drop_bit 8 n)"
  by (rule nth_equalityI) (auto simp: nth_Cons add.commute split: nat.split)

lemma bit_byte_iff: "bit (b :: byte) j \<Longrightarrow> j < 8"
  using bit_imp_le_length[of b j] by simp

lemma bit_le_val:
  "bit (le_val bs :: 'a::len word) j \<longleftrightarrow>
     j < LENGTH('a) \<and> j div 8 < length bs \<and> bit (bs ! (j div 8)) (j mod 8)"
proof (induction bs arbitrary: j)
  case Nil
  then show ?case by simp
next
  case (Cons b bs)
  show ?case
  proof (cases "j < 8")
    case True
    then show ?thesis by (auto simp: bit_or_iff bit_push_bit_iff bit_ucast_iff)
  next
    case False
    then obtain d where j: "j = 8 + d" by (metis le_add_diff_inverse not_less)
    have "j div 8 = Suc (d div 8)" "j mod 8 = d mod 8" by (simp_all add: j)
    then show ?thesis
      using Cons.IH[of d] bit_byte_iff[of b j] False
      by (auto simp: bit_or_iff bit_push_bit_iff bit_ucast_iff j)
  qed
qed

lemma le_val_le_bytes:
  assumes "LENGTH('a) \<le> 8 * k"
  shows "le_val (le_bytes k (n :: 'a::len word)) = n"
proof (rule bit_word_eqI)
  fix j assume j: "j < LENGTH('a)"
  have "j div 8 < k" using j assms by simp
  moreover have "8 * (j div 8) + j mod 8 = j" by simp
  ultimately show "bit (le_val (le_bytes k n) :: 'a word) j = bit n j"
    using j by (simp add: bit_le_val bit_ucast_iff bit_drop_bit_eq)
qed

lemma le_bytes_le_val:
  assumes "8 * length bs \<le> LENGTH('a)"
  shows "le_bytes (length bs) (le_val bs :: 'a::len word) = bs"
proof (rule nth_equalityI)
  fix i assume "i < length (le_bytes (length bs) (le_val bs :: 'a word))"
  then have i: "i < length bs" by simp
  have "bit (ucast (drop_bit (8 * i) (le_val bs :: 'a word)) :: byte) j = bit (bs ! i) j"
    if "j < 8" for j
  proof -
    have "8 * i + j < LENGTH('a)" using that i assms by simp
    then show ?thesis using that i
      by (simp add: bit_le_val bit_ucast_iff bit_drop_bit_eq)
  qed
  then have "ucast (drop_bit (8 * i) (le_val bs :: 'a word)) = bs ! i"
    by (intro bit_word_eqI) simp
  with i show "le_bytes (length bs) (le_val bs :: 'a word) ! i = bs ! i" by simp
qed simp

lemma le_bytes_inj:
  "LENGTH('a) \<le> 8 * k \<Longrightarrow> le_bytes k (m :: 'a::len word) = le_bytes k n \<longleftrightarrow> m = n"
  by (metis le_val_le_bytes)

text \<open>A value below \<open>256 ^ k\<close> is recovered from its \<open>k\<close> low bytes.\<close>

lemma le_val_le_bytes_small:
  assumes "\<And>j. 8 * k \<le> j \<Longrightarrow> \<not> bit n j"
  shows "le_val (le_bytes k n) = (n :: 'a::len word)"
proof (rule bit_word_eqI)
  fix j assume j: "j < LENGTH('a)"
  show "bit (le_val (le_bytes k n) :: 'a word) j = bit n j"
  proof (cases "j div 8 < k")
    case True
    then show ?thesis using j by (simp add: bit_le_val bit_ucast_iff bit_drop_bit_eq)
  next
    case False
    then have "8 * k \<le> j" by simp
    with assms False show ?thesis by (auto simp: bit_le_val)
  qed
qed

lemma not_bit_word_less:
  assumes "unat (n :: 'a::len word) < 2 ^ m" "m \<le> j"
  shows "\<not> bit n j"
proof -
  have "unat n < 2 ^ j"
    using assms(2) by (intro order_less_le_trans[OF assms(1)] power_increasing) simp_all
  then have "\<not> bit (unat n) j" by (simp add: bit_iff_odd)
  then show ?thesis by (auto simp: bit_unsigned_iff dest: bit_imp_le_length)
qed

text \<open>Two parts of a finite set overlap in at least what their sizes exceed it by.\<close>

lemma parts_overlap:
  assumes "finite N" "A \<subseteq> N" "B \<subseteq> N"
  shows "card A + card B \<le> card N + card (A \<inter> B)"
proof -
  have "finite A" "finite B" using assms finite_subset by blast+
  then have "card A + card B = card (A \<union> B) + card (A \<inter> B)" by (rule card_Un_Int)
  also have "card (A \<union> B) \<le> card N" using assms by (intro card_mono) auto
  finally show ?thesis by simp
qed

end
