(* ===== verification/Codec.thy ===== *)
theory Codec
  imports Prelude
begin

text \<open>
  The interface between a serializer and its parser. The parsers of this code base read a
  value at an offset of a buffer and return the offset behind it; the serializers append.
  \<open>prefix_codec\<close> states the contract of such a pair: the parser inverts the serializer
  wherever the encoding stands in a buffer, and whatever the parser accepts is exactly the
  encoding of what it returns, so no second byte string decodes to the same value. The
  counted loops of the sources (\<open>enc_n\<close>, \<open>dec_n\<close>) inherit the contract, once and for
  all codecs.
\<close>

section \<open>Counted loops\<close>

text \<open>
  \<^verbatim>\<open>for (i = 0; i < n; i++) { rc = read(d, len, off, &x[i]); if (rc) return rc; off += ...; }\<close>
\<close>

fun dec_n :: "(bytes \<Rightarrow> nat \<Rightarrow> ('a \<times> nat) res) \<Rightarrow> nat \<Rightarrow> bytes \<Rightarrow> nat \<Rightarrow> ('a list \<times> nat) res" where
  "dec_n dec 0 d off = Inr ([], off)"
| "dec_n dec (Suc n) d off =
     res_bind (dec d off) (\<lambda>(x, off1).
     res_bind (dec_n dec n d off1) (\<lambda>(xs, off2). Inr (x # xs, off2)))"

fun enc_n :: "('a \<Rightarrow> bytes res) \<Rightarrow> 'a list \<Rightarrow> bytes res" where
  "enc_n enc [] = Inr []"
| "enc_n enc (x # xs) =
     res_bind (enc x) (\<lambda>b. res_bind (enc_n enc xs) (\<lambda>bs. Inr (b @ bs)))"

lemma dec_n_length: "dec_n dec n d off = Inr (xs, off') \<Longrightarrow> length xs = n"
  by (induction n arbitrary: off xs) (auto simp: res_bind_Inr_iff)

lemma enc_n_cong: "(\<And>x. x \<in> set xs \<Longrightarrow> enc x = enc' x) \<Longrightarrow> enc_n enc xs = enc_n enc' xs"
  by (induction xs) auto

lemma enc_n_total: "(\<And>x. x \<in> set xs \<Longrightarrow> enc x = Inr (f x)) \<Longrightarrow> enc_n enc xs = Inr (concat (map f xs))"
  by (induction xs) auto

text \<open>
  An unframed sequence is determined by its bytes up to \<open>R\<close> when each element is, and no
  encoding is a proper prefix of another.
\<close>

lemma enc_n_determined:
  assumes step: "\<And>x y b c r r'. enc x = Inr b \<Longrightarrow> enc y = Inr c \<Longrightarrow> P x \<Longrightarrow> P y \<Longrightarrow>
      b @ r = c @ r' \<Longrightarrow> R x y \<and> r = r'"
    and ne: "\<And>x b. enc x = Inr b \<Longrightarrow> b \<noteq> []"
  shows "enc_n enc xs = Inr bs \<Longrightarrow> enc_n enc ys = Inr bs \<Longrightarrow> list_all P xs \<Longrightarrow> list_all P ys \<Longrightarrow>
    list_all2 R xs ys"
proof (induction xs arbitrary: ys bs)
  case Nil
  then show ?case using ne by (cases ys) (auto simp: res_bind_Inr_iff)
next
  case (Cons x xs)
  then obtain b bs' where b: "enc x = Inr b" "enc_n enc xs = Inr bs'" "bs = b @ bs'"
    by (auto simp: res_bind_Inr_iff)
  with ne have "bs \<noteq> []" by auto
  with Cons.prems(2) obtain y ys' where y: "ys = y # ys'" by (cases ys) auto
  with Cons.prems(2) obtain c cs' where c: "enc y = Inr c" "enc_n enc ys' = Inr cs'" "bs = c @ cs'"
    by (auto simp: res_bind_Inr_iff)
  from step[of x b y c bs' cs'] b c Cons.prems y have "R x y" "bs' = cs'" by auto
  with Cons.IH[OF b(2), of ys'] c(2) Cons.prems y show ?case by auto
qed

section \<open>The contract\<close>

locale prefix_codec =
  fixes enc :: "'a \<Rightarrow> bytes res"
    and dec :: "bytes \<Rightarrow> nat \<Rightarrow> ('a \<times> nat) res"
    and ok :: "'a \<Rightarrow> bool"
    and m :: nat
  assumes dec_enc: "enc x = Inr bs \<Longrightarrow> ok x \<Longrightarrow> drop off d = bs @ rest \<Longrightarrow> dec d off = Inr (x, off + length bs)"
    and dec_sound: "dec d off = Inr (x, off') \<Longrightarrow>
      \<exists>bs. enc x = Inr bs \<and> ok x \<and> off' = off + length bs \<and> drop off d = bs @ drop off' d"
    and min_size: "enc x = Inr bs \<Longrightarrow> m \<le> length bs"
    and m_pos: "0 < m"
begin

lemma dec_bound: "dec d off = Inr (x, off') \<Longrightarrow> off < off' \<and> off' \<le> length d"
proof -
  assume "dec d off = Inr (x, off')"
  then obtain bs where bs: "enc x = Inr bs" "off' = off + length bs" "drop off d = bs @ drop off' d"
    using dec_sound by blast
  have "0 < length bs" using min_size[OF bs(1)] m_pos by linarith
  moreover have "length d - off = length bs + (length d - off')"
    using arg_cong[OF bs(3), of length] by simp
  ultimately show ?thesis using bs(2) by linarith
qed

lemma enc_inj: "enc x = Inr bs \<Longrightarrow> enc y = Inr bs \<Longrightarrow> ok x \<Longrightarrow> ok y \<Longrightarrow> x = y"
  using dec_enc[of x bs 0 bs "[]"] dec_enc[of y bs 0 bs "[]"] by simp

lemma enc_prefix_free:
  assumes "enc x = Inr b" "enc y = Inr c" "ok x" "ok y" "b @ r = c @ r'"
  shows "x = y \<and> r = r'"
proof -
  have "dec (b @ r) 0 = Inr (x, length b)" using dec_enc[of x b 0 "b @ r" r] assms(1,3) by simp
  moreover have "dec (b @ r) 0 = Inr (y, length c)"
    using dec_enc[of y c 0 "b @ r" r'] assms(2,4,5) by simp
  ultimately have "x = y" "length b = length c" by simp_all
  then show ?thesis using assms(5) by simp
qed

lemma enc_n_inj:
  assumes "enc_n enc xs = Inr bs" "enc_n enc ys = Inr bs" "list_all ok xs" "list_all ok ys"
  shows "xs = ys"
proof -
  have "list_all2 (=) xs ys"
  proof (rule enc_n_determined[OF _ _ assms])
    show "x = y \<and> r = r'" if "enc x = Inr b" "enc y = Inr c" "ok x" "ok y" "b @ r = c @ r'"
      for x y b c r r' using that by (rule enc_prefix_free)
    show "b \<noteq> []" if "enc x = Inr b" for x b using min_size[OF that] m_pos by auto
  qed
  then show ?thesis by (simp add: list.rel_eq)
qed

lemma dec_n_enc_n:
  "enc_n enc xs = Inr bs \<Longrightarrow> list_all ok xs \<Longrightarrow> drop off d = bs @ rest \<Longrightarrow>
   dec_n dec (length xs) d off = Inr (xs, off + length bs)"
proof (induction xs arbitrary: bs off)
  case Nil
  then show ?case by simp
next
  case (Cons x xs)
  then obtain b bs' where b: "enc x = Inr b" "enc_n enc xs = Inr bs'" "bs = b @ bs'"
    by (auto simp: res_bind_Inr_iff)
  have "dec d off = Inr (x, off + length b)"
    using Cons.prems b by (intro dec_enc[where rest = "bs' @ rest"]) auto
  moreover have "drop (off + length b) d = bs' @ rest"
    using drop_append_drop[of off d b "bs' @ rest"] Cons.prems(3) b(3) by simp
  then have "dec_n dec (length xs) d (off + length b) = Inr (xs, off + length b + length bs')"
    using Cons.prems(2) b(2) by (intro Cons.IH) auto
  ultimately show ?case using b(3) by simp
qed

lemma dec_n_sound:
  "dec_n dec n d off = Inr (xs, off') \<Longrightarrow>
   \<exists>bs. enc_n enc xs = Inr bs \<and> list_all ok xs \<and> off' = off + length bs \<and> drop off d = bs @ drop off' d"
proof (induction n arbitrary: off xs)
  case 0
  then show ?case by auto
next
  case (Suc n)
  then obtain x off1 ys where step: "dec d off = Inr (x, off1)" "dec_n dec n d off1 = Inr (ys, off')"
      "xs = x # ys"
    by (auto simp: res_bind_Inr_iff)
  obtain b where b: "enc x = Inr b" "ok x" "off1 = off + length b" "drop off d = b @ drop off1 d"
    using dec_sound[OF step(1)] by blast
  obtain bs where bs: "enc_n enc ys = Inr bs" "list_all ok ys" "off' = off1 + length bs"
      "drop off1 d = bs @ drop off' d"
    using Suc.IH[OF step(2)] by blast
  show ?case using b bs step(3) by (intro exI[of _ "b @ bs"]) simp
qed

lemma enc_n_min_size: "enc_n enc xs = Inr bs \<Longrightarrow> m * length xs \<le> length bs"
proof (induction xs arbitrary: bs)
  case (Cons x xs)
  then obtain b bs' where "enc x = Inr b" "enc_n enc xs = Inr bs'" "bs = b @ bs'"
    by (auto simp: res_bind_Inr_iff)
  then show ?case using min_size[of x b] Cons.IH[of bs'] by simp
qed simp

text \<open>The denial-of-service guard \<^verbatim>\<open>n > (len - off) / m\<close> never rejects a real encoding.\<close>

lemma enc_n_guard:
  assumes "enc_n enc xs = Inr bs" "drop off d = bs @ rest" "off \<le> length d"
  shows "length xs \<le> (length d - off) div m"
proof -
  have "length d - off = length bs + length rest"
    using arg_cong[OF assms(2), of length] by simp
  then have "m * length xs \<le> length d - off" using enc_n_min_size[OF assms(1)] by simp
  then show ?thesis using m_pos by (simp add: less_eq_div_iff_mult_less_eq mult.commute)
qed

end

end
