(* ===== verification/Varint.thy ===== *)
theory Varint
  imports Codec
begin

text \<open>
  The CompactSize encoding of \<^verbatim>\<open>src/bsv/varint.c\<close>: the writer, the bounds-checked
  reader that rejects overlong forms, and the proof that they are inverse to each other, in
  both directions.
\<close>

section \<open>Model\<close>

definition write_varint :: "u64 \<Rightarrow> bytes" where
  "write_varint n =
     (if n < 0xfd then [ucast n]
      else if n \<le> 0xffff then 0xfd # le_bytes 2 n
      else if n \<le> 0xffffffff then 0xfe # le_bytes 4 n
      else 0xff # le_bytes 8 n)"

record varint_read_t =
  vr_value :: u64
  vr_consumed :: nat

text \<open>
  The accumulation loop \<^verbatim>\<open>v |= (uint64_t)data[off + 1 + i] << (8 * i)\<close>, for
  \<open>i\<close> from \<open>i\<close> up to \<open>nbytes\<close>.
\<close>

fun varint_acc :: "bytes \<Rightarrow> nat \<Rightarrow> nat \<Rightarrow> nat \<Rightarrow> u64 \<Rightarrow> u64" where
  "varint_acc data off i 0 v = v"
| "varint_acc data off i (Suc k) v =
     varint_acc data off (Suc i) k (v OR push_bit (8 * i) (ucast (data ! (off + 1 + i))))"

definition read_varint :: "bytes \<Rightarrow> nat \<Rightarrow> varint_read_t res" where
  "read_varint data off =
     (if off \<ge> length data then Inl BNS_EPARSE
      else let prefix = data ! off in
        if prefix < 0xfd then Inr \<lparr>vr_value = ucast prefix, vr_consumed = 1\<rparr>
        else let nbytes = (if prefix = 0xfd then 2 else if prefix = 0xfe then 4 else 8) in
          if nbytes > length data - off - 1 then Inl BNS_EPARSE
          else let v = varint_acc data off 0 nbytes 0;
                   min_value = (if prefix = 0xfd then 0xfd
                                else if prefix = 0xfe then 0x10000 else 0x100000000)
            in if v < min_value then Inl BNS_EPARSE
               else Inr \<lparr>vr_value = v, vr_consumed = 1 + nbytes\<rparr>)"

section \<open>The accumulation loop computes the little-endian value\<close>

lemma bit_varint_acc:
  "bit (varint_acc data off i k v) j \<longleftrightarrow>
     bit v j \<or> (j < 64 \<and> i \<le> j div 8 \<and> j div 8 < i + k \<and> bit (data ! (off + 1 + j div 8)) (j mod 8))"
proof (induction data off i k v rule: varint_acc.induct)
  case (1 data off i v)
  then show ?case by auto
next
  case (2 data off i k v)
  have here: "bit (push_bit (8 * i) (ucast (data ! (off + 1 + i))) :: u64) j \<longleftrightarrow>
      j < 64 \<and> j div 8 = i \<and> bit (data ! (off + 1 + j div 8)) (j mod 8)"
  proof (cases "j div 8 = i")
    case True
    then have "j = 8 * i + j mod 8" "j mod 8 < 8" by auto
    then show ?thesis using True
      by (auto simp: bit_push_bit_iff bit_ucast_iff minus_mult_div_eq_mod)
  next
    case False
    then have "8 * i \<le> j \<Longrightarrow> 8 \<le> j - 8 * i" by linarith
    then show ?thesis using False bit_byte_iff[of "data ! (off + 1 + i)" "j - 8 * i"]
      by (auto simp: bit_push_bit_iff bit_ucast_iff)
  qed
  show ?case unfolding varint_acc.simps 2 bit_or_iff here
    by (auto simp: not_less_eq_eq le_antisym)
qed

lemma varint_acc_le_val:
  assumes "off + 1 + k \<le> length data"
  shows "varint_acc data off 0 k 0 = le_val (take k (drop (off + 1) data))"
proof (rule bit_word_eqI)
  fix j assume "j < LENGTH(64)"
  then show "bit (varint_acc data off 0 k 0) j = bit (le_val (take k (drop (off + 1) data)) :: u64) j"
    using assms by (auto simp: bit_varint_acc bit_le_val)
qed

section \<open>Round trips\<close>

lemma unat_word_le: "(n :: 'a::len word) \<le> m \<Longrightarrow> unat m < b \<Longrightarrow> unat n < b"
  by (meson le_less_trans word_le_nat_alt)

lemma length_write_varint:
  "length (write_varint n) =
     (if n < 0xfd then 1 else if n \<le> 0xffff then 3 else if n \<le> 0xffffffff then 5 else 9)"
  by (simp add: write_varint_def)

lemma length_write_varint_pos [simp]: "0 < length (write_varint n)"
  by (simp add: length_write_varint)

lemma read_varint_long:
  assumes "k = (if p = 0xfd then 2 else if p = 0xfe then 4 else 8)" and "p \<ge> 0xfd"
    and "length pre = off"
    and "le_val (le_bytes k n) = n"
    and "n \<ge> (if p = 0xfd then 0xfd else if p = 0xfe then 0x10000 else 0x100000000)"
  shows "read_varint (pre @ (p # le_bytes k n) @ post) off =
     Inr \<lparr>vr_value = n, vr_consumed = 1 + k\<rparr>"
proof -
  let ?d = "pre @ (p # le_bytes k n) @ post"
  have "varint_acc ?d off 0 k 0 = n"
    using assms(3,4) by (subst varint_acc_le_val) auto
  moreover have "?d ! off = p" using assms(3) by (simp add: nth_append)
  ultimately show ?thesis
    unfolding read_varint_def using assms(2,3,5)
    by (auto simp: Let_def not_less not_le[symmetric] simp del: append_assoc simp flip: assms(1))
qed

lemma read_write_varint:
  assumes "length pre = off"
  shows "read_varint (pre @ write_varint n @ post) off =
     Inr \<lparr>vr_value = n, vr_consumed = length (write_varint n)\<rparr>"
proof -
  consider (a) "n < 0xfd" | (b) "n \<ge> 0xfd" "n \<le> 0xffff" | (c) "n > 0xffff" "n \<le> 0xffffffff"
    | (d) "n > 0xffffffff" by (meson not_less)
  then show ?thesis
  proof cases
    case a
    then have "unat n < 253" by (simp add: word_less_nat_alt)
    then have "ucast (ucast n :: byte) = n" "(ucast n :: byte) < 0xfd"
      by (simp_all add: word_less_nat_alt word_unat_eq_iff unsigned_ucast_eq
          unsigned_take_bit_eq take_bit_nat_eq_self)
    then show ?thesis using a assms
      by (simp add: read_varint_def write_varint_def nth_append Let_def)
  next
    case b
    have "le_val (le_bytes 2 n) = n"
      using b by (intro le_val_le_bytes_small not_bit_word_less[where m = 16]) (auto elim: unat_word_le)
    then show ?thesis using b read_varint_long[of 2 "0xfd" pre off n post] assms
      by (auto simp: write_varint_def word_less_nat_alt word_le_nat_alt)
  next
    case c
    have "le_val (le_bytes 4 n) = n"
      using c by (intro le_val_le_bytes_small not_bit_word_less[where m = 32]) (auto elim: unat_word_le)
    moreover have "n \<ge> 0x10000" using c by (simp add: word_le_nat_alt word_less_nat_alt)
    ultimately show ?thesis using c read_varint_long[of 4 "0xfe" pre off n post] assms
      by (auto simp: write_varint_def word_less_nat_alt word_le_nat_alt)
  next
    case d
    have "n \<ge> 0x100000000" using d by (simp add: word_le_nat_alt word_less_nat_alt)
    then show ?thesis using d read_varint_long[of 8 "0xff" pre off n post] assms
      by (auto simp: write_varint_def le_val_le_bytes word_less_nat_alt word_le_nat_alt)
  qed
qed

text \<open>A successful read consumed exactly the canonical encoding of the value it returns.\<close>

lemma le_val_take_bound:
  assumes "length bs = k" "k < 8"
  shows "unat (le_val bs :: u64) < 2 ^ (8 * k)"
proof -
  have "le_val bs = (take_bit (8 * k) (le_val bs) :: u64)"
    using assms by (intro bit_word_eqI) (auto simp: bit_take_bit_iff bit_le_val)
  then have "unat (le_val bs :: u64) = take_bit (8 * k) (unat (le_val bs :: u64))"
    by (metis unsigned_take_bit_eq)
  then show ?thesis by (metis take_bit_nat_less_exp)
qed

lemma read_varint_InrD:
  assumes "read_varint data off = Inr r"
  shows "off + vr_consumed r \<le> length data"
    and "take (vr_consumed r) (drop off data) = write_varint (vr_value r)"
proof -
  let ?p = "data ! off"
  define k :: nat where "k = (if ?p = 0xfd then 2 else if ?p = 0xfe then 4 else 8)"
  define v where "v = (le_val (take k (drop (off + 1) data)) :: u64)"
  have off: "off < length data" using assms by (auto simp: read_varint_def split: if_splits)
  have dropE: "drop off data = ?p # drop (off + 1) data"
    using off by (simp add: Cons_nth_drop_Suc)
  have "off + vr_consumed r \<le> length data \<and>
        take (vr_consumed r) (drop off data) = write_varint (vr_value r)"
  proof (cases "?p < 0xfd")
    case True
    then have "r = \<lparr>vr_value = ucast ?p, vr_consumed = 1\<rparr>"
      using assms off by (simp add: read_varint_def Let_def)
    moreover have "(ucast ?p :: u64) < 0xfd" using True
      by (simp add: word_less_nat_alt unsigned_ucast_eq take_bit_nat_eq_self)
    moreover have "ucast (ucast ?p :: u64) = ?p" by (simp add: ucast_up_ucast_id is_up)
    ultimately show ?thesis using off dropE by (simp add: write_varint_def)
  next
    case False
    have len: "off + 1 + k \<le> length data"
      using assms off False by (auto simp: read_varint_def Let_def k_def split: if_splits)
    then have v: "varint_acc data off 0 k 0 = v"
      unfolding v_def by (rule varint_acc_le_val)
    have mn: "v \<ge> (if ?p = 0xfd then 0xfd else if ?p = 0xfe then 0x10000 else 0x100000000)"
      and r: "r = \<lparr>vr_value = v, vr_consumed = 1 + k\<rparr>"
      using assms off False v
      by (auto simp: read_varint_def Let_def not_less simp flip: k_def split: if_splits)
    have tk: "take k (drop (off + 1) data) = le_bytes k v"
      using len le_bytes_le_val[where 'a = 64, of "take k (drop (off + 1) data)"]
      by (simp add: v_def k_def split: if_splits)
    have bound: "k < 8 \<Longrightarrow> unat v < 2 ^ (8 * k)"
      unfolding v_def using len by (intro le_val_take_bound) simp_all
    have "unat ?p = 253 \<or> unat ?p = 254 \<or> unat ?p = 255"
      using False unsigned_less[of ?p, where 'a = nat] by (simp add: word_less_nat_alt) linarith
    then consider "?p = 0xfd" | "?p = 0xfe" | "?p = 0xff" by (auto simp: word_unat_eq_iff)
    then have "write_varint v = ?p # le_bytes k v"
      using mn bound by cases (auto simp: write_varint_def k_def word_le_nat_alt word_less_nat_alt)
    then show ?thesis using r len tk dropE by simp
  qed
  then show "off + vr_consumed r \<le> length data"
    and "take (vr_consumed r) (drop off data) = write_varint (vr_value r)" by auto
qed

lemma write_varint_inj: "write_varint m = write_varint n \<longleftrightarrow> m = n"
proof
  assume "write_varint m = write_varint n"
  then show "m = n"
    using read_write_varint[of "[]" 0 m "[]"] read_write_varint[of "[]" 0 n "[]"] by simp
qed simp

section \<open>The codec contract\<close>

definition dec_varint :: "bytes \<Rightarrow> nat \<Rightarrow> (u64 \<times> nat) res" where
  "dec_varint d off = res_bind (read_varint d off) (\<lambda>r. Inr (vr_value r, off + vr_consumed r))"

interpretation varint: prefix_codec "\<lambda>n. Inr (write_varint n)" dec_varint "\<lambda>_. True" 1
proof
  fix x bs off d rest
  assume enc: "Inr (write_varint x) = (Inr bs :: bytes res)" and d: "drop off d = bs @ rest"
  have "off < length d"
    using drop_append_less[OF d] length_write_varint_pos[of x] enc by auto
  then have "d = take off d @ write_varint x @ rest" "length (take off d) = off"
    using enc d append_take_drop_id[of off d] by auto
  then show "dec_varint d off = Inr (x, off + length bs)"
    using read_write_varint[of "take off d" off x rest] enc by (simp add: dec_varint_def)
next
  fix d off x off'
  assume "dec_varint d off = Inr (x, off')"
  then obtain r where r: "read_varint d off = Inr r" "x = vr_value r" "off' = off + vr_consumed r"
    by (auto simp: dec_varint_def res_bind_Inr_iff)
  have "write_varint x @ drop off' d = drop off d"
    using read_varint_InrD(2)[OF r(1)] append_take_drop_id[of "vr_consumed r" "drop off d"] r(2,3)
    by (simp add: add.commute)
  moreover have "length (write_varint x) = vr_consumed r"
    using read_varint_InrD[OF r(1)] r(2) by (metis add_leD1 diff_add_inverse length_drop
      length_take min.absorb2 le_diff_conv2 add.commute)
  ultimately show "\<exists>bs. Inr (write_varint x) = Inr bs \<and> True \<and> off' = off + length bs \<and>
      drop off d = bs @ drop off' d"
    using r(3) by simp
next
  fix x bs assume "Inr (write_varint x) = (Inr bs :: bytes res)"
  then show "1 \<le> length bs" using length_write_varint_pos[of x] by (simp add: Suc_leI)
qed simp

text \<open>
  Reading back a written CompactSize integer at any offset of any buffer returns the
  integer and the number of bytes written; and whenever the reader accepts, the bytes it
  consumed are the one canonical encoding of the value it returns, inside the buffer. Overlong
  and truncated encodings are therefore rejected.
\<close>

theorem varint_roundtrip:
  "read_varint (pre @ write_varint n @ post) (length pre) =
     Inr \<lparr>vr_value = n, vr_consumed = length (write_varint n)\<rparr> \<and>
   (\<forall>data off r. read_varint data off = Inr r \<longrightarrow>
     off + vr_consumed r \<le> length data \<and>
     take (vr_consumed r) (drop off data) = write_varint (vr_value r))"
  using read_write_varint[of pre "length pre" n post] read_varint_InrD by blast

theorem varint_roundtrip_witness:
  "read_varint [0xab, 0xfd, 0x00, 0x01, 0xcc] 1 = Inr \<lparr>vr_value = 256, vr_consumed = 3\<rparr> \<and>
   take 3 (drop 1 [0xab, 0xfd, 0x00, 0x01, 0xcc]) = write_varint 256"
proof -
  have r: "read_varint [0xab, 0xfd, 0x00, 0x01, 0xcc] 1 = Inr \<lparr>vr_value = 256, vr_consumed = 3\<rparr>"
    by code_simp
  show ?thesis using varint_roundtrip[of "[]" 0 "[]"] r by fastforce
qed

end
