(* ===== verification/Hex.thy ===== *)
theory Hex
  imports Prelude
begin

text \<open>
  Hexadecimal strings, the \<open>ByteString\<close> form of every payload
  (\<^verbatim>\<open>src/common/hex.c\<close>). A NUL-terminated C string is a \<open>string\<close>, so
  \<^verbatim>\<open>strlen\<close> is \<open>length\<close>. Encoding always yields lower case, decoding accepts both
  cases: the round trips below state exactly that.
\<close>

section \<open>Model\<close>

definition HEX_LC :: string where
  "HEX_LC = ''0123456789abcdef''"

definition SIZE_MAX :: nat where
  "SIZE_MAX = 2 ^ 64 - 1"

definition hex_nibble :: "char \<Rightarrow> int" where
  "hex_nibble ch =
     (let c = of_char ch :: int in
      if 48 \<le> c \<and> c \<le> 57 then c - 48
      else if 97 \<le> c \<and> c \<le> 102 then c - 97 + 10
      else if 65 \<le> c \<and> c \<le> 70 then c - 65 + 10
      else -1)"

fun hex_encode_loop :: "bytes \<Rightarrow> string" where
  "hex_encode_loop [] = []"
| "hex_encode_loop (b # bs) =
     HEX_LC ! unat (drop_bit 4 b AND 0x0f) # HEX_LC ! unat (b AND 0x0f) # hex_encode_loop bs"

definition hex_encode_to :: "bytes \<Rightarrow> nat \<Rightarrow> string res" where
  "hex_encode_to data out_sz =
     (if length data > (SIZE_MAX - 1) div 2 then Inl BNS_EINVAL
      else if out_sz < 2 * length data + 1 then Inl BNS_EINVAL
      else Inr (hex_encode_loop data))"

text \<open>\<^verbatim>\<open>hex_encode\<close> returns \<^verbatim>\<open>NULL\<close> (here \<open>None\<close>) when it cannot encode.\<close>

definition hex_encode :: "bytes \<Rightarrow> string option" where
  "hex_encode data =
     (if length data > (SIZE_MAX - 1) div 2 then None
      else case hex_encode_to data (2 * length data + 1) of Inl _ \<Rightarrow> None | Inr s \<Rightarrow> Some s)"

definition nibbles_byte :: "int \<Rightarrow> int \<Rightarrow> byte" where
  "nibbles_byte hi lo = push_bit 4 (word_of_int hi) OR word_of_int lo"

fun hex_decode_loop :: "string \<Rightarrow> bytes res" where
  "hex_decode_loop (h # l # s) =
     (let hi = hex_nibble h; lo = hex_nibble l in
      if hi < 0 \<or> lo < 0 then Inl BNS_EPARSE
      else res_bind (hex_decode_loop s) (\<lambda>bs. Inr (nibbles_byte hi lo # bs)))"
| "hex_decode_loop _ = Inr []"

definition hex_decode :: "string \<Rightarrow> bytes res" where
  "hex_decode hex =
     (if odd (length hex) then Inl BNS_EPARSE
      else if length hex div 2 = 0 then Inr []
      else hex_decode_loop hex)"

definition hex_decode_fixed :: "string \<Rightarrow> nat \<Rightarrow> bytes res" where
  "hex_decode_fixed hex nbytes =
     (if length hex \<noteq> 2 * nbytes then Inl BNS_EPARSE else hex_decode_loop hex)"

definition is_hex :: "string \<Rightarrow> bool" where
  "is_hex s = (if length s = 0 \<or> odd (length s) then False
               else list_all (\<lambda>c. \<not> hex_nibble c < 0) s)"

definition is_hex_len :: "string \<Rightarrow> nat \<Rightarrow> bool" where
  "is_hex_len s nbytes =
     (if length s \<noteq> 2 * nbytes then False else list_all (\<lambda>c. \<not> hex_nibble c < 0) s)"

definition is_sha256_hex :: "string \<Rightarrow> bool" where
  "is_sha256_hex s = is_hex_len s 32"

definition is_pubkey_hex :: "string \<Rightarrow> bool" where
  "is_pubkey_hex s =
     (if \<not> is_hex_len s 33 then False
      else s ! 0 = CHR ''0'' \<and> (s ! 1 = CHR ''2'' \<or> s ! 1 = CHR ''3''))"

definition lower_char :: "char \<Rightarrow> char" where
  "lower_char ch =
     (let c = of_char ch :: nat in if 65 \<le> c \<and> c \<le> 70 then char_of (c - 65 + 97) else ch)"

definition hex_to_lower :: "string \<Rightarrow> string" where
  "hex_to_lower s = map lower_char s"

section \<open>Nibbles\<close>

definition is_hex_char :: "char \<Rightarrow> bool" where
  "is_hex_char c \<longleftrightarrow> \<not> hex_nibble c < 0"

lemma hex_nibble_HEX_LC: "n < 16 \<Longrightarrow> hex_nibble (HEX_LC ! n) = int n"
proof -
  have "\<forall>n \<in> set [0..<16]. hex_nibble (HEX_LC ! n) = int n" by code_simp
  then show "n < 16 \<Longrightarrow> hex_nibble (HEX_LC ! n) = int n" by simp
qed

lemma hex_char_cases:
  assumes "is_hex_char c"
  shows "0 \<le> hex_nibble c \<and> hex_nibble c < 16 \<and> HEX_LC ! nat (hex_nibble c) = lower_char c \<and>
    hex_nibble (lower_char c) = hex_nibble c"
proof -
  have "\<forall>c \<in> set (Enum.enum :: char list). is_hex_char c \<longrightarrow>
      0 \<le> hex_nibble c \<and> hex_nibble c < 16 \<and> HEX_LC ! nat (hex_nibble c) = lower_char c \<and>
      hex_nibble (lower_char c) = hex_nibble c"
    by code_simp
  with assms show ?thesis by (simp add: UNIV_enum[symmetric])
qed

lemma nibbles_byte_split:
  "nibbles_byte (uint (drop_bit 4 b AND 0x0f)) (uint (b AND 0x0f)) = (b :: byte)"
proof (rule bit_word_eqI)
  fix j assume "j < LENGTH(8)"
  then have "j < 8" by simp
  have m: "(0x0f :: byte) = mask 4" by (simp add: mask_eq_exp_minus_1)
  show "bit (nibbles_byte (uint (drop_bit 4 b AND 0x0f)) (uint (b AND 0x0f))) j = bit b j"
    using \<open>j < 8\<close> unfolding nibbles_byte_def m
    by (auto simp: bit_or_iff bit_push_bit_iff bit_and_iff bit_drop_bit_eq bit_mask_iff)
qed

lemma split_nibbles_byte:
  assumes "0 \<le> hi" "hi < 16" "0 \<le> lo" "lo < 16"
  shows "unat (drop_bit 4 (nibbles_byte hi lo) AND 0x0f) = nat hi"
    and "unat (nibbles_byte hi lo AND 0x0f) = nat lo"
proof -
  have "\<forall>hi \<in> set (map int [0..<16]). \<forall>lo \<in> set (map int [0..<16]).
      unat (drop_bit 4 (nibbles_byte hi lo) AND 0x0f) = nat hi \<and>
      unat (nibbles_byte hi lo AND 0x0f) = nat lo" by code_simp
  moreover have "x \<in> set (map int [0..<16])" if "0 \<le> x" "x < 16" for x
    using that by (auto simp: image_iff intro!: bexI[of _ "nat x"])
  ultimately show "unat (drop_bit 4 (nibbles_byte hi lo) AND 0x0f) = nat hi"
    and "unat (nibbles_byte hi lo AND 0x0f) = nat lo" using assms by blast+
qed

lemma unat_nibble [simp]: "unat ((b :: byte) AND 0x0f) < 16"
proof -
  have "b AND 0x0f \<le> 0x0f" by (rule word_and_le1)
  then show ?thesis by (simp add: word_le_nat_alt)
qed

section \<open>Round trips\<close>

lemma length_hex_encode_loop [simp]: "length (hex_encode_loop bs) = 2 * length bs"
  by (induction bs) auto

lemma hex_decode_encode_loop [simp]: "hex_decode_loop (hex_encode_loop bs) = Inr bs"
  by (induction bs) (simp_all add: hex_nibble_HEX_LC nibbles_byte_split)

lemma hex_encode_small:
  "length bs \<le> (SIZE_MAX - 1) div 2 \<Longrightarrow> hex_encode bs = Some (hex_encode_loop bs)"
  by (simp add: hex_encode_def hex_encode_to_def)

lemma hex_encode_SomeD: "hex_encode bs = Some s \<Longrightarrow> s = hex_encode_loop bs"
  by (auto simp: hex_encode_def hex_encode_to_def split: if_splits)

lemma hex_encode_to_InrD: "hex_encode_to bs n = Inr s \<Longrightarrow> s = hex_encode_loop bs"
  by (auto simp: hex_encode_to_def split: if_splits)

lemma hex_decode_loop_InrD:
  "hex_decode_loop s = Inr bs \<Longrightarrow> even (length s) \<Longrightarrow>
     list_all is_hex_char s \<and> length s = 2 * length bs \<and> hex_encode_loop bs = hex_to_lower s"
proof (induction s arbitrary: bs rule: hex_decode_loop.induct)
  case (1 h l s)
  then have ok: "is_hex_char h" "is_hex_char l"
    by (auto simp: is_hex_char_def Let_def split: if_splits)
  with "1.prems" obtain bs' where bs': "hex_decode_loop s = Inr bs'"
      "bs = nibbles_byte (hex_nibble h) (hex_nibble l) # bs'"
    by (auto simp: is_hex_char_def res_bind_Inr_iff Let_def)
  have "\<not> (hex_nibble h < 0 \<or> hex_nibble l < 0)" using ok by (simp add: is_hex_char_def)
  from "1.IH"[OF refl refl this bs'(1)] "1.prems"(2)
  have IH: "list_all is_hex_char s \<and> length s = 2 * length bs' \<and> hex_encode_loop bs' = hex_to_lower s"
    by simp
  show ?case
    using IH ok hex_char_cases[OF ok(1)] hex_char_cases[OF ok(2)] bs'(2)
    by (simp add: split_nibbles_byte hex_to_lower_def)
qed (auto simp: hex_to_lower_def)

lemma hex_decode_loop_ok:
  "list_all is_hex_char s \<Longrightarrow> \<exists>bs. hex_decode_loop s = Inr bs"
  by (induction s rule: hex_decode_loop.induct) (auto simp: is_hex_char_def Let_def res_bind_Inr_iff)

lemma hex_decode_loop_err:
  "hex_decode_loop s = Inl e \<Longrightarrow> e = BNS_EPARSE"
  by (induction s rule: hex_decode_loop.induct)
    (auto simp: Let_def res_bind_Inl_iff split: if_splits)

lemma hex_decode_eq_loop: "even (length s) \<Longrightarrow> hex_decode s = hex_decode_loop s"
  by (cases s) (auto simp: hex_decode_def)

lemma hex_decode_encode: "hex_decode (hex_encode_loop bs) = Inr bs"
  by (simp add: hex_decode_eq_loop)

lemma hex_decode_InrD:
  "hex_decode s = Inr bs \<Longrightarrow>
     list_all is_hex_char s \<and> length s = 2 * length bs \<and> hex_encode_loop bs = hex_to_lower s"
  using hex_decode_loop_InrD[of s bs]
  by (cases "even (length s)") (simp_all add: hex_decode_eq_loop, simp add: hex_decode_def)

lemma hex_decode_fixed_InrD:
  "hex_decode_fixed s n = Inr bs \<Longrightarrow>
     length bs = n \<and> hex_encode_loop bs = hex_to_lower s"
  by (auto simp: hex_decode_fixed_def split: if_splits dest: hex_decode_loop_InrD)

lemma hex_decode_fixed_encode:
  "length bs = n \<Longrightarrow> hex_decode_fixed (hex_encode_loop bs) n = Inr bs"
  by (simp add: hex_decode_fixed_def)

lemma hex_to_lower_encode [simp]: "hex_to_lower (hex_encode_loop bs) = hex_encode_loop bs"
  using hex_decode_InrD[OF hex_decode_encode] by simp

lemma is_hex_len_iff: "is_hex_len s n \<longleftrightarrow> length s = 2 * n \<and> list_all is_hex_char s"
  by (auto simp: is_hex_len_def is_hex_char_def fun_eq_iff list_all_iff)

lemma is_hex_char_lower: "is_hex_char (lower_char c) = is_hex_char c"
proof (cases "65 \<le> (of_char c :: nat) \<and> (of_char c :: nat) \<le> 70")
  case True
  then have "65 \<le> (of_char c :: int)" "(of_char c :: int) \<le> 70"
    by (metis of_nat_le_iff of_nat_numeral of_nat_of_char)+
  then have "is_hex_char c" by (auto simp: is_hex_char_def hex_nibble_def Let_def)
  then show ?thesis using hex_char_cases[of c] by (simp add: is_hex_char_def)
qed (auto simp: lower_char_def Let_def)

lemma hex_encode_loop_inj [simp]: "hex_encode_loop a = hex_encode_loop b \<longleftrightarrow> a = b"
  by (metis Inr_inject hex_decode_encode_loop)

lemma list_all_hex_lower: "list_all is_hex_char (hex_to_lower s) = list_all is_hex_char s"
  by (simp add: hex_to_lower_def list_all_iff is_hex_char_lower)

lemma length_hex_to_lower [simp]: "length (hex_to_lower s) = length s"
  by (simp add: hex_to_lower_def)

text \<open>Decoding is determined by the lower-case form of its input.\<close>

lemma hex_decode_Inr_iff: "hex_decode s = Inr bs \<longleftrightarrow> hex_to_lower s = hex_encode_loop bs"
proof
  assume low: "hex_to_lower s = hex_encode_loop bs"
  then have "list_all is_hex_char s"
    using hex_decode_InrD[OF hex_decode_encode, of bs] list_all_hex_lower[of s] by simp
  moreover have "length s = 2 * length bs" using arg_cong[OF low, of length] by simp
  ultimately obtain bs' where bs': "hex_decode s = Inr bs'"
    using hex_decode_loop_ok[of s] by (auto simp: hex_decode_eq_loop)
  then have "hex_encode_loop bs' = hex_encode_loop bs"
    using hex_decode_InrD[OF bs'] low by simp
  then show "hex_decode s = Inr bs" using bs' by simp
qed (use hex_decode_InrD in auto)

text \<open>
  Decoding succeeds exactly on the even-length strings of hexadecimal digits of either
  case, every failure is \<^verbatim>\<open>BNS_EPARSE\<close>, re-encoding a decoded string gives its lower-case
  form, and decoding an encoded string gives the bytes back.
\<close>

theorem hex_decode_correct:
  "(case hex_decode s of
      Inl e \<Rightarrow> e = BNS_EPARSE \<and> \<not> (even (length s) \<and> list_all is_hex_char s)
    | Inr bs \<Rightarrow> even (length s) \<and> list_all is_hex_char s \<and> hex_encode_loop bs = hex_to_lower s) \<and>
   hex_decode (hex_encode_loop bs0) = Inr bs0"
proof (cases "hex_decode s")
  case (Inl e)
  then have "odd (length s) \<or> \<not> list_all is_hex_char s"
    using hex_decode_loop_ok[of s] by (auto simp: hex_decode_eq_loop)
  moreover have "e = BNS_EPARSE"
    using Inl hex_decode_loop_err by (auto simp: hex_decode_def split: if_splits)
  ultimately show ?thesis using Inl by (auto simp: hex_decode_encode)
next
  case (Inr bs)
  then show ?thesis using hex_decode_InrD[OF Inr] by (simp add: hex_decode_encode)
qed

end
