(* ===== verification/Bytes.thy ===== *)
theory Bytes
  imports Prelude
begin

text \<open>
  The growable owned buffer of \<^verbatim>\<open>src/common/bytes.c\<close>, with its capacity, its
  geometric growth, the wrap-around of \<^verbatim>\<open>size_t\<close> and the failures of the allocator. The
  abstraction \<open>contents\<close> is the list of used bytes; the locale \<open>byte_sink\<close> states what
  every serializer relies on, and its interpretation on the buffer justifies modelling an
  output buffer elsewhere as the list of bytes appended to it.
\<close>

section \<open>Model\<close>

text \<open>The modulus of \<^verbatim>\<open>size_t\<close>.\<close>

definition size_mod :: nat where
  "size_mod = 2 ^ 64"

record byte_buf_t =
  data :: bytes
  len :: nat
  cap :: nat

text \<open>
  The allocator is a parameter: \<open>alloc n\<close> is the block that \<^verbatim>\<open>malloc(n)\<close> or the
  grown part of \<^verbatim>\<open>realloc(p, n)\<close> takes its fresh bytes from, \<open>None\<close> when it fails. A
  block has the requested size, which never exceeds \<^verbatim>\<open>PTRDIFF_MAX\<close>.
\<close>

type_synonym allocator = "nat \<Rightarrow> bytes option"

definition alloc_ok :: "allocator \<Rightarrow> bool" where
  "alloc_ok alloc \<longleftrightarrow> (\<forall>n blk. alloc n = Some blk \<longrightarrow> length blk = n \<and> n < 2 ^ 63)"

definition BYTE_BUF_MIN_CAP :: nat where
  "BYTE_BUF_MIN_CAP = 16"

definition byte_buf_init :: byte_buf_t where
  "byte_buf_init = \<lparr>data = [], len = 0, cap = 0\<rparr>"

definition byte_buf_init_cap :: "allocator \<Rightarrow> nat \<Rightarrow> byte_buf_t res" where
  "byte_buf_init_cap alloc c =
     (if c = 0 then Inr byte_buf_init
      else case alloc c of None \<Rightarrow> Inl BNS_ENOMEM | Some blk \<Rightarrow> Inr \<lparr>data = blk, len = 0, cap = c\<rparr>)"

definition byte_buf_free :: "byte_buf_t \<Rightarrow> byte_buf_t" where
  "byte_buf_free b = b\<lparr>data := [], len := 0, cap := 0\<rparr>"

text \<open>
  The doubling loop of \<^verbatim>\<open>byte_buf_reserve\<close>; its starting value is never zero, so the guard
  \<open>0 < new_cap\<close> only makes the function total.
\<close>

lemma double_mod: "0 < (m::nat) \<Longrightarrow> (2 * c) mod m = 2 * c \<or> (2 * c) mod m < c"
proof -
  assume m: "0 < m"
  show ?thesis
  proof (cases "2 * c < m")
    case False
    then have e: "(2 * c) mod m = (2 * c - m) mod m" by (simp add: le_mod_geq)
    show ?thesis
    proof (cases "c < m")
      case True
      have "(2 * c - m) mod m \<le> 2 * c - m" by (rule mod_less_eq_dividend)
      then show ?thesis using e True False by linarith
    next
      case False
      then show ?thesis using mod_less_divisor[OF m, of "2 * c"] by linarith
    qed
  qed simp
qed

lemma size_mod_pos [simp]: "0 < size_mod"
  by (simp add: size_mod_def)

function grow_cap :: "nat \<Rightarrow> nat \<Rightarrow> nat" where
  "grow_cap new_cap need =
     (if new_cap < need \<and> 0 < new_cap then
        let doubled = (2 * new_cap) mod size_mod in
        if doubled < new_cap then need else grow_cap doubled need
      else new_cap)"
  by pat_completeness auto
termination
proof (relation "measure (\<lambda>(c, need). need - c)", goal_cases)
  case (2 new_cap need doubled)
  then have "doubled = 2 * new_cap \<or> doubled < new_cap"
    using double_mod[OF size_mod_pos] by blast
  then show ?case using 2 by auto
qed simp

declare grow_cap.simps [simp del]

definition byte_buf_reserve :: "allocator \<Rightarrow> byte_buf_t \<Rightarrow> nat \<Rightarrow> byte_buf_t res" where
  "byte_buf_reserve alloc b need =
     (if need \<le> cap b then Inr b
      else let new_cap = grow_cap (if cap b < BYTE_BUF_MIN_CAP then BYTE_BUF_MIN_CAP else cap b) need in
        case alloc new_cap of
          None \<Rightarrow> Inl BNS_ENOMEM
        | Some blk \<Rightarrow> Inr (b\<lparr>data := data b @ drop (length (data b)) blk, cap := new_cap\<rparr>))"

text \<open>\<^verbatim>\<open>memcpy(b->data + off, src, n)\<close>\<close>

definition overwrite :: "bytes \<Rightarrow> nat \<Rightarrow> bytes \<Rightarrow> bytes" where
  "overwrite blk off src = take off blk @ src @ drop (off + length src) blk"

definition byte_buf_append :: "allocator \<Rightarrow> byte_buf_t \<Rightarrow> bytes \<Rightarrow> byte_buf_t res" where
  "byte_buf_append alloc b src =
     (if length src = 0 then Inr b
      else if length src > (size_mod - 1) - len b then Inl BNS_ENOMEM
      else res_bind (byte_buf_reserve alloc b (len b + length src)) (\<lambda>b.
        Inr (b\<lparr>data := overwrite (data b) (len b) src, len := len b + length src\<rparr>)))"

definition byte_buf_append_byte :: "allocator \<Rightarrow> byte_buf_t \<Rightarrow> byte \<Rightarrow> byte_buf_t res" where
  "byte_buf_append_byte alloc b x =
     res_bind (byte_buf_reserve alloc b ((len b + 1) mod size_mod)) (\<lambda>b.
       Inr (b\<lparr>data := overwrite (data b) (len b) [x], len := len b + 1\<rparr>))"

definition contents :: "byte_buf_t \<Rightarrow> bytes" where
  "contents b = take (len b) (data b)"

definition byte_buf_append_buf :: "allocator \<Rightarrow> byte_buf_t \<Rightarrow> byte_buf_t \<Rightarrow> byte_buf_t res" where
  "byte_buf_append_buf alloc b src =
     (if len src = 0 then Inr b else byte_buf_append alloc b (take (len src) (data src)))"

definition byte_buf_clear :: "byte_buf_t \<Rightarrow> byte_buf_t" where
  "byte_buf_clear b = b\<lparr>len := 0\<rparr>"

definition byte_buf_from :: "allocator \<Rightarrow> bytes \<Rightarrow> byte_buf_t res" where
  "byte_buf_from alloc src =
     (if length src = 0 then Inr byte_buf_init
      else res_bind (byte_buf_reserve alloc byte_buf_init (length src)) (\<lambda>b.
        Inr (b\<lparr>data := overwrite (data b) 0 src, len := length src\<rparr>)))"

definition byte_buf_eq :: "byte_buf_t \<Rightarrow> byte_buf_t \<Rightarrow> bool" where
  "byte_buf_eq a b =
     (if len a \<noteq> len b then False
      else if len a = 0 then True
      else take (len a) (data a) = take (len a) (data b))"

text \<open>\<^verbatim>\<open>for (i = 0; i < a->len; i++) acc |= a->data[i] ^ b->data[i];\<close>\<close>

fun ct_acc :: "nat \<Rightarrow> nat \<Rightarrow> bytes \<Rightarrow> bytes \<Rightarrow> byte \<Rightarrow> byte" where
  "ct_acc 0 i x y acc = acc"
| "ct_acc (Suc k) i x y acc = ct_acc k (Suc i) x y (acc OR (x ! i XOR y ! i))"

definition byte_buf_eq_ct :: "byte_buf_t \<Rightarrow> byte_buf_t \<Rightarrow> bool" where
  "byte_buf_eq_ct a b =
     (if len a \<noteq> len b then False else ct_acc (len a) 0 (data a) (data b) 0 = 0)"

section \<open>Invariant\<close>

definition buf_inv :: "byte_buf_t \<Rightarrow> bool" where
  "buf_inv b \<longleftrightarrow> len b \<le> cap b \<and> length (data b) = cap b \<and> cap b < 2 ^ 63"

lemma grow_cap_ge: "0 < c \<Longrightarrow> need \<le> grow_cap c need \<and> c \<le> grow_cap c need \<or> grow_cap c need = need"
proof (induction c need rule: grow_cap.induct)
  case (1 c need)
  show ?case
  proof (cases "c < need")
    case True
    define d where "d = (2 * c) mod size_mod"
    show ?thesis
    proof (cases "d < c")
      case True
      then have "grow_cap c need = need"
        using \<open>c < need\<close> "1.prems" by (subst grow_cap.simps) (simp add: Let_def flip: d_def)
      then show ?thesis by simp
    next
      case False
      have "grow_cap c need = grow_cap d need"
        using False \<open>c < need\<close> "1.prems" by (subst grow_cap.simps) (simp add: Let_def flip: d_def)
      moreover have "0 < d" using False "1.prems" by simp
      ultimately show ?thesis
        using "1.IH"[OF _ d_def False] \<open>c < need\<close> "1.prems" False by (metis le_trans linorder_not_le)
    qed
  next
    case False
    then have "grow_cap c need = c" by (subst grow_cap.simps) simp
    then show ?thesis using False by simp
  qed
qed

lemma grow_cap_need: "0 < c \<Longrightarrow> need \<le> grow_cap c need"
  using grow_cap_ge[of c need] by auto

lemma grow_cap_le: "0 < c \<Longrightarrow> grow_cap c need \<le> max (2 * need) c"
proof (induction c need rule: grow_cap.induct)
  case (1 c need)
  show ?case
  proof (cases "c < need")
    case True
    define d where "d = (2 * c) mod size_mod"
    have "d \<le> 2 * c" by (simp add: d_def)
    show ?thesis
    proof (cases "d < c")
      case True
      then have "grow_cap c need = need"
        using \<open>c < need\<close> "1.prems" by (subst grow_cap.simps) (simp add: Let_def flip: d_def)
      then show ?thesis by simp
    next
      case False
      have "grow_cap c need = grow_cap d need"
        using False \<open>c < need\<close> "1.prems" by (subst grow_cap.simps) (simp add: Let_def flip: d_def)
      moreover have "grow_cap d need \<le> max (2 * need) d"
        using "1.IH"[OF _ d_def False] \<open>c < need\<close> "1.prems" False by linarith
      ultimately show ?thesis using \<open>d \<le> 2 * c\<close> \<open>c < need\<close> by linarith
    qed
  next
    case False
    then have "grow_cap c need = c" by (subst grow_cap.simps) simp
    then show ?thesis by simp
  qed
qed

lemma byte_buf_reserve_spec:
  assumes "alloc_ok alloc" "buf_inv b" "byte_buf_reserve alloc b need = Inr b'"
  shows "buf_inv b' \<and> contents b' = contents b \<and> len b' = len b \<and> need \<le> cap b'"
proof (cases "need \<le> cap b")
  case True
  then show ?thesis using assms by (auto simp: byte_buf_reserve_def)
next
  case False
  define c where "c = (if cap b < BYTE_BUF_MIN_CAP then BYTE_BUF_MIN_CAP else cap b)"
  have c: "0 < c" "cap b \<le> c" by (auto simp: c_def BYTE_BUF_MIN_CAP_def)
  obtain blk where blk: "alloc (grow_cap c need) = Some blk"
      "b' = b\<lparr>data := data b @ drop (length (data b)) blk, cap := grow_cap c need\<rparr>"
    using assms(3) False by (auto simp: byte_buf_reserve_def Let_def c_def split: option.splits)
  have l: "length blk = grow_cap c need" "grow_cap c need < 2 ^ 63"
    using assms(1) blk(1) by (auto simp: alloc_ok_def)
  have "cap b \<le> grow_cap c need" using False grow_cap_need[OF c(1), of need] by linarith
  then show ?thesis using assms(2) blk(2) l grow_cap_need[OF c(1)]
    by (auto simp: buf_inv_def contents_def)
qed

lemma byte_buf_append_spec:
  assumes "alloc_ok alloc" "buf_inv b" "byte_buf_append alloc b src = Inr b'"
  shows "buf_inv b' \<and> contents b' = contents b @ src"
proof (cases "src = []")
  case True
  then show ?thesis using assms by (simp add: byte_buf_append_def)
next
  case False
  then obtain b1 where b1: "byte_buf_reserve alloc b (len b + length src) = Inr b1"
      "b' = b1\<lparr>data := overwrite (data b1) (len b1) src, len := len b1 + length src\<rparr>"
    using assms(3) by (auto simp: byte_buf_append_def res_bind_Inr_iff split: if_splits)
  from byte_buf_reserve_spec[OF assms(1,2) b1(1)] b1(2)
  show ?thesis by (auto simp: buf_inv_def contents_def overwrite_def)
qed

lemma byte_buf_append_byte_spec:
  assumes "alloc_ok alloc" "buf_inv b" "byte_buf_append_byte alloc b x = Inr b'"
  shows "buf_inv b' \<and> contents b' = contents b @ [x]"
proof -
  have "len b + 1 < size_mod" using assms(2) by (simp add: buf_inv_def size_mod_def)
  then have "(len b + 1) mod size_mod = len b + 1" by simp
  then obtain b1 where b1: "byte_buf_reserve alloc b (len b + 1) = Inr b1"
      "b' = b1\<lparr>data := overwrite (data b1) (len b1) [x], len := len b1 + 1\<rparr>"
    using assms(3) by (auto simp: byte_buf_append_byte_def res_bind_Inr_iff)
  from byte_buf_reserve_spec[OF assms(1,2) b1(1)] b1(2)
  show ?thesis by (auto simp: buf_inv_def contents_def overwrite_def)
qed

lemma byte_buf_reserve_err: "byte_buf_reserve alloc b need = Inl e \<Longrightarrow> e = BNS_ENOMEM"
  by (auto simp: byte_buf_reserve_def Let_def split: if_splits option.splits)

lemma byte_buf_append_err: "byte_buf_append alloc b src = Inl e \<Longrightarrow> e = BNS_ENOMEM"
  by (auto simp: byte_buf_append_def res_bind_Inl_iff dest: byte_buf_reserve_err split: if_splits)

lemma byte_buf_append_byte_err: "byte_buf_append_byte alloc b x = Inl e \<Longrightarrow> e = BNS_ENOMEM"
  by (auto simp: byte_buf_append_byte_def res_bind_Inl_iff dest: byte_buf_reserve_err)

lemma buf_inv_simple [simp]:
  "buf_inv byte_buf_init" "buf_inv (byte_buf_free b)" "buf_inv b \<Longrightarrow> buf_inv (byte_buf_clear b)"
  by (simp_all add: buf_inv_def byte_buf_init_def byte_buf_free_def byte_buf_clear_def)

lemma byte_buf_from_eq: "byte_buf_from alloc src = byte_buf_append alloc byte_buf_init src"
  if "length src < size_mod"
  using that by (auto simp: byte_buf_from_def byte_buf_append_def byte_buf_init_def byte_buf_reserve_def
      Let_def split: option.splits)

section \<open>What a serializer relies on\<close>

locale byte_sink =
  fixes inv :: "'b \<Rightarrow> bool"
    and view :: "'b \<Rightarrow> bytes"
    and put :: "'b \<Rightarrow> bytes \<Rightarrow> 'b res"
    and put1 :: "'b \<Rightarrow> byte \<Rightarrow> 'b res"
  assumes put_ok: "inv b \<Longrightarrow> put b xs = Inr b' \<Longrightarrow> inv b' \<and> view b' = view b @ xs"
    and put_err: "put b xs = Inl e \<Longrightarrow> e = BNS_ENOMEM"
    and put1_ok: "inv b \<Longrightarrow> put1 b x = Inr b' \<Longrightarrow> inv b' \<and> view b' = view b @ [x]"
    and put1_err: "put1 b x = Inl e \<Longrightarrow> e = BNS_ENOMEM"
begin

definition appends :: "('b \<Rightarrow> 'b res) \<Rightarrow> bytes \<Rightarrow> bool" where
  "appends w bs \<longleftrightarrow> (\<forall>b. inv b \<longrightarrow> (case w b of Inl e \<Rightarrow> e = BNS_ENOMEM
      | Inr b' \<Rightarrow> inv b' \<and> view b' = view b @ bs))"

lemma appends_put: "appends (\<lambda>b. put b xs) xs"
  using put_ok put_err by (auto simp: appends_def split: sum.splits)

lemma appends_put1: "appends (\<lambda>b. put1 b x) [x]"
  using put1_ok put1_err by (auto simp: appends_def split: sum.splits)

lemma appends_seq:
  assumes "appends v xs" "appends w ys"
  shows "appends (\<lambda>b. res_bind (v b) w) (xs @ ys)"
  unfolding appends_def
proof (intro allI impI)
  fix b assume b: "inv b"
  show "case res_bind (v b) w of Inl e \<Rightarrow> e = BNS_ENOMEM | Inr b' \<Rightarrow> inv b' \<and> view b' = view b @ xs @ ys"
  proof (cases "v b")
    case (Inl e)
    then show ?thesis using assms(1) b by (auto simp: appends_def)
  next
    case (Inr b1)
    then have "inv b1" "view b1 = view b @ xs" using assms(1) b by (auto simp: appends_def)
    then show ?thesis using assms(2) Inr by (auto simp: appends_def split: sum.splits)
  qed
qed

end

text \<open>The buffer together with the allocator it draws from is such a sink.\<close>

definition sink_inv :: "allocator \<times> byte_buf_t \<Rightarrow> bool" where
  "sink_inv ab \<longleftrightarrow> alloc_ok (fst ab) \<and> buf_inv (snd ab)"

definition sink_put :: "allocator \<times> byte_buf_t \<Rightarrow> bytes \<Rightarrow> (allocator \<times> byte_buf_t) res" where
  "sink_put ab xs = res_bind (byte_buf_append (fst ab) (snd ab) xs) (\<lambda>b. Inr (fst ab, b))"

definition sink_put1 :: "allocator \<times> byte_buf_t \<Rightarrow> byte \<Rightarrow> (allocator \<times> byte_buf_t) res" where
  "sink_put1 ab x = res_bind (byte_buf_append_byte (fst ab) (snd ab) x) (\<lambda>b. Inr (fst ab, b))"

interpretation buf: byte_sink sink_inv "\<lambda>ab. contents (snd ab)" sink_put sink_put1
  by unfold_locales
    (auto simp: sink_inv_def sink_put_def sink_put1_def res_bind_Inr_iff res_bind_Inl_iff
      dest: byte_buf_append_spec byte_buf_append_byte_spec byte_buf_append_err byte_buf_append_byte_err)

section \<open>Properties\<close>

text \<open>
  C38. Appending to a well-formed buffer either reports \<^verbatim>\<open>BNS_ENOMEM\<close> or yields a
  well-formed buffer whose contents are the old contents followed by the appended bytes;
  when the allocator serves every request below \<^verbatim>\<open>PTRDIFF_MAX\<close> and the doubled size stays
  below it, the append succeeds.
\<close>

theorem byte_buf_append_refines:
  assumes "alloc_ok alloc" and "buf_inv b"
  shows "(case byte_buf_append alloc b src of
       Inl e \<Rightarrow> e = BNS_ENOMEM
     | Inr b' \<Rightarrow> buf_inv b' \<and> contents b' = contents b @ src) \<and>
   ((\<forall>n < 2 ^ 63. alloc n \<noteq> None) \<and> 2 * (len b + length src) + 16 < 2 ^ 63 \<longrightarrow>
     (\<exists>b'. byte_buf_append alloc b src = Inr b'))"
proof (intro conjI impI)
  show "case byte_buf_append alloc b src of Inl e \<Rightarrow> e = BNS_ENOMEM
     | Inr b' \<Rightarrow> buf_inv b' \<and> contents b' = contents b @ src"
    using byte_buf_append_spec[OF assms] byte_buf_append_err by (auto split: sum.splits)
next
  assume a: "(\<forall>n < 2 ^ 63. alloc n \<noteq> None) \<and> 2 * (len b + length src) + 16 < 2 ^ 63"
  define need where "need = len b + length src"
  define c where "c = (if cap b < BYTE_BUF_MIN_CAP then BYTE_BUF_MIN_CAP else cap b)"
  have small: "grow_cap c need < 2 ^ 63" if "\<not> need \<le> cap b"
  proof -
    have "c \<le> max 16 need" "0 < c" using that by (auto simp: c_def BYTE_BUF_MIN_CAP_def)
    then have "grow_cap c need \<le> max (2 * need) c" using grow_cap_le by blast
    then show ?thesis using a \<open>c \<le> max 16 need\<close> by (auto simp: need_def)
  qed
  have "\<exists>b1. byte_buf_reserve alloc b need = Inr b1"
  proof (cases "need \<le> cap b")
    case False
    with small a obtain blk where "alloc (grow_cap c need) = Some blk" by blast
    then show ?thesis using False by (simp add: byte_buf_reserve_def Let_def flip: c_def)
  qed (simp add: byte_buf_reserve_def)
  moreover have "\<not> length src > (size_mod - 1) - len b" 
    using a[THEN conjunct2] by (simp add: size_mod_def)
  ultimately show "\<exists>b'. byte_buf_append alloc b src = Inr b'"
    by (auto simp: byte_buf_append_def need_def)
qed

lemma ct_acc_zero:
  "ct_acc k i x y acc = 0 \<longleftrightarrow> acc = 0 \<and> (\<forall>j < k. x ! (i + j) = y ! (i + j))"
proof (induction k arbitrary: i acc)
  case (Suc k)
  have z: "(a OR (p XOR q) = 0) = (a = 0 \<and> p = (q :: byte))" for a p q
    by (auto simp: bit_eq_iff bit_or_iff bit_xor_iff)
  have "(\<forall>j < Suc k. x ! (i + j) = y ! (i + j)) \<longleftrightarrow>
      x ! i = y ! i \<and> (\<forall>j < k. x ! (Suc i + j) = y ! (Suc i + j))"
    by (auto simp: less_Suc_eq_0_disj)
  then show ?case by (simp only: ct_acc.simps Suc.IH z) blast
qed simp

text \<open>
  The early-exit comparison and the constant-time comparison of two well-formed buffers
  both decide equality of their contents.
\<close>

theorem byte_buf_eq_ct_correct:
  assumes "buf_inv a" and "buf_inv b"
  shows "(byte_buf_eq_ct a b \<longleftrightarrow> contents a = contents b) \<and> byte_buf_eq a b = byte_buf_eq_ct a b"
proof -
  have l: "len a \<le> length (data a)" "len b \<le> length (data b)"
    using assms by (auto simp: buf_inv_def)
  have "contents a = contents b \<longleftrightarrow> len a = len b \<and> (\<forall>j < len a. data a ! j = data b ! j)"
    using l by (auto simp: contents_def list_eq_iff_nth_eq)
  moreover have "byte_buf_eq a b \<longleftrightarrow> contents a = contents b"
    using l by (auto simp: byte_buf_eq_def contents_def dest: arg_cong[of _ _ length])
  ultimately show ?thesis by (simp add: byte_buf_eq_ct_def ct_acc_zero)
qed

definition demo_alloc :: allocator where
  "demo_alloc n = (if n < 2 ^ 63 then Some (replicate n 0) else None)"

lemma demo_alloc_ok: "alloc_ok demo_alloc"
  by (auto simp: alloc_ok_def demo_alloc_def split: if_splits)

theorem byte_buf_append_refines_witness:
  "\<exists>b'. byte_buf_append demo_alloc byte_buf_init [1, 2, 3] = Inr b' \<and> buf_inv b' \<and> contents b' = [1, 2, 3]"
proof -
  have s: "\<exists>b'. byte_buf_append demo_alloc byte_buf_init [1, 2, 3] = Inr b'"
    using byte_buf_append_refines[OF demo_alloc_ok buf_inv_simple(1), of "[1, 2, 3]", THEN conjunct2]
    by (simp add: demo_alloc_def byte_buf_init_def)
  then show ?thesis
    using byte_buf_append_refines[OF demo_alloc_ok buf_inv_simple(1), of "[1, 2, 3]", THEN conjunct1]
    by (auto simp: contents_def byte_buf_init_def)
qed

theorem byte_buf_eq_ct_correct_witness:
  "\<not> byte_buf_eq_ct \<lparr>data = [1, 2], len = 1, cap = 2\<rparr> \<lparr>data = [2, 2], len = 1, cap = 2\<rparr>"
  using byte_buf_eq_ct_correct[of "\<lparr>data = [1, 2], len = 1, cap = 2\<rparr>" "\<lparr>data = [2, 2], len = 1, cap = 2\<rparr>"]
  by (simp add: buf_inv_def contents_def)

end
