(* ===== verification/Script.thy ===== *)
theory Script
  imports Varint
begin

text \<open>
  Script chunk parsing, the P2PKH and OP\_RETURN readers (\<^verbatim>\<open>src/bsv/script.c\<close>) and
  the script and output builders (\<^verbatim>\<open>src/bsv/script_utils.c\<close>).
\<close>

section \<open>Chunks\<close>

definition OP_0 :: byte where "OP_0 = 0x00"
definition OP_PUSHDATA1 :: byte where "OP_PUSHDATA1 = 0x4c"
definition OP_PUSHDATA2 :: byte where "OP_PUSHDATA2 = 0x4d"
definition OP_PUSHDATA4 :: byte where "OP_PUSHDATA4 = 0x4e"
definition OP_RETURN :: byte where "OP_RETURN = 0x6a"
definition OP_DUP :: byte where "OP_DUP = 0x76"
definition OP_EQUALVERIFY :: byte where "OP_EQUALVERIFY = 0x88"
definition OP_HASH160 :: byte where "OP_HASH160 = 0xa9"
definition OP_CHECKSIG :: byte where "OP_CHECKSIG = 0xac"

lemmas opcodes = OP_0_def OP_PUSHDATA1_def OP_PUSHDATA2_def OP_PUSHDATA4_def OP_RETURN_def
  OP_DUP_def OP_EQUALVERIFY_def OP_HASH160_def OP_CHECKSIG_def

text \<open>
  \<^verbatim>\<open>data\<close> points into the script or is \<^verbatim>\<open>NULL\<close> (here \<open>None\<close>);
  \<^verbatim>\<open>data_len\<close> is the length of that slice.
\<close>

record script_chunk_t =
  opcode :: byte
  chunk_data :: "bytes option"

definition data_len :: "script_chunk_t \<Rightarrow> nat" where
  "data_len c = (case chunk_data c of None \<Rightarrow> 0 | Some d \<Rightarrow> length d)"

text \<open>The payload slice: \<^verbatim>\<open>if (data_len > script_len - i) return BNS_EPARSE; data = script + i; i += data_len;\<close>\<close>

definition chunk_slice :: "bytes \<Rightarrow> nat \<Rightarrow> nat \<Rightarrow> (bytes option \<times> nat) res" where
  "chunk_slice s i n =
     (if n > length s - i then Inl BNS_EPARSE else Inr (Some (take n (drop i s)), i + n))"

text \<open>The payload of the chunk with opcode \<open>opc\<close>, whose next byte is at \<open>i\<close>.\<close>

definition chunk_payload :: "bytes \<Rightarrow> byte \<Rightarrow> nat \<Rightarrow> (bytes option \<times> nat) res" where
  "chunk_payload s opc i =
     (if opc = OP_0 then Inr (None, i)
      else if opc < OP_PUSHDATA1 then chunk_slice s i (unat opc)
      else if opc = OP_PUSHDATA1 then
        (if 1 > length s - i then Inl BNS_EPARSE
         else chunk_slice s (i + 1) (unat (s ! i)))
      else if opc = OP_PUSHDATA2 then
        (if 2 > length s - i then Inl BNS_EPARSE
         else chunk_slice s (i + 2) (unat (ucast (s ! i) OR push_bit 8 (ucast (s ! (i + 1))) :: u64)))
      else if opc = OP_PUSHDATA4 then
        (if 4 > length s - i then Inl BNS_EPARSE
         else chunk_slice s (i + 4)
           (unat (ucast (s ! i) OR push_bit 8 (ucast (s ! (i + 1)))
                  OR push_bit 16 (ucast (s ! (i + 2))) OR push_bit 24 (ucast (s ! (i + 3))) :: u64)))
      else Inr (None, i))"

lemma chunk_payload_mono: "chunk_payload s opc i = Inr (d, i') \<Longrightarrow> i \<le> i'"
  by (auto simp: chunk_payload_def chunk_slice_def split: if_splits)

function script_parse_loop :: "bytes \<Rightarrow> nat \<Rightarrow> nat \<Rightarrow> nat \<Rightarrow> script_chunk_t list res" where
  "script_parse_loop s max_chunks i count =
     (if i \<ge> length s then Inr []
      else let opc = s ! i in
        res_bind (chunk_payload s opc (i + 1)) (\<lambda>(d, i').
        if count \<ge> max_chunks then Inl BNS_ERANGE
        else res_bind (script_parse_loop s max_chunks i' (count + 1)) (\<lambda>cs.
          Inr (\<lparr>opcode = opc, chunk_data = d\<rparr> # cs))))"
  by pat_completeness auto
termination
  by (relation "measure (\<lambda>(s, mx, i, c). length s - i)") (auto dest!: chunk_payload_mono)

declare script_parse_loop.simps [simp del]

definition script_parse :: "bytes \<Rightarrow> nat \<Rightarrow> script_chunk_t list res" where
  "script_parse s max_chunks = script_parse_loop s max_chunks 0 0"

section \<open>Readers\<close>

definition is_p2pkh_out :: "bytes \<Rightarrow> bytes option" where
  "is_p2pkh_out s =
     (if length s \<noteq> 25 then None
      else if s ! 0 \<noteq> OP_DUP then None
      else if s ! 1 \<noteq> OP_HASH160 then None
      else if s ! 2 \<noteq> 0x14 then None
      else if s ! 23 \<noteq> OP_EQUALVERIFY then None
      else if s ! 24 \<noteq> OP_CHECKSIG then None
      else Some (take 20 (drop 3 s)))"

text \<open>
  The two-stage parse of both readers: 64 chunks on the stack first, a heap array of
  \<^verbatim>\<open>script_len\<close> chunks when that is not enough.
\<close>

definition parse_chunks :: "bytes \<Rightarrow> script_chunk_t list res" where
  "parse_chunks s =
     (case script_parse s 64 of
        Inl e \<Rightarrow> if e = BNS_ERANGE then script_parse s (length s) else Inl e
      | Inr cs \<Rightarrow> Inr cs)"

definition parse_opreturn :: "bytes \<Rightarrow> bytes res" where
  "parse_opreturn s =
     (if length s = 0 then Inl BNS_EPARSE
      else if s ! 0 = OP_RETURN \<or> (length s \<ge> 2 \<and> s ! 0 = OP_0 \<and> s ! 1 = OP_RETURN) then
        res_bind (parse_chunks s) (\<lambda>chunks.
        let ret_idx = (if s ! 0 = OP_RETURN then 0 else 1) in
        if ret_idx \<ge> length chunks \<or> opcode (chunks ! ret_idx) \<noteq> OP_RETURN then Inl BNS_EPARSE
        else Inr (concat (map (\<lambda>c. case chunk_data c of None \<Rightarrow> [] | Some d \<Rightarrow> d)
                              (drop (ret_idx + 1) chunks))))
      else Inl BNS_EPARSE)"

definition parse_receipt_hash :: "bytes \<Rightarrow> bytes res" where
  "parse_receipt_hash s =
     (if length s < 2 then Inl BNS_EPARSE
      else if s ! 0 \<noteq> OP_0 \<or> s ! 1 \<noteq> OP_RETURN then Inl BNS_EPARSE
      else res_bind (parse_chunks s) (\<lambda>chunks.
        if length chunks = 0 then Inl BNS_EPARSE
        else case chunk_data (last chunks) of
            None \<Rightarrow> Inl BNS_EPARSE
          | Some d \<Rightarrow> if length d \<noteq> 32 then Inl BNS_EPARSE else Inr d))"

section \<open>Builders\<close>

text \<open>Each builder is the sequence of bytes it appends to its output buffer.\<close>

definition build_p2pkh_script :: "bytes \<Rightarrow> bytes" where
  "build_p2pkh_script hash160 =
     [OP_DUP, OP_HASH160, 0x14] @ hash160 @ [OP_EQUALVERIFY, OP_CHECKSIG]"

definition build_opreturn_script :: "bytes \<Rightarrow> bytes res" where
  "build_opreturn_script data =
     (let n = length data; hd = [OP_0, OP_RETURN] in
      if n < 0x4c then Inr (hd @ [of_nat n] @ data)
      else if n \<le> 0xff then Inr (hd @ [0x4c, of_nat n] @ data)
      else if n \<le> 0xffff then
        Inr (hd @ [0x4d, of_nat (n mod 256), of_nat ((n div 256) mod 256)] @ data)
      else Inl BNS_ERANGE)"

text \<open>\<^verbatim>\<open>for (k = 0; k < 8; k++) { le[k] = v & 0xff; v >>= 8; }\<close>\<close>

definition sats_le :: "u64 \<Rightarrow> bytes" where
  "sats_le v = map (\<lambda>k. ucast (drop_bit (8 * k) v AND 0xff)) [0..<8]"

definition build_output :: "bytes \<Rightarrow> u64 \<Rightarrow> bytes" where
  "build_output scr sats = sats_le sats @ write_varint (of_nat (length scr)) @ scr"

definition build_p2pkh_output :: "bytes \<Rightarrow> u64 \<Rightarrow> bytes" where
  "build_p2pkh_output hash160 sats = build_output (build_p2pkh_script hash160) sats"

section \<open>Chunk parsing inverts chunk rendering\<close>

text \<open>
  The rendering of a chunk, as a specification: the opcode, the length field of the
  PUSHDATA opcodes, the payload.
\<close>

definition push_width :: "byte \<Rightarrow> nat" where
  "push_width opc = (if opc = 0x4c then 1 else if opc = 0x4d then 2 else if opc = 0x4e then 4 else 0)"

definition enc_chunk :: "script_chunk_t \<Rightarrow> bytes" where
  "enc_chunk c = opcode c # (case chunk_data c of None \<Rightarrow> []
     | Some d \<Rightarrow> le_bytes (push_width (opcode c)) (of_nat (length d) :: u64) @ d)"

definition chunk_ok :: "script_chunk_t \<Rightarrow> bool" where
  "chunk_ok c = (case chunk_data c of
       None \<Rightarrow> opcode c = 0 \<or> opcode c > 0x4e
     | Some d \<Rightarrow> if opcode c < 0x4c then opcode c \<noteq> 0 \<and> length d = unat (opcode c)
                 else opcode c \<le> 0x4e \<and> length d < 2 ^ (8 * push_width (opcode c)))"

definition dec_chunk :: "bytes \<Rightarrow> nat \<Rightarrow> (script_chunk_t \<times> nat) res" where
  "dec_chunk d off =
     (if off \<ge> length d then Inl BNS_EPARSE
      else res_bind (chunk_payload d (d ! off) (off + 1)) (\<lambda>(p, i).
        Inr (\<lparr>opcode = d ! off, chunk_data = p\<rparr>, i)))"

lemma take_le_1: "i + 1 \<le> length s \<Longrightarrow> take 1 (drop i s) = [s ! i]"
  by (simp add: take_Suc_conv_app_nth hd_drop_conv_nth)

lemma take_le_2: "i + 2 \<le> length s \<Longrightarrow> take 2 (drop i s) = [s ! i, s ! (i + 1)]"
  by (intro nth_equalityI) (auto simp: less_Suc_eq numeral_eq_Suc)

lemma take_le_4:
  "i + 4 \<le> length s \<Longrightarrow> take 4 (drop i s) = [s ! i, s ! (i + 1), s ! (i + 2), s ! (i + 3)]"
  by (intro nth_equalityI) (auto simp: less_Suc_eq numeral_eq_Suc)

lemma unat_ucast_byte [simp]: "unat (ucast (b :: byte) :: u64) = unat b"
  using unsigned_less[of b, where 'a = nat]
  by (simp add: unsigned_ucast_eq unsigned_take_bit_eq take_bit_nat_eq_self)

lemma byte_op_cases:
  fixes opc :: byte
  obtains (zero) "opc = 0" | (direct) "opc \<noteq> 0" "opc < 0x4c"
  | (push) "opc = 0x4c \<or> opc = 0x4d \<or> opc = 0x4e" | (plain) "opc > 0x4e"
proof -
  have "opc < 0x4c \<or> unat opc = 76 \<or> unat opc = 77 \<or> unat opc = 78 \<or> opc > 0x4e"
    by (auto simp: word_less_nat_alt)
  then show thesis
    using zero direct push plain by (auto simp: word_unat_eq_iff)
qed

lemma chunk_payload_push:
  assumes "opc = 0x4c \<or> opc = 0x4d \<or> opc = 0x4e"
  shows "chunk_payload s opc i =
    (if push_width opc > length s - i then Inl BNS_EPARSE
     else chunk_slice s (i + push_width opc) (unat (le_val (take (push_width opc) (drop i s)) :: u64)))"
  using assms
proof (elim disjE)
  assume "opc = 0x4c"
  moreover have "\<not> 1 > length s - i \<Longrightarrow> i + 1 \<le> length s" by linarith
  ultimately show ?thesis using take_le_1[of i s]
    by (auto simp: chunk_payload_def opcodes push_width_def)
next
  assume "opc = 0x4d"
  moreover have "\<not> 2 > length s - i \<Longrightarrow> i + 2 \<le> length s" by linarith
  ultimately show ?thesis using take_le_2[of i s]
    by (auto simp: chunk_payload_def opcodes push_width_def)
next
  assume "opc = 0x4e"
  moreover have "\<not> 4 > length s - i \<Longrightarrow> i + 4 \<le> length s" by linarith
  ultimately show ?thesis using take_le_4[of i s]
    by (auto simp: chunk_payload_def opcodes push_width_def push_bit_or or.assoc)
qed

lemma chunk_slice_enc:
  "drop i s = d @ rest \<Longrightarrow> chunk_slice s i (length d) = Inr (Some d, i + length d)"
proof -
  assume a: "drop i s = d @ rest"
  with drop_append_minus[OF a] show ?thesis by (simp add: chunk_slice_def)
qed

lemma le_val_of_nat:
  assumes "n < 2 ^ (8 * k)" "k \<le> 8"
  shows "unat (le_val (le_bytes k (of_nat n :: u64)) :: u64) = n"
proof -
  have "n < 2 ^ 64"
    using assms power_increasing[of "8 * k" 64 "2::nat"] by simp
  moreover from this have "le_val (le_bytes k (of_nat n :: u64)) = (of_nat n :: u64)"
    using assms(1) by (intro le_val_le_bytes_small not_bit_word_less[where m = "8 * k"])
      (simp_all add: unat_of_nat take_bit_nat_eq_self)
  ultimately show ?thesis by (simp add: unat_of_nat take_bit_nat_eq_self)
qed

lemma push_width_bounds:
  "opc = 0x4c \<or> opc = 0x4d \<or> opc = 0x4e \<Longrightarrow> 0 < push_width opc \<and> push_width opc < 8"
  by (auto simp: push_width_def)

lemma push_width_zero: "opc < 0x4c \<Longrightarrow> push_width opc = 0"
  by (auto simp: push_width_def)

lemma dec_chunk_enc:
  assumes "chunk_ok c" "drop off d = enc_chunk c @ rest"
  shows "dec_chunk d off = Inr (c, off + length (enc_chunk c))"
proof -
  let ?op = "opcode c"
  define tl' where "tl' = (case chunk_data c of None \<Rightarrow> []
     | Some p \<Rightarrow> le_bytes (push_width ?op) (of_nat (length p) :: u64) @ p)"
  have d: "drop off d = [?op] @ tl' @ rest" using assms(2) by (simp add: enc_chunk_def tl'_def)
  have off: "off < length d" "d ! off = ?op" and d1: "drop (off + 1) d = tl' @ rest"
    using drop_append_less[OF d] drop_append_nth[OF d, of 0] drop_append_drop[OF d] by auto
  have "chunk_payload d ?op (off + 1) = Inr (chunk_data c, off + 1 + length tl')"
  proof (cases "chunk_data c")
    case None
    then have "?op = 0 \<or> ?op > 0x4e" using assms(1) by (simp add: chunk_ok_def)
    then show ?thesis using None by (auto simp: chunk_payload_def opcodes tl'_def word_less_nat_alt)
  next
    case (Some p)
    show ?thesis
    proof (cases "?op < 0x4c")
      case True
      then have o: "?op \<noteq> 0" "length p = unat ?op" "tl' = p"
        using assms(1) Some by (auto simp: chunk_ok_def tl'_def push_width_zero)
      then show ?thesis using True Some chunk_slice_enc[of "off + 1" d p rest] d1
        by (simp add: chunk_payload_def opcodes)
    next
      case False
      then have o: "?op = 0x4c \<or> ?op = 0x4d \<or> ?op = 0x4e" "length p < 2 ^ (8 * push_width ?op)"
        using assms(1) Some
        by (cases rule: byte_op_cases[of ?op]; auto simp: chunk_ok_def word_less_nat_alt word_le_nat_alt)+
      let ?w = "push_width ?op" and ?l = "le_bytes (push_width ?op) (of_nat (length p) :: u64)"
      have t: "drop (off + 1) d = ?l @ p @ rest" using d1 Some by (simp add: tl'_def)
      have "length d - (off + 1) = ?w + length p + length rest"
        using drop_append_minus[OF t] by simp
      moreover have "drop (off + 1 + ?w) d = p @ rest" using drop_append_drop[OF t] by simp
      moreover have "unat (le_val ?l :: u64) = length p"
        using o push_width_bounds[OF o(1)] by (intro le_val_of_nat) auto
      ultimately show ?thesis using chunk_slice_enc[of "off + 1 + ?w" d p rest] t Some
        by (simp add: chunk_payload_push[OF o(1)] tl'_def)
    qed
  qed
  then show ?thesis using off by (simp add: dec_chunk_def enc_chunk_def tl'_def)
qed

lemma chunk_slice_sound:
  assumes "chunk_slice s i n = Inr (p, i')"
  obtains x where "p = Some x" "length x = n" "i' = i + n" "drop i s = x @ drop i' s"
proof -
  from assms have a: "n \<le> length s - i" "p = Some (take n (drop i s))" "i' = i + n"
    by (auto simp: chunk_slice_def split: if_splits)
  have "drop i s = take n (drop i s) @ drop i' s"
    using a(3) by (metis append_take_drop_id drop_drop add.commute)
  with a that[of "take n (drop i s)"] show thesis by simp
qed

lemma chunk_payload_sound:
  assumes "chunk_payload d opc i = Inr (p, i')" "i \<le> length d"
  shows "chunk_ok \<lparr>opcode = opc, chunk_data = p\<rparr> \<and>
    opc # drop i d = enc_chunk \<lparr>opcode = opc, chunk_data = p\<rparr> @ drop i' d \<and>
    i' + 1 = i + length (enc_chunk \<lparr>opcode = opc, chunk_data = p\<rparr>)"
proof (cases rule: byte_op_cases[of opc])
  case zero
  with assms show ?thesis by (auto simp: chunk_payload_def opcodes enc_chunk_def chunk_ok_def)
next
  case plain
  with assms show ?thesis
    by (auto simp: chunk_payload_def opcodes enc_chunk_def chunk_ok_def word_less_nat_alt split: if_splits)
next
  case direct
  with assms have "chunk_slice d i (unat opc) = Inr (p, i')" by (simp add: chunk_payload_def opcodes)
  then show ?thesis
    using direct by (elim chunk_slice_sound) (auto simp: enc_chunk_def chunk_ok_def push_width_zero)
next
  case push
  let ?w = "push_width opc"
  let ?n = "unat (le_val (take ?w (drop i d)) :: u64)"
  have s: "chunk_slice d (i + ?w) ?n = Inr (p, i')" and w: "?w \<le> length d - i"
    using assms(1) by (auto simp: chunk_payload_push[OF push] split: if_splits)
  have l: "length (take ?w (drop i d)) = ?w" using w by simp
  have wb: "0 < ?w" "?w < 8" using push_width_bounds[OF push] by auto
  have n: "?n < 2 ^ (8 * ?w)" using le_val_take_bound[OF l wb(2)] .
  have b: "le_bytes ?w (of_nat ?n :: u64) = take ?w (drop i d)"
    using le_bytes_le_val[where 'a = 64, of "take ?w (drop i d)"] l wb by simp
  obtain x where x: "p = Some x" "length x = ?n" "i' = i + ?w + ?n" "drop (i + ?w) d = x @ drop i' d"
    using chunk_slice_sound[OF s] by metis
  have "drop i d = take ?w (drop i d) @ x @ drop i' d"
    using x(4) by (metis append_take_drop_id drop_drop add.commute)
  moreover have "\<not> opc < 0x4c" "opc \<le> 0x4e" using push by auto
  ultimately show ?thesis
    using x n b w by (simp add: enc_chunk_def chunk_ok_def min_absorb2)
qed

interpretation chunk: prefix_codec "\<lambda>c. Inr (enc_chunk c)" dec_chunk chunk_ok 1
proof
  fix x bs off d rest
  assume "Inr (enc_chunk x) = (Inr bs :: bytes res)" "chunk_ok x" "drop off d = bs @ rest"
  then show "dec_chunk d off = Inr (x, off + length bs)" using dec_chunk_enc by auto
next
  fix d off x off'
  assume a: "dec_chunk d off = Inr (x, off')"
  then obtain p where p: "off < length d" "chunk_payload d (d ! off) (off + 1) = Inr (p, off')"
      "x = \<lparr>opcode = d ! off, chunk_data = p\<rparr>"
    by (auto simp: dec_chunk_def res_bind_Inr_iff split: if_splits)
  then have "drop off d = d ! off # drop (off + 1) d" by (simp add: Cons_nth_drop_Suc)
  with chunk_payload_sound[OF p(2)] p(1,3)
  show "\<exists>bs. Inr (enc_chunk x) = Inr bs \<and> chunk_ok x \<and> off' = off + length bs \<and>
      drop off d = bs @ drop off' d" by auto
qed (auto simp: enc_chunk_def)

lemma script_parse_loop_chunk:
  assumes "i < length s"
  shows "script_parse_loop s mx i cnt = res_bind (dec_chunk s i) (\<lambda>(c, i').
      if cnt \<ge> mx then Inl BNS_ERANGE
      else res_bind (script_parse_loop s mx i' (cnt + 1)) (\<lambda>cs. Inr (c # cs)))"
  using assms
  by (subst script_parse_loop.simps) (simp add: dec_chunk_def Let_def res_bind_assoc case_prod_beta' cong: if_cong)

lemma script_parse_loop_enc:
  "list_all chunk_ok cs \<Longrightarrow> drop i s = concat (map enc_chunk cs) \<Longrightarrow>
   script_parse_loop s mx i cnt =
     (if cs = [] \<or> cnt + length cs \<le> mx then Inr cs else Inl BNS_ERANGE)"
proof (induction cs arbitrary: i cnt)
  case Nil
  then show ?case by (subst script_parse_loop.simps) simp
next
  case (Cons c cs)
  let ?i = "i + length (enc_chunk c)"
  have d: "drop i s = enc_chunk c @ concat (map enc_chunk cs)" using Cons.prems by simp
  have i: "i < length s" using drop_append_less[OF d] by (simp add: enc_chunk_def)
  have "dec_chunk s i = Inr (c, ?i)" using Cons.prems(1) d by (intro dec_chunk_enc) auto
  moreover have "script_parse_loop s mx ?i (cnt + 1) =
      (if cs = [] \<or> cnt + 1 + length cs \<le> mx then Inr cs else Inl BNS_ERANGE)"
    using Cons.prems(1) drop_append_drop[OF d] by (intro Cons.IH) auto
  ultimately show ?case using i by (auto simp: script_parse_loop_chunk)
qed

lemma script_parse_loop_sound:
  "script_parse_loop s mx i cnt = Inr cs \<Longrightarrow>
   list_all chunk_ok cs \<and> drop i s = concat (map enc_chunk cs)"
proof (induction cs arbitrary: i cnt)
  case Nil
  then show ?case
    by (cases "i < length s") (auto simp: script_parse_loop_chunk res_bind_Inr_iff split: if_splits)
next
  case (Cons c cs)
  then have i: "i < length s" by (subst (asm) script_parse_loop.simps) (auto split: if_splits)
  with Cons.prems obtain i' where i': "dec_chunk s i = Inr (c, i')"
      "script_parse_loop s mx i' (cnt + 1) = Inr cs"
    by (auto simp: script_parse_loop_chunk res_bind_Inr_iff split: if_splits)
  from chunk.dec_sound[OF i'(1)] Cons.IH[OF i'(2)] show ?case by auto
qed

lemma script_parse_loop_err:
  "script_parse_loop s mx i cnt = Inl e \<Longrightarrow> e = BNS_EPARSE \<or> e = BNS_ERANGE"
proof (induction s mx i cnt rule: script_parse_loop.induct)
  case (1 s mx i cnt)
  have p: "chunk_payload s opc j = Inl e \<Longrightarrow> e = BNS_EPARSE" for opc j
    by (auto simp: chunk_payload_def chunk_slice_def split: if_splits)
  show ?case
  proof (cases "i < length s")
    case True
    with "1.prems" show ?thesis
      using "1.IH"[OF _ refl] p
      by (subst (asm) script_parse_loop.simps)
        (auto simp: res_bind_Inl_iff Let_def not_le split: if_splits)
  next
    case False
    with "1.prems" show ?thesis by (subst (asm) script_parse_loop.simps) simp
  qed
qed

text \<open>The array fills up exactly when one chunk more than it holds can be read.\<close>

lemma dec_chunk_err: "dec_chunk s i = Inl e \<Longrightarrow> e = BNS_EPARSE"
  by (auto simp: dec_chunk_def res_bind_Inl_iff chunk_payload_def chunk_slice_def split: if_splits)

lemma script_parse_loop_full:
  "cnt \<le> mx \<Longrightarrow> script_parse_loop s mx i cnt = Inl BNS_ERANGE \<longleftrightarrow>
    (\<exists>cs rest. list_all chunk_ok cs \<and> cnt + length cs = Suc mx \<and> drop i s = concat (map enc_chunk cs) @ rest)"
proof (induction "mx - cnt" arbitrary: i cnt)
  case 0
  then have "cnt = mx" by simp
  show ?case
  proof
    assume r: "script_parse_loop s mx i cnt = Inl BNS_ERANGE"
    then have i: "i < length s" by (subst (asm) script_parse_loop.simps) (auto split: if_splits)
    then obtain c i' where c: "dec_chunk s i = Inr (c, i')"
      using r dec_chunk_err by (cases "dec_chunk s i") (auto simp: script_parse_loop_chunk)
    show "\<exists>cs rest. list_all chunk_ok cs \<and> cnt + length cs = Suc mx \<and> drop i s = concat (map enc_chunk cs) @ rest"
      using chunk.dec_sound[OF c] \<open>cnt = mx\<close> by (intro exI[of _ "[c]"] exI[of _ "drop i' s"]) auto
  next
    assume "\<exists>cs rest. list_all chunk_ok cs \<and> cnt + length cs = Suc mx \<and> drop i s = concat (map enc_chunk cs) @ rest"
    then obtain c rest where c: "chunk_ok c" "drop i s = enc_chunk c @ rest"
      using \<open>cnt = mx\<close> by (auto simp: length_Suc_conv)
    then have "i < length s" using drop_append_less[OF c(2)] by (simp add: enc_chunk_def)
    then show "script_parse_loop s mx i cnt = Inl BNS_ERANGE"
      using dec_chunk_enc[OF c] \<open>cnt = mx\<close> by (simp add: script_parse_loop_chunk)
  qed
next
  case (Suc k)
  then have le: "cnt < mx" and IH: "script_parse_loop s mx i' (cnt + 1) = Inl BNS_ERANGE \<longleftrightarrow>
      (\<exists>cs rest. list_all chunk_ok cs \<and> cnt + 1 + length cs = Suc mx \<and> drop i' s = concat (map enc_chunk cs) @ rest)" for i'
    by simp_all
  show ?case
  proof
    assume r: "script_parse_loop s mx i cnt = Inl BNS_ERANGE"
    then have i: "i < length s" by (subst (asm) script_parse_loop.simps) (auto split: if_splits)
    then obtain c i' where c: "dec_chunk s i = Inr (c, i')" "script_parse_loop s mx i' (cnt + 1) = Inl BNS_ERANGE"
      using r le dec_chunk_err
      by (cases "dec_chunk s i") (auto simp: script_parse_loop_chunk res_bind_Inl_iff)
    obtain cs rest where cs: "list_all chunk_ok cs" "cnt + 1 + length cs = Suc mx" "drop i' s = concat (map enc_chunk cs) @ rest"
      using c(2) IH by blast
    then show "\<exists>cs rest. list_all chunk_ok cs \<and> cnt + length cs = Suc mx \<and> drop i s = concat (map enc_chunk cs) @ rest"
      using chunk.dec_sound[OF c(1)] by (intro exI[of _ "c # cs"] exI[of _ rest]) auto
  next
    assume "\<exists>cs rest. list_all chunk_ok cs \<and> cnt + length cs = Suc mx \<and> drop i s = concat (map enc_chunk cs) @ rest"
    then obtain ds rest where ds: "list_all chunk_ok ds" "cnt + length ds = Suc mx" "drop i s = concat (map enc_chunk ds) @ rest"
      by blast
    then obtain c cs where "ds = c # cs" using le by (cases ds) auto
    then have c: "chunk_ok c" "list_all chunk_ok cs" "cnt + 1 + length cs = Suc mx"
      "drop i s = enc_chunk c @ concat (map enc_chunk cs) @ rest" using ds by simp_all
    have "i < length s" using drop_append_less[OF c(4)] by (simp add: enc_chunk_def)
    moreover have "script_parse_loop s mx (i + length (enc_chunk c)) (cnt + 1) = Inl BNS_ERANGE"
      using c drop_append_drop[OF c(4)] unfolding IH by auto
    ultimately show "script_parse_loop s mx i cnt = Inl BNS_ERANGE"
      using dec_chunk_enc[OF c(1,4)] le by (simp add: script_parse_loop_chunk)
  qed
qed

text \<open>
  C25. The chunk parser returns the chunk list \<open>cs\<close> exactly when \<open>cs\<close> is well formed,
  renders to the script and fits the caller's array. It fails with \<^verbatim>\<open>BNS_ERANGE\<close> exactly
  when the script begins with one well-formed chunk more than the array holds, and with
  \<^verbatim>\<open>BNS_EPARSE\<close> exactly when it does not and no chunk list renders to the script.
\<close>

theorem script_parse_correct:
  "(script_parse s mx = Inr cs \<longleftrightarrow>
      list_all chunk_ok cs \<and> s = concat (map enc_chunk cs) \<and> length cs \<le> mx) \<and>
   (script_parse s mx = Inl e \<longleftrightarrow>
      (if \<exists>cs rest. list_all chunk_ok cs \<and> length cs = Suc mx \<and> s = concat (map enc_chunk cs) @ rest
       then e = BNS_ERANGE
       else e = BNS_EPARSE \<and> (\<nexists>cs. list_all chunk_ok cs \<and> s = concat (map enc_chunk cs))))"
proof -
  have ok: "script_parse s mx = Inr cs \<longleftrightarrow> list_all chunk_ok cs \<and> s = concat (map enc_chunk cs) \<and> length cs \<le> mx" for cs
  proof
    assume p: "script_parse s mx = Inr cs"
    then have "list_all chunk_ok cs" "s = concat (map enc_chunk cs)"
      using script_parse_loop_sound[of s mx 0 0 cs] by (simp_all add: script_parse_def)
    then show "list_all chunk_ok cs \<and> s = concat (map enc_chunk cs) \<and> length cs \<le> mx"
      using p script_parse_loop_enc[of cs 0 s mx 0] by (auto simp: script_parse_def split: if_splits)
  qed (use script_parse_loop_enc[of cs 0 s mx 0] in \<open>auto simp: script_parse_def\<close>)
  have full: "script_parse s mx = Inl BNS_ERANGE \<longleftrightarrow>
      (\<exists>cs rest. list_all chunk_ok cs \<and> length cs = Suc mx \<and> s = concat (map enc_chunk cs) @ rest)"
    using script_parse_loop_full[of 0 mx s 0] by (simp add: script_parse_def)
  have "script_parse s mx = Inl BNS_ERANGE" if "list_all chunk_ok cs" "s = concat (map enc_chunk cs)" "\<not> length cs \<le> mx" for cs
    using that script_parse_loop_enc[of cs 0 s mx 0] by (auto simp: script_parse_def split: if_splits)
  then have whole: "(\<nexists>cs. list_all chunk_ok cs \<and> s = concat (map enc_chunk cs))"
    if "script_parse s mx = Inl BNS_EPARSE" using that ok by fastforce
  have "\<exists>cs. script_parse s mx = Inr cs \<or> script_parse s mx = Inl BNS_ERANGE \<or> script_parse s mx = Inl BNS_EPARSE"
    using script_parse_loop_err[of s mx 0 0] by (cases "script_parse s mx") (auto simp: script_parse_def)
  then have "script_parse s mx = Inl e \<longleftrightarrow>
      (if script_parse s mx = Inl BNS_ERANGE then e = BNS_ERANGE
       else e = BNS_EPARSE \<and> (\<nexists>cs. list_all chunk_ok cs \<and> s = concat (map enc_chunk cs)))"
    using whole ok by auto
  then show ?thesis using ok unfolding full by blast
qed

section \<open>The readers\<close>

lemma enc_chunk_length: "length cs \<le> length (concat (map enc_chunk cs))"
  by (induction cs) (auto simp: enc_chunk_def split: option.splits)

lemma parse_chunks_enc:
  assumes "list_all chunk_ok cs" "s = concat (map enc_chunk cs)"
  shows "parse_chunks s = Inr cs"
  using assms script_parse_loop_enc[of cs 0 s 64 0] script_parse_loop_enc[of cs 0 s "length s" 0]
    enc_chunk_length[of cs]
  by (auto simp: parse_chunks_def script_parse_def)

lemma parse_chunks_sound:
  "parse_chunks s = Inr cs \<Longrightarrow> list_all chunk_ok cs \<and> s = concat (map enc_chunk cs)"
  using script_parse_loop_sound[of s 64 0 0 cs] script_parse_loop_sound[of s "length s" 0 0 cs]
  by (auto simp: parse_chunks_def script_parse_def split: sum.splits if_splits)

text \<open>
  The heap fallback is always large enough: the two-stage parse never reports
  \<^verbatim>\<open>BNS_ERANGE\<close>, because a script has at most as many chunks as bytes.
\<close>

lemma script_parse_loop_range:
  "script_parse_loop s mx i cnt = Inl BNS_ERANGE \<Longrightarrow> mx < cnt + (length s - i)"
proof (induction s mx i cnt rule: script_parse_loop.induct)
  case (1 s mx i cnt)
  have i: "i < length s" using "1.prems" by (subst (asm) script_parse_loop.simps) (auto split: if_splits)
  have p: "chunk_payload s opc j \<noteq> Inl BNS_ERANGE" for opc j
    by (auto simp: chunk_payload_def chunk_slice_def)
  with "1.prems" i consider "mx \<le> cnt"
    | d i' where "\<not> mx \<le> cnt" "chunk_payload s (s ! i) (i + 1) = Inr (d, i')"
        "script_parse_loop s mx i' (cnt + 1) = Inl BNS_ERANGE"
    by (subst (asm) script_parse_loop.simps) (auto simp: res_bind_Inl_iff Let_def split: if_splits)
  then show ?case
  proof cases
    case 1
    then show ?thesis using i by simp
  next
    case 2
    from "1.IH"[OF _ refl 2(2) refl 2(1) 2(3)] i chunk_payload_mono[OF 2(2)]
    show ?thesis by simp
  qed
qed

lemma parse_chunks_err: "parse_chunks s = Inl e \<Longrightarrow> e = BNS_EPARSE"
  using script_parse_loop_err[of s 64 0 0 e] script_parse_loop_err[of s "length s" 0 0 e]
    script_parse_loop_range[of s "length s" 0 0]
  by (auto simp: parse_chunks_def script_parse_def split: sum.splits if_splits)

definition op_chunk :: "byte \<Rightarrow> script_chunk_t" where
  "op_chunk opc = \<lparr>opcode = opc, chunk_data = None\<rparr>"

definition push_chunk :: "bytes \<Rightarrow> script_chunk_t" where
  "push_chunk d = (let n = length d in
     if n = 0 then op_chunk 0
     else if n < 0x4c then \<lparr>opcode = of_nat n, chunk_data = Some d\<rparr>
     else if n \<le> 0xff then \<lparr>opcode = 0x4c, chunk_data = Some d\<rparr>
     else \<lparr>opcode = 0x4d, chunk_data = Some d\<rparr>)"

lemma push_chunk_ok: "length d \<le> 0xffff \<Longrightarrow> chunk_ok (push_chunk d)"
  by (auto simp: push_chunk_def chunk_ok_def op_chunk_def push_width_def Let_def unat_of_nat
      take_bit_nat_eq_self word_less_nat_alt word_unat_eq_iff)

lemma ucast_of_nat_byte: "(ucast (of_nat n :: u64) :: byte) = of_nat n"
  by (simp add: word_unat_eq_iff unsigned_ucast_eq unsigned_take_bit_eq unat_of_nat take_bit_eq_mod
      mod_mod_cancel)

lemma of_nat_mod_byte: "(of_nat (n mod 256) :: byte) = of_nat n"
  by (simp add: word_unat_eq_iff unat_of_nat take_bit_eq_mod)

lemma drop_bit_of_nat_u64: "n < 2 ^ 64 \<Longrightarrow> drop_bit 8 (of_nat n :: u64) = of_nat (n div 256)"
proof -
  assume n: "n < 2 ^ 64"
  have "unat (drop_bit 8 (of_nat n :: u64)) = drop_bit 8 (unat (of_nat n :: u64))"
    by (rule unat_drop_bit_eq)
  also have "\<dots> = n div 256" using n by (simp add: unat_of_nat take_bit_nat_eq_self drop_bit_eq_div)
  also have "\<dots> = unat (of_nat (n div 256) :: u64)"
    using n by (simp add: unat_of_nat take_bit_nat_eq_self)
  finally show ?thesis by (simp only: word_unat_eq_iff)
qed

lemma le_bytes_1: "le_bytes (Suc 0) (of_nat n :: u64) = [of_nat n]"
  by (simp add: le_bytes_Suc ucast_of_nat_byte)

lemma le_bytes_2:
  "n < 0x10000 \<Longrightarrow> le_bytes 2 (of_nat n :: u64) = [of_nat (n mod 256), of_nat ((n div 256) mod 256)]"
proof -
  assume "n < 0x10000"
  then have "n < 2 ^ 64" by simp
  moreover have "le_bytes 2 (of_nat n :: u64) = le_bytes (Suc (Suc 0)) (of_nat n :: u64)"
    by (simp add: numeral_2_eq_2)
  ultimately show ?thesis
    by (simp only: le_bytes_Suc le_bytes_0 ucast_of_nat_byte of_nat_mod_byte drop_bit_of_nat_u64)
qed

lemma build_opreturn_chunks:
  "build_opreturn_script d = Inr s \<longleftrightarrow>
     length d \<le> 0xffff \<and> s = concat (map enc_chunk [op_chunk OP_0, op_chunk OP_RETURN, push_chunk d])"
  by (auto simp: build_opreturn_script_def Let_def enc_chunk_def op_chunk_def push_chunk_def
      push_width_def le_bytes_1 le_bytes_2 opcodes word_unat_eq_iff unat_of_nat take_bit_nat_eq_self)

lemma opreturn_chunks_ok:
  "length d \<le> 0xffff \<Longrightarrow> list_all chunk_ok [op_chunk OP_0, op_chunk OP_RETURN, push_chunk d]"
  using push_chunk_ok by (simp add: chunk_ok_def op_chunk_def opcodes)

text \<open>
  An OP\_RETURN script can be built exactly for payloads of at most 65535 bytes
  (\<^verbatim>\<open>BNS_ERANGE\<close> beyond); the payload reader recovers the payload from it, and the
  receipt reader recovers it exactly when it is 32 bytes long and reports
  \<^verbatim>\<open>BNS_EPARSE\<close> otherwise.
\<close>

theorem opreturn_roundtrip:
  "case build_opreturn_script d of
     Inl e \<Rightarrow> e = BNS_ERANGE \<and> length d > 65535
   | Inr s \<Rightarrow> length d \<le> 65535 \<and> parse_opreturn s = Inr d \<and>
       parse_receipt_hash s = (if length d = 32 then Inr d else Inl BNS_EPARSE)"
proof (cases "build_opreturn_script d")
  case (Inl e)
  then show ?thesis by (auto simp: build_opreturn_script_def Let_def split: if_splits)
next
  case (Inr s)
  let ?cs = "[op_chunk OP_0, op_chunk OP_RETURN, push_chunk d]"
  from Inr have s: "length d \<le> 0xffff" "s = concat (map enc_chunk ?cs)"
    by (simp_all only: build_opreturn_chunks)
  have p: "parse_chunks s = Inr ?cs" by (rule parse_chunks_enc[OF opreturn_chunks_ok[OF s(1)] s(2)])
  have hd: "s ! 0 = OP_0" "s ! 1 = OP_RETURN" "length s \<ge> 2" "s \<noteq> []"
    using s(2) by (auto simp: enc_chunk_def op_chunk_def)
  have pd: "(case chunk_data (push_chunk d) of None \<Rightarrow> [] | Some x \<Rightarrow> x) = d"
    "chunk_data (push_chunk d) = (if d = [] then None else Some d)"
    by (auto simp: push_chunk_def op_chunk_def Let_def)
  have "parse_opreturn s = Inr d"
    unfolding parse_opreturn_def using hd p pd(1) by (simp add: op_chunk_def opcodes)
  moreover have "parse_receipt_hash s = (if length d = 32 then Inr d else Inl BNS_EPARSE)"
    unfolding parse_receipt_hash_def using hd p pd(2) by simp
  ultimately show ?thesis using Inr s(1) by simp
qed

lemma length25_split:
  assumes "length s = 25"
  shows "s = [s ! 0, s ! 1, s ! 2] @ take 20 (drop 3 s) @ [s ! 23, s ! 24]"
proof -
  have "take 3 s = [s ! 0, s ! 1, s ! 2]"
    using assms by (intro nth_equalityI) (auto simp: less_Suc_eq numeral_eq_Suc)
  moreover have "drop 23 s = [s ! 23, s ! 24]"
    using assms by (intro nth_equalityI) (auto simp: less_Suc_eq numeral_eq_Suc)
  moreover have "s = take 3 s @ take 20 (drop 3 s) @ drop 23 s"
    using append_take_drop_id[of 3 s] append_take_drop_id[of 20 "drop 3 s"] by simp
  ultimately show ?thesis by metis
qed

lemma is_p2pkh_out_iff:
  "is_p2pkh_out s = Some h \<longleftrightarrow> length h = 20 \<and> s = build_p2pkh_script h"
proof
  assume a: "is_p2pkh_out s = Some h"
  then have "length s = 25" "h = take 20 (drop 3 s)" "s ! 0 = OP_DUP" "s ! 1 = OP_HASH160"
      "s ! 2 = 0x14" "s ! 23 = OP_EQUALVERIFY" "s ! 24 = OP_CHECKSIG"
    by (auto simp: is_p2pkh_out_def split: if_splits)
  then show "length h = 20 \<and> s = build_p2pkh_script h"
    using length25_split[of s] by (simp add: build_p2pkh_script_def)
next
  assume "length h = 20 \<and> s = build_p2pkh_script h"
  then show "is_p2pkh_out s = Some h"
    by (simp add: is_p2pkh_out_def build_p2pkh_script_def nth_append)
qed

text \<open>
  The P2PKH recogniser accepts exactly the scripts the P2PKH builder produces for a
  20-byte hash, and returns that hash.
\<close>

theorem p2pkh_roundtrip:
  "is_p2pkh_out s = Some h \<longleftrightarrow> length h = 20 \<and> s = build_p2pkh_script h"
  by (rule is_p2pkh_out_iff)

end
