(* ===== verification/BufWriters.thy ===== *)
theory BufWriters
  imports Bytes Script
begin

text \<open>
  Serializers of the sources exactly as written, over the growable buffer and its allocator:
  each call may fail with \<^verbatim>\<open>BNS_ENOMEM\<close> and returns at once. They refine the list-level
  serializers of the other theories, by the \<open>byte_sink\<close> contract of the buffer.
\<close>

type_synonym sink = "allocator \<times> byte_buf_t"

definition write_varint_buf :: "u64 \<Rightarrow> sink \<Rightarrow> sink res" where
  "write_varint_buf n out =
     (if n < 0xfd then sink_put1 out (ucast n)
      else if n \<le> 0xffff then
        res_bind (sink_put1 out 0xfd) (\<lambda>out. sink_put out (map (\<lambda>i. ucast (drop_bit (8 * i) n)) [0..<2]))
      else if n \<le> 0xffffffff then
        res_bind (sink_put1 out 0xfe) (\<lambda>out. sink_put out (map (\<lambda>i. ucast (drop_bit (8 * i) n)) [0..<4]))
      else
        res_bind (sink_put1 out 0xff) (\<lambda>out. sink_put out (map (\<lambda>i. ucast (drop_bit (8 * i) n)) [0..<8])))"

definition build_p2pkh_script_buf :: "bytes \<Rightarrow> sink \<Rightarrow> sink res" where
  "build_p2pkh_script_buf hash160 out =
     res_bind (sink_put1 out OP_DUP) (\<lambda>out.
     res_bind (sink_put1 out OP_HASH160) (\<lambda>out.
     res_bind (sink_put1 out 0x14) (\<lambda>out.
     res_bind (sink_put out hash160) (\<lambda>out.
     res_bind (sink_put1 out OP_EQUALVERIFY) (\<lambda>out.
     sink_put1 out OP_CHECKSIG)))))"

definition build_output_buf :: "bytes \<Rightarrow> u64 \<Rightarrow> sink \<Rightarrow> sink res" where
  "build_output_buf scr sats out =
     res_bind (sink_put out (sats_le sats)) (\<lambda>out.
     res_bind (write_varint_buf (of_nat (length scr)) out) (\<lambda>out.
     if length scr \<noteq> 0 then sink_put out scr else Inr out))"

lemma write_varint_buf_appends: "buf.appends (write_varint_buf n) (write_varint n)"
proof -
  have seq: "buf.appends (\<lambda>out. res_bind (sink_put1 out p) (\<lambda>out. sink_put out bs)) (p # bs)" for p bs
    using buf.appends_seq[OF buf.appends_put1 buf.appends_put, of p bs] by simp
  show ?thesis
    unfolding write_varint_buf_def write_varint_def le_bytes_def
    using buf.appends_put1[of "ucast n"] seq by simp
qed

lemma build_output_buf_appends: "buf.appends (build_output_buf scr sats) (build_output scr sats)"
proof -
  have last: "buf.appends (\<lambda>out. if length scr \<noteq> 0 then sink_put out scr else Inr out) scr"
    using buf.appends_put[of scr] by (cases scr) (auto simp: buf.appends_def)
  show ?thesis
    unfolding build_output_buf_def build_output_def
    by (intro buf.appends_seq buf.appends_put write_varint_buf_appends last)
qed

lemma build_p2pkh_script_buf_appends:
  "buf.appends (build_p2pkh_script_buf h) (build_p2pkh_script h)"
proof -
  have "buf.appends (build_p2pkh_script_buf h)
      ([OP_DUP] @ [OP_HASH160] @ [0x14] @ h @ [OP_EQUALVERIFY] @ [OP_CHECKSIG])"
    unfolding build_p2pkh_script_buf_def
    by (intro buf.appends_seq buf.appends_put buf.appends_put1)
  then show ?thesis by (simp add: build_p2pkh_script_def)
qed

text \<open>The outcome a refined writer may have on a buffer.\<close>

definition appended :: "byte_buf_t \<Rightarrow> bytes \<Rightarrow> sink res \<Rightarrow> bool" where
  "appended b bs r = (case r of Inl e \<Rightarrow> e = BNS_ENOMEM
     | Inr ab \<Rightarrow> buf_inv (snd ab) \<and> contents (snd ab) = contents b @ bs)"

lemma appends_appended:
  assumes "buf.appends w bs" "alloc_ok alloc" "buf_inv b"
  shows "appended b bs (w (alloc, b))"
proof -
  have "sink_inv (alloc, b)" using assms(2,3) by (simp add: sink_inv_def)
  with assms(1) have "case w (alloc, b) of Inl e \<Rightarrow> e = BNS_ENOMEM
      | Inr b' \<Rightarrow> sink_inv b' \<and> contents (snd b') = contents (snd (alloc, b)) @ bs"
    unfolding buf.appends_def by blast
  then show ?thesis by (cases "w (alloc, b)") (simp_all add: appended_def sink_inv_def)
qed

text \<open>
  Run on any well-formed buffer with any allocator, the CompactSize writer, the P2PKH
  builder and the output builder either fail with \<^verbatim>\<open>BNS_ENOMEM\<close> or append exactly the
  bytes of their list-level models, leaving a well-formed buffer.
\<close>

theorem buf_writers_refine:
  assumes "alloc_ok alloc" and "buf_inv b"
  shows "appended b (write_varint n) (write_varint_buf n (alloc, b)) \<and>
    appended b (build_p2pkh_script h) (build_p2pkh_script_buf h (alloc, b)) \<and>
    appended b (build_output scr sats) (build_output_buf scr sats (alloc, b))"
  using assms
  by (intro conjI appends_appended write_varint_buf_appends build_output_buf_appends
      build_p2pkh_script_buf_appends)

theorem buf_writers_refine_witness:
  "appended byte_buf_init [0xfd, 0x2c, 0x01] (write_varint_buf 300 (demo_alloc, byte_buf_init))"
proof -
  have v: "write_varint 300 = [0xfd, 0x2c, 0x01]" by code_simp
  show ?thesis
    using buf_writers_refine[OF demo_alloc_ok buf_inv_simple(1), of 300 "[]" "[]" 0]
    unfolding v by blast
qed

end
