(* ===== verification/Tx.thy ===== *)
theory Tx
  imports Varint Hex
begin

text \<open>
  The transaction model of \<^verbatim>\<open>src/bsv/tx.c\<close>: parsing of raw transactions, serialization,
  and the transaction id, with the display-hex convention for previous transaction ids.
  An owned \<^verbatim>\<open>byte_buf_t\<close> is its list of used bytes, an owned array a list (its
  \<^verbatim>\<open>num_\<close> field is the length), and a failing parse leaves no transaction behind.
\<close>

section \<open>Data\<close>

record bsv_txin_t =
  prev_txid_display :: string
  vout :: u32
  script_sig :: bytes
  sequence :: u32

record bsv_txout_t =
  satoshis :: u64
  script :: bytes

record bsv_tx_t =
  version :: u32
  inputs :: "bsv_txin_t list"
  outputs :: "bsv_txout_t list"
  locktime :: u32

definition tx_init :: bsv_tx_t where
  "tx_init = \<lparr>version = 0, inputs = [], outputs = [], locktime = 0\<rparr>"

section \<open>Fixed-width fields\<close>

definition append_u32_le :: "u32 \<Rightarrow> bytes" where
  "append_u32_le v =
     [ucast (v AND 0xff), ucast (drop_bit 8 v AND 0xff),
      ucast (drop_bit 16 v AND 0xff), ucast (drop_bit 24 v AND 0xff)]"

text \<open>\<^verbatim>\<open>for (i = 0; i < 8; i++) { b[i] = v & 0xff; v >>= 8; }\<close>\<close>

fun u64_le_loop :: "nat \<Rightarrow> u64 \<Rightarrow> bytes" where
  "u64_le_loop 0 v = []"
| "u64_le_loop (Suc k) v = ucast (v AND 0xff) # u64_le_loop k (drop_bit 8 v)"

definition append_u64_le :: "u64 \<Rightarrow> bytes" where
  "append_u64_le v = u64_le_loop 8 v"

definition read_u32_le :: "bytes \<Rightarrow> nat \<Rightarrow> u32 res" where
  "read_u32_le data off =
     (if off + 4 > length data then Inl BNS_EPARSE
      else Inr (ucast (data ! off) OR push_bit 8 (ucast (data ! (off + 1)))
                OR push_bit 16 (ucast (data ! (off + 2))) OR push_bit 24 (ucast (data ! (off + 3)))))"

text \<open>\<^verbatim>\<open>for (i = 7; i >= 0; i--) v = (v << 8) | data[off + i];\<close>\<close>

fun u64_be_acc :: "bytes \<Rightarrow> nat \<Rightarrow> nat \<Rightarrow> u64 \<Rightarrow> u64" where
  "u64_be_acc data off 0 v = v"
| "u64_be_acc data off (Suc i) v = u64_be_acc data off i (push_bit 8 v OR ucast (data ! (off + i)))"

definition read_u64_le :: "bytes \<Rightarrow> nat \<Rightarrow> u64 res" where
  "read_u64_le data off =
     (if off + 8 > length data then Inl BNS_EPARSE else Inr (u64_be_acc data off 8 0))"

section \<open>Deserialization\<close>

text \<open>The script field common to inputs and outputs: a CompactSize length and the bytes.\<close>

definition read_script :: "bytes \<Rightarrow> nat \<Rightarrow> (bytes \<times> nat) res" where
  "read_script d off =
     res_bind (read_varint d off) (\<lambda>vr.
     let off = off + vr_consumed vr; slen = unat (vr_value vr) in
     if slen > length d - off then Inl BNS_EPARSE
     else Inr (take slen (drop off d), off + slen))"

definition read_txin :: "bytes \<Rightarrow> nat \<Rightarrow> (bsv_txin_t \<times> nat) res" where
  "read_txin d off =
     (if length d - off < 32 then Inl BNS_EPARSE
      else let disp = map (\<lambda>j. d ! (off + 31 - j)) [0..<32] in
        res_bind (hex_encode_to disp 65) (\<lambda>txid.
        let off = off + 32 in
        res_bind (read_u32_le d off) (\<lambda>vo.
        let off = off + 4 in
        res_bind (read_script d off) (\<lambda>(ss, off).
        res_bind (read_u32_le d off) (\<lambda>sq.
        Inr (\<lparr>prev_txid_display = txid, vout = vo, script_sig = ss, sequence = sq\<rparr>, off + 4))))))"

definition read_txout :: "bytes \<Rightarrow> nat \<Rightarrow> (bsv_txout_t \<times> nat) res" where
  "read_txout d off =
     res_bind (read_u64_le d off) (\<lambda>sats.
     let off = off + 8 in
     res_bind (read_script d off) (\<lambda>(sc, off).
     Inr (\<lparr>satoshis = sats, script = sc\<rparr>, off)))"

definition tx_deserialize_raw :: "bytes \<Rightarrow> bsv_tx_t res" where
  "tx_deserialize_raw d =
     (let len = length d; off = 0 in
      res_bind (read_u32_le d off) (\<lambda>ver.
      let off = off + 4 in
      res_bind (read_varint d off) (\<lambda>vr.
      let off = off + vr_consumed vr; num_inputs = unat (vr_value vr) in
      if num_inputs > (len - off) div 41 then Inl BNS_EPARSE
      else res_bind (dec_n read_txin num_inputs d off) (\<lambda>(ins, off).
      res_bind (read_varint d off) (\<lambda>vr.
      let off = off + vr_consumed vr; num_outputs = unat (vr_value vr) in
      if num_outputs > (len - off) div 9 then Inl BNS_EPARSE
      else res_bind (dec_n read_txout num_outputs d off) (\<lambda>(outs, off).
      res_bind (read_u32_le d off) (\<lambda>lt.
      let off = off + 4 in
      if off \<noteq> len then Inl BNS_EPARSE
      else Inr \<lparr>version = ver, inputs = ins, outputs = outs, locktime = lt\<rparr>)))))))"

definition tx_deserialize :: "string \<Rightarrow> bsv_tx_t res" where
  "tx_deserialize hex =
     (case hex_decode hex of Inl _ \<Rightarrow> Inl BNS_EPARSE | Inr d \<Rightarrow> tx_deserialize_raw d)"

section \<open>Serialization\<close>

definition write_script :: "bytes \<Rightarrow> bytes" where
  "write_script s = write_varint (of_nat (length s)) @ s"

definition write_txin :: "bsv_txin_t \<Rightarrow> bytes res" where
  "write_txin i =
     (case hex_decode_fixed (prev_txid_display i) 32 of
        Inl _ \<Rightarrow> Inl BNS_EINVAL
      | Inr disp \<Rightarrow>
          let wire = map (\<lambda>j. disp ! (31 - j)) [0..<32] in
          Inr (wire @ append_u32_le (vout i) @ write_script (script_sig i)
               @ append_u32_le (sequence i)))"

definition write_txout :: "bsv_txout_t \<Rightarrow> bytes" where
  "write_txout o' = append_u64_le (satoshis o') @ write_script (script o')"

text \<open>The bytes that \<^verbatim>\<open>tx_serialize\<close> appends to its output buffer.\<close>

definition tx_serialize :: "bsv_tx_t \<Rightarrow> bytes res" where
  "tx_serialize tx =
     res_bind (enc_n write_txin (inputs tx)) (\<lambda>ins.
     res_bind (enc_n (\<lambda>o'. Inr (write_txout o')) (outputs tx)) (\<lambda>outs.
     Inr (append_u32_le (version tx) @ write_varint (of_nat (length (inputs tx))) @ ins
          @ write_varint (of_nat (length (outputs tx))) @ outs @ append_u32_le (locktime tx))))"

text \<open>
  \<open>sha\<close> is SHA-256 of the crypto library (a parameter); \<^verbatim>\<open>sha256d\<close> of
  \<^verbatim>\<open>src/crypto/hash.c\<close> applies it twice.
\<close>

definition sha256d :: "(bytes \<Rightarrow> bytes) \<Rightarrow> bytes \<Rightarrow> bytes" where
  "sha256d sha data = sha (sha data)"

definition tx_id :: "(bytes \<Rightarrow> bytes) \<Rightarrow> bsv_tx_t \<Rightarrow> string res" where
  "tx_id sha tx =
     res_bind (tx_serialize tx) (\<lambda>raw.
     let hash = sha256d sha raw; disp = map (\<lambda>i. hash ! (32 - 1 - i)) [0..<32] in
     case hex_encode disp of None \<Rightarrow> Inl BNS_ENOMEM | Some s \<Rightarrow> Inr s)"

section \<open>Fixed-width fields are little-endian\<close>

lemma append_u32_le_eq [codec]: "append_u32_le v = le_bytes 4 v"
proof -
  have "(ucast (w AND 0xff) :: byte) = ucast w" for w :: u32
  proof -
    have m: "(0xff :: u32) = mask 8" by (simp add: mask_eq_exp_minus_1)
    show ?thesis unfolding m
      by (rule bit_word_eqI) (auto simp: bit_ucast_iff bit_and_iff bit_mask_iff)
  qed
  then show ?thesis
    by (simp add: append_u32_le_def le_bytes_def numeral_eq_Suc upt_rec)
qed

lemma u64_le_loop_eq: "u64_le_loop k v = le_bytes k v"
proof (induction k arbitrary: v)
  case (Suc k)
  have m: "(0xff :: u64) = mask 8" by (simp add: mask_eq_exp_minus_1)
  have "(ucast (v AND 0xff) :: byte) = ucast v" unfolding m
    by (rule bit_word_eqI) (auto simp: bit_ucast_iff bit_and_iff bit_mask_iff)
  then show ?case by (simp add: Suc le_bytes_Suc)
qed simp

lemma append_u64_le_eq [codec]: "append_u64_le v = le_bytes 8 v"
  by (simp add: append_u64_le_def u64_le_loop_eq)

lemma length_append_le [simp]: "length (append_u32_le v) = 4" "length (append_u64_le w) = 8"
  by (simp_all add: codec)

lemma read_u32_le_eq [codec]:
  "read_u32_le d off = (if off + 4 > length d then Inl BNS_EPARSE
     else Inr (le_val (take 4 (drop off d))))"
proof -
  have "take 4 (drop off d) = [d ! off, d ! (off + 1), d ! (off + 2), d ! (off + 3)]"
    if "off + 4 \<le> length d"
    using that by (intro nth_equalityI) (auto simp: less_Suc_eq numeral_eq_Suc)
  then show ?thesis
    by (simp add: read_u32_le_def push_bit_or push_bit_push_bit or.assoc)
qed

lemma u64_be_acc_eq:
  "off + i \<le> length d \<Longrightarrow> u64_be_acc d off i v = le_val (take i (drop off d)) OR push_bit (8 * i) v"
proof (induction i arbitrary: v)
  case (Suc i)
  have snoc: "le_val (bs @ [b]) = le_val bs OR push_bit (8 * length bs) (ucast b :: u64)" for bs b
    by (induction bs) (simp_all add: push_bit_or push_bit_push_bit or.assoc)
  have t: "take (Suc i) (drop off d) = take i (drop off d) @ [d ! (off + i)]"
    and l: "length (take i (drop off d)) = i"
    using Suc.prems by (simp_all add: take_Suc_conv_app_nth)
  show ?case unfolding u64_be_acc.simps t snoc l using Suc
    by (simp add: push_bit_or push_bit_push_bit or.assoc or.commute[of "push_bit _ v"] add.commute)
qed simp

lemma read_u64_le_eq [codec]:
  "read_u64_le d off = (if off + 8 > length d then Inl BNS_EPARSE
     else Inr (le_val (take 8 (drop off d))))"
  by (simp add: read_u64_le_def u64_be_acc_eq)

section \<open>Codec contracts of the fields\<close>

definition dec_u32 :: "bytes \<Rightarrow> nat \<Rightarrow> (u32 \<times> nat) res" where
  "dec_u32 d off = res_bind (read_u32_le d off) (\<lambda>v. Inr (v, off + 4))"

definition dec_u64 :: "bytes \<Rightarrow> nat \<Rightarrow> (u64 \<times> nat) res" where
  "dec_u64 d off = res_bind (read_u64_le d off) (\<lambda>v. Inr (v, off + 8))"

lemma le_slice:
  assumes "off + k \<le> length d" "8 * k = LENGTH('a)"
  shows "drop off d = le_bytes k (le_val (take k (drop off d)) :: 'a::len word) @ drop (off + k) d"
  using assms le_bytes_le_val[where 'a = 'a, of "take k (drop off d)"]
    append_take_drop_id[of k "drop off d"] by (simp add: add.commute)

interpretation u32: prefix_codec "\<lambda>v. Inr (append_u32_le v)" dec_u32 "\<lambda>_. True" 4
proof
  fix x bs off d rest
  assume a: "Inr (append_u32_le x) = (Inr bs :: bytes res)" "drop off d = bs @ rest"
  have ne: "bs \<noteq> []" using a(1) by (auto simp: append_u32_le_def)
  show "dec_u32 d off = Inr (x, off + length bs)"
    using a drop_append_length[OF a(2) ne]
    by (auto simp: dec_u32_def codec le_val_le_bytes)
next
  fix d off x off'
  assume "dec_u32 d off = Inr (x, off')"
  then show "\<exists>bs. Inr (append_u32_le x) = Inr bs \<and> True \<and> off' = off + length bs \<and>
      drop off d = bs @ drop off' d"
    using le_slice[of off 4 d, where 'a = 32]
    by (auto simp: dec_u32_def res_bind_Inr_iff codec split: if_splits)
qed auto

interpretation u64: prefix_codec "\<lambda>v. Inr (append_u64_le v)" dec_u64 "\<lambda>_. True" 8
proof
  fix x bs off d rest
  assume a: "Inr (append_u64_le x) = (Inr bs :: bytes res)" "drop off d = bs @ rest"
  have "length bs = 8" using a(1) by auto
  then have ne: "bs \<noteq> []" by auto
  show "dec_u64 d off = Inr (x, off + length bs)"
    using a drop_append_length[OF a(2) ne]
    by (auto simp: dec_u64_def codec le_val_le_bytes)
next
  fix d off x off'
  assume "dec_u64 d off = Inr (x, off')"
  then show "\<exists>bs. Inr (append_u64_le x) = Inr bs \<and> True \<and> off' = off + length bs \<and>
      drop off d = bs @ drop off' d"
    using le_slice[of off 8 d, where 'a = 64]
    by (auto simp: dec_u64_def res_bind_Inr_iff codec split: if_splits)
qed auto

lemma read_script_alt:
  "read_script d off = res_bind (dec_varint d off) (\<lambda>(v, off).
     if unat v > length d - off then Inl BNS_EPARSE
     else Inr (take (unat v) (drop off d), off + unat v))"
  by (cases "read_varint d off") (simp_all add: read_script_def dec_varint_def Let_def)

definition script_ok :: "bytes \<Rightarrow> bool" where
  "script_ok s \<longleftrightarrow> length s < 2 ^ 64"

lemma unat_of_nat_len [simp]: "n < 2 ^ 64 \<Longrightarrow> unat (of_nat n :: u64) = n"
  by (simp add: unat_of_nat take_bit_nat_eq_self)

interpretation scr: prefix_codec "\<lambda>s. Inr (write_script s)" read_script script_ok 1
proof
  fix x bs off d rest
  assume a: "Inr (write_script x) = (Inr bs :: bytes res)" "script_ok x" "drop off d = bs @ rest"
  let ?v = "write_varint (of_nat (length x))"
  have d: "drop off d = ?v @ x @ rest" using a by (auto simp: write_script_def)
  have v: "dec_varint d off = Inr (of_nat (length x), off + length ?v)"
    using d by (intro varint.dec_enc) auto
  have dx: "drop (off + length ?v) d = x @ rest" using drop_append_drop[OF d] .
  have "length x \<le> length d - (off + length ?v)" using arg_cong[OF dx, of length] by simp
  then show "read_script d off = Inr (x, off + length bs)"
    using a(1,2) dx by (auto simp: read_script_alt v script_ok_def write_script_def)
next
  fix d off x off'
  assume "read_script d off = Inr (x, off')"
  then obtain v o1 where v: "dec_varint d off = Inr (v, o1)" "unat v \<le> length d - o1"
      "x = take (unat v) (drop o1 d)" "off' = o1 + unat v"
    by (auto simp: read_script_alt res_bind_Inr_iff split: if_splits)
  from varint.dec_sound[OF v(1)] varint.dec_bound[OF v(1)]
  have w: "o1 = off + length (write_varint v)" "drop off d = write_varint v @ drop o1 d"
    and b: "o1 \<le> length d" by auto
  have l: "length x = unat v" using v(2,3) by simp
  have "drop o1 d = x @ drop off' d" using v(3,4) by (metis append_take_drop_id drop_drop add.commute)
  moreover have "unat v < 2 ^ 64" using unsigned_less[of v, where 'a = nat] by simp
  ultimately show "\<exists>bs. Inr (write_script x) = Inr bs \<and> script_ok x \<and> off' = off + length bs \<and>
      drop off d = bs @ drop off' d"
    using w v(4) l by (simp add: write_script_def script_ok_def)
next
  fix x bs assume "Inr (write_script x) = (Inr bs :: bytes res)"
  then show "1 \<le> length bs"
    using length_write_varint_pos[of "of_nat (length x)"]
    by (auto simp: write_script_def Suc_le_eq simp del: length_write_varint_pos)
qed simp

section \<open>Inputs and outputs\<close>

definition txin_ok :: "bsv_txin_t \<Rightarrow> bool" where
  "txin_ok i \<longleftrightarrow> is_hex_len (prev_txid_display i) 32 \<and>
     hex_to_lower (prev_txid_display i) = prev_txid_display i \<and> script_ok (script_sig i)"

definition txout_ok :: "bsv_txout_t \<Rightarrow> bool" where
  "txout_ok o' \<longleftrightarrow> script_ok (script o')"

lemma disp_slice:
  assumes "off + 32 \<le> length d"
  shows "map (\<lambda>j. d ! (off + 31 - j)) [0..<32] = rev (take 32 (drop off d))"
  using assms by (intro nth_equalityI) (auto simp: rev_nth)

lemma hex_encode_to_32: "length xs = 32 \<Longrightarrow> hex_encode_to xs 65 = Inr (hex_encode_loop xs)"
  by (simp add: hex_encode_to_def SIZE_MAX_def)

lemma read_txin_alt:
  "read_txin d off =
     (if length d < off + 32 then Inl BNS_EPARSE
      else res_bind (dec_u32 d (off + 32)) (\<lambda>(vo, off1).
        res_bind (read_script d off1) (\<lambda>(ss, off2).
        res_bind (dec_u32 d off2) (\<lambda>(sq, off3).
        Inr (\<lparr>prev_txid_display = hex_encode_loop (rev (take 32 (drop off d))), vout = vo,
              script_sig = ss, sequence = sq\<rparr>, off3)))))"
proof (cases "length d < off + 32")
  case True
  then have "length d - off < 32" by linarith
  with True show ?thesis by (simp add: read_txin_def)
next
  case False
  then have f: "off + 32 \<le> length d" "\<not> length d - off < 32" by linarith+
  have h: "hex_encode_to (rev (take 32 (drop off d))) 65 =
      Inr (hex_encode_loop (rev (take 32 (drop off d))))"
    using f(1) by (intro hex_encode_to_32) simp
  show ?thesis unfolding read_txin_def disp_slice[OF f(1)] using f
    by (simp add: h Let_def dec_u32_def res_bind_assoc case_prod_beta)
qed

lemma write_txin_InrD:
  assumes "write_txin i = Inr bs"
  obtains disp where "hex_decode_fixed (prev_txid_display i) 32 = Inr disp" "length disp = 32"
    "hex_encode_loop disp = hex_to_lower (prev_txid_display i)"
    "bs = rev disp @ append_u32_le (vout i) @ write_script (script_sig i) @ append_u32_le (sequence i)"
proof (cases "hex_decode_fixed (prev_txid_display i) 32")
  case (Inl e)
  then show ?thesis using assms by (simp add: write_txin_def)
next
  case (Inr disp)
  from hex_decode_fixed_InrD[OF Inr] show ?thesis
    using assms Inr map_rev_nth[of disp 32] by (intro that[of disp]) (auto simp: write_txin_def)
qed

interpretation txin: prefix_codec write_txin read_txin txin_ok 41
proof
  fix x bs off d rest
  assume a: "write_txin x = Inr bs" "txin_ok x" "drop off d = bs @ rest"
  obtain disp where disp: "length disp = 32" "hex_encode_loop disp = hex_to_lower (prev_txid_display x)"
      "bs = rev disp @ append_u32_le (vout x) @ write_script (script_sig x) @ append_u32_le (sequence x)"
    using write_txin_InrD[OF a(1)] by metis
  let ?s = "write_script (script_sig x)"
  have d0: "drop off d = rev disp @ append_u32_le (vout x) @ ?s @ append_u32_le (sequence x) @ rest"
    using a(3) disp(3) by simp
  have d1: "drop (off + 32) d = append_u32_le (vout x) @ ?s @ append_u32_le (sequence x) @ rest"
    using drop_append_drop[OF d0] disp(1) by simp
  have d2: "drop (off + 32 + 4) d = ?s @ append_u32_le (sequence x) @ rest"
    using drop_append_drop[OF d1] by simp
  have d3: "drop (off + 32 + 4 + length ?s) d = append_u32_le (sequence x) @ rest"
    using drop_append_drop[OF d2] .
  have s: "script_ok (script_sig x)" using a(2) by (simp add: txin_ok_def)
  have ne: "rev disp \<noteq> []" using disp(1) by auto
  note reads = u32.dec_enc[OF refl TrueI d1] scr.dec_enc[OF refl s d2] u32.dec_enc[OF refl TrueI d3]
  have "take 32 (drop off d) = rev disp" using d0 disp(1) by simp
  moreover have "off + 32 \<le> length d" using drop_append_length[OF d0 ne] disp(1) by simp
  ultimately show "read_txin d off = Inr (x, off + length bs)"
    using a(2) disp reads by (auto simp: read_txin_alt txin_ok_def add.assoc)
next
  fix d off x off'
  assume "read_txin d off = Inr (x, off')"
  then obtain vo o1 ss o2 sq where r: "off + 32 \<le> length d" "dec_u32 d (off + 32) = Inr (vo, o1)"
      "read_script d o1 = Inr (ss, o2)" "dec_u32 d o2 = Inr (sq, off')"
      "x = \<lparr>prev_txid_display = hex_encode_loop (rev (take 32 (drop off d))), vout = vo,
              script_sig = ss, sequence = sq\<rparr>"
    by (auto simp: read_txin_alt res_bind_Inr_iff not_less split: if_splits)
  let ?w = "take 32 (drop off d)"
  have w: "length ?w = 32" using r(1) by simp
  have e0: "drop off d = ?w @ drop (off + 32) d" by (metis append_take_drop_id drop_drop add.commute)
  from u32.dec_sound[OF r(2)] scr.dec_sound[OF r(3)] u32.dec_sound[OF r(4)]
  have e: "drop (off + 32) d = append_u32_le vo @ drop o1 d" "o1 = off + 32 + 4"
    "drop o1 d = write_script ss @ drop o2 d" "o2 = o1 + length (write_script ss)" "script_ok ss"
    "drop o2 d = append_u32_le sq @ drop off' d" "off' = o2 + 4" by auto
  have h: "hex_decode_fixed (prev_txid_display x) 32 = Inr (rev ?w)"
    using w r(5) by (simp add: hex_decode_fixed_encode)
  have "is_hex_len (prev_txid_display x) 32" "hex_to_lower (prev_txid_display x) = prev_txid_display x"
    using hex_decode_InrD[OF hex_decode_encode, of "rev ?w"] w r(5)
    by (simp_all add: is_hex_len_iff del: length_take length_drop)
  then have "txin_ok x" using e(5) r(5) by (simp add: txin_ok_def)
  moreover have "write_txin x = Inr (?w @ append_u32_le vo @ write_script ss @ append_u32_le sq)"
    using h map_rev_nth[of "rev ?w" 32] w r(5) by (simp add: write_txin_def del: length_take length_drop)
  ultimately show "\<exists>bs. write_txin x = Inr bs \<and> txin_ok x \<and> off' = off + length bs \<and>
      drop off d = bs @ drop off' d"
    using e w e0 by (intro exI) (auto simp del: length_take length_drop)
next
  fix x bs assume "write_txin x = Inr bs"
  then show "41 \<le> length bs"
    using scr.min_size[OF refl, of "script_sig x"] by (auto elim!: write_txin_InrD)
qed simp

lemma read_txout_alt:
  "read_txout d off = res_bind (dec_u64 d off) (\<lambda>(sats, off1).
     res_bind (read_script d off1) (\<lambda>(sc, off2). Inr (\<lparr>satoshis = sats, script = sc\<rparr>, off2)))"
  by (simp add: read_txout_def dec_u64_def Let_def res_bind_assoc)

interpretation txout: prefix_codec "\<lambda>o'. Inr (write_txout o')" read_txout txout_ok 9
proof
  fix x bs off d rest
  assume a: "Inr (write_txout x) = (Inr bs :: bytes res)" "txout_ok x" "drop off d = bs @ rest"
  have d0: "drop off d = append_u64_le (satoshis x) @ write_script (script x) @ rest"
    using a by (auto simp: write_txout_def)
  have d1: "drop (off + 8) d = write_script (script x) @ rest" using drop_append_drop[OF d0] by simp
  have s: "script_ok (script x)" using a(2) by (simp add: txout_ok_def)
  show "read_txout d off = Inr (x, off + length bs)"
    using a(1) u64.dec_enc[OF refl TrueI d0] scr.dec_enc[OF refl s d1]
    by (auto simp: read_txout_alt write_txout_def)
next
  fix d off x off'
  assume "read_txout d off = Inr (x, off')"
  then obtain v o1 s where r: "dec_u64 d off = Inr (v, o1)" "read_script d o1 = Inr (s, off')"
      "x = \<lparr>satoshis = v, script = s\<rparr>"
    by (auto simp: read_txout_alt res_bind_Inr_iff)
  from u64.dec_sound[OF r(1)] scr.dec_sound[OF r(2)] r(3)
  show "\<exists>bs. Inr (write_txout x) = Inr bs \<and> txout_ok x \<and> off' = off + length bs \<and>
      drop off d = bs @ drop off' d"
    by (auto simp: write_txout_def txout_ok_def)
next
  fix x bs assume "Inr (write_txout x) = (Inr bs :: bytes res)"
  then show "9 \<le> length bs"
    using scr.min_size[OF refl, of "script x"] by (auto simp: write_txout_def)
qed simp

section \<open>Whole transactions\<close>

definition tx_ok :: "bsv_tx_t \<Rightarrow> bool" where
  "tx_ok tx \<longleftrightarrow> list_all txin_ok (inputs tx) \<and> list_all txout_ok (outputs tx) \<and>
     length (inputs tx) < 2 ^ 64 \<and> length (outputs tx) < 2 ^ 64"

lemma tx_deserialize_raw_alt:
  "tx_deserialize_raw d =
     res_bind (dec_u32 d 0) (\<lambda>(ver, off).
     res_bind (dec_varint d off) (\<lambda>(n, off).
     if unat n > (length d - off) div 41 then Inl BNS_EPARSE
     else res_bind (dec_n read_txin (unat n) d off) (\<lambda>(ins, off).
     res_bind (dec_varint d off) (\<lambda>(n, off).
     if unat n > (length d - off) div 9 then Inl BNS_EPARSE
     else res_bind (dec_n read_txout (unat n) d off) (\<lambda>(outs, off).
     res_bind (dec_u32 d off) (\<lambda>(lt, off).
     if off \<noteq> length d then Inl BNS_EPARSE
     else Inr \<lparr>version = ver, inputs = ins, outputs = outs, locktime = lt\<rparr>))))))"
  unfolding tx_deserialize_raw_def dec_u32_def dec_varint_def Let_def
  by (simp add: res_bind_assoc cong: if_cong)

lemma txin_ok_write: "txin_ok i \<Longrightarrow> \<exists>bs. write_txin i = Inr bs"
proof -
  assume "txin_ok i"
  then have h: "length (prev_txid_display i) = 2 * 32" "list_all is_hex_char (prev_txid_display i)"
    by (auto simp: txin_ok_def is_hex_len_iff)
  then obtain bs where "hex_decode_fixed (prev_txid_display i) 32 = Inr bs"
    using hex_decode_loop_ok[OF h(2)] by (auto simp: hex_decode_fixed_def)
  then show ?thesis by (simp add: write_txin_def Let_def)
qed

lemma tx_serialize_ok: "tx_ok tx \<Longrightarrow> \<exists>bs. tx_serialize tx = Inr bs"
proof -
  assume "tx_ok tx"
  then have "list_all txin_ok (inputs tx)" by (simp add: tx_ok_def)
  then have "enc_n write_txin (inputs tx) =
      Inr (concat (map (\<lambda>i. projr (write_txin i)) (inputs tx)))"
    using txin_ok_write by (intro enc_n_total) (force simp: list_all_iff)
  then show ?thesis
    by (simp add: tx_serialize_def enc_n_total[where f = write_txout])
qed

lemma tx_deserialize_serialize:
  assumes "tx_ok tx" "tx_serialize tx = Inr d"
  shows "tx_deserialize_raw d = Inr tx"
proof -
  let ?n = "of_nat (length (inputs tx)) :: u64" and ?k = "of_nat (length (outputs tx)) :: u64"
  obtain ins outs where io: "enc_n write_txin (inputs tx) = Inr ins"
      "enc_n (\<lambda>o'. Inr (write_txout o')) (outputs tx) = Inr outs"
    and d: "d = append_u32_le (version tx) @ write_varint ?n @ ins @ write_varint ?k @ outs
        @ append_u32_le (locktime tx)"
    using assms(2) by (auto simp: tx_serialize_def res_bind_Inr_iff)
  define o1 where "o1 = 4 + length (write_varint ?n)"
  define o2 where "o2 = o1 + length ins"
  define o3 where "o3 = o2 + length (write_varint ?k)"
  have d0: "drop 0 d = append_u32_le (version tx) @ write_varint ?n @ ins @ write_varint ?k @ outs
        @ append_u32_le (locktime tx)" using d by simp
  have d1: "drop 4 d = write_varint ?n @ ins @ write_varint ?k @ outs @ append_u32_le (locktime tx)"
    using drop_append_drop[OF d0] by simp
  have d2: "drop o1 d = ins @ write_varint ?k @ outs @ append_u32_le (locktime tx)"
    using drop_append_drop[OF d1] by (simp add: o1_def)
  have d3: "drop o2 d = write_varint ?k @ outs @ append_u32_le (locktime tx)"
    using drop_append_drop[OF d2] by (simp add: o2_def)
  have d4: "drop o3 d = outs @ append_u32_le (locktime tx)"
    using drop_append_drop[OF d3] by (simp add: o3_def)
  have d5: "drop (o3 + length outs) d = append_u32_le (locktime tx) @ []"
    using drop_append_drop[OF d4] by simp
  have len: "length d = o3 + length outs + 4"
    by (simp add: d o1_def o2_def o3_def)
  have u: "unat ?n = length (inputs tx)" "unat ?k = length (outputs tx)"
    and oks: "list_all txin_ok (inputs tx)" "list_all txout_ok (outputs tx)"
    using assms(1) by (simp_all add: tx_ok_def)
  have g1: "\<not> length (inputs tx) > (length d - o1) div 41"
    using txin.enc_n_guard[OF io(1) d2] len by (simp add: o2_def o3_def)
  have g2: "\<not> length (outputs tx) > (length d - o3) div 9"
    using txout.enc_n_guard[OF io(2) d4] len by simp
  note reads = u32.dec_enc[OF refl TrueI d0] varint.dec_enc[OF refl TrueI d1]
    txin.dec_n_enc_n[OF io(1) oks(1) d2] varint.dec_enc[OF refl TrueI d3]
    txout.dec_n_enc_n[OF io(2) oks(2) d4] u32.dec_enc[OF refl TrueI d5]
  show ?thesis using reads g1 g2 u len
    by (simp add: tx_deserialize_raw_alt flip: o1_def o2_def o3_def)
qed

lemma tx_serialize_deserialize:
  assumes "tx_deserialize_raw d = Inr tx"
  shows "tx_serialize tx = Inr d \<and> tx_ok tx"
proof -
  obtain ver o1 n o2 ins o3 k o4 outs o5 lt where
    r: "dec_u32 d 0 = Inr (ver, o1)" "dec_varint d o1 = Inr (n, o2)"
      "dec_n read_txin (unat n) d o2 = Inr (ins, o3)" "dec_varint d o3 = Inr (k, o4)"
      "dec_n read_txout (unat k) d o4 = Inr (outs, o5)" "dec_u32 d o5 = Inr (lt, length d)"
    and tx: "tx = \<lparr>version = ver, inputs = ins, outputs = outs, locktime = lt\<rparr>"
    using assms by (auto simp: tx_deserialize_raw_alt res_bind_Inr_iff split: if_splits)
  obtain bi where bi: "enc_n write_txin ins = Inr bi" "list_all txin_ok ins" "drop o2 d = bi @ drop o3 d"
    using txin.dec_n_sound[OF r(3)] by blast
  obtain bo where bo: "enc_n (\<lambda>o'. Inr (write_txout o')) outs = Inr bo" "list_all txout_ok outs"
      "drop o4 d = bo @ drop o5 d"
    using txout.dec_n_sound[OF r(5)] by blast
  have l: "length ins = unat n" "length outs = unat k"
    using dec_n_length[OF r(3)] dec_n_length[OF r(5)] by auto
  have b: "unat n < 2 ^ 64" "unat k < 2 ^ 64"
    using unsigned_less[of n, where 'a = nat] unsigned_less[of k, where 'a = nat] by auto
  have "d = append_u32_le ver @ write_varint n @ bi @ write_varint k @ bo @ append_u32_le lt"
    using u32.dec_sound[OF r(1)] varint.dec_sound[OF r(2)] bi(3) varint.dec_sound[OF r(4)] bo(3)
      u32.dec_sound[OF r(6)] by auto
  then show ?thesis using bi bo l b tx
    by (simp add: tx_serialize_def tx_ok_def)
qed

text \<open>
  C22. A hex string deserializes to a transaction exactly when it is, up to letter case, the hex
  form of that transaction's serialization and the transaction is well formed (lower-case
  display ids of 64 hex digits, scripts and counts that fit the length fields). Hence parsing
  inverts serialization, trailing or overlong bytes are rejected, and no two byte strings parse
  to the same transaction.
\<close>

theorem tx_roundtrip:
  "tx_deserialize h = Inr tx \<longleftrightarrow>
     tx_ok tx \<and> (\<exists>bs. tx_serialize tx = Inr bs \<and> hex_to_lower h = hex_encode_loop bs)"
proof
  assume "tx_deserialize h = Inr tx"
  then obtain d where "hex_decode h = Inr d" "tx_deserialize_raw d = Inr tx"
    by (auto simp: tx_deserialize_def split: sum.splits)
  then show "tx_ok tx \<and> (\<exists>bs. tx_serialize tx = Inr bs \<and> hex_to_lower h = hex_encode_loop bs)"
    using tx_serialize_deserialize hex_decode_Inr_iff by blast
next
  assume "tx_ok tx \<and> (\<exists>bs. tx_serialize tx = Inr bs \<and> hex_to_lower h = hex_encode_loop bs)"
  then obtain bs where "tx_ok tx" "tx_serialize tx = Inr bs" "hex_decode h = Inr bs"
    by (auto simp: hex_decode_Inr_iff)
  then show "tx_deserialize h = Inr tx"
    by (simp add: tx_deserialize_def tx_deserialize_serialize)
qed

text \<open>Every rejection of the parser carries the code \<^verbatim>\<open>BNS_EPARSE\<close>.\<close>

lemma read_varint_err: "read_varint d off = Inl e \<Longrightarrow> e = BNS_EPARSE"
  by (auto simp: read_varint_def Let_def split: if_splits)

lemma read_txin_err: "read_txin d off = Inl e \<Longrightarrow> e = BNS_EPARSE"
  by (auto simp: read_txin_alt dec_u32_def read_script_def read_u32_le_def Let_def res_bind_Inl_iff
      res_bind_Inr_iff split: if_splits dest: read_varint_err)

lemma read_txout_err: "read_txout d off = Inl e \<Longrightarrow> e = BNS_EPARSE"
  by (auto simp: read_txout_alt dec_u64_def read_script_def read_u64_le_def Let_def res_bind_Inl_iff
      split: if_splits dest: read_varint_err)

lemma dec_n_err:
  "(\<And>off e. dec d off = Inl e \<Longrightarrow> e = E) \<Longrightarrow> dec_n dec n d off = Inl e \<Longrightarrow> e = E"
  by (induction n arbitrary: off) (auto simp: res_bind_Inl_iff)

lemma tx_deserialize_err: "tx_deserialize h = Inl e \<Longrightarrow> e = BNS_EPARSE"
proof -
  assume "tx_deserialize h = Inl e"
  then have "e = BNS_EPARSE \<or> (\<exists>d. tx_deserialize_raw d = Inl e)"
    by (auto simp: tx_deserialize_def split: sum.splits)
  moreover have "tx_deserialize_raw d = Inl e \<Longrightarrow> e = BNS_EPARSE" for d
    using dec_n_err[of read_txin d BNS_EPARSE] dec_n_err[of read_txout d BNS_EPARSE]
      read_txin_err read_txout_err
    by (auto simp: tx_deserialize_raw_alt dec_u32_def dec_varint_def read_u32_le_def res_bind_Inl_iff
        split: if_splits dest: read_varint_err)
  ultimately show ?thesis by blast
qed

end
