(* ===== verification/TxBuild.thy ===== *)
theory TxBuild
  imports Tx Script
begin

text \<open>
  The incremental transaction builder (\<^verbatim>\<open>src/bsv/tx_builder.c\<close>) as a state machine
  over the transaction under construction, and the transaction-shape readers
  (\<^verbatim>\<open>src/chain/tx_parse.c\<close>) that the indexer, the oracle and the identity view use.
\<close>

section \<open>The builder\<close>

text \<open>\<^verbatim>\<open>tx_builder_t\<close> has the transaction as its only field.\<close>

type_synonym tx_builder_t = bsv_tx_t

definition tx_builder_init :: tx_builder_t where
  "tx_builder_init = tx_init\<lparr>version := 1, locktime := 0\<rparr>"

definition tx_builder_add_input ::
  "tx_builder_t \<Rightarrow> string \<Rightarrow> u32 \<Rightarrow> bytes \<Rightarrow> u32 \<Rightarrow> tx_builder_t res" where
  "tx_builder_add_input b txid vo ss sq =
     (if \<not> is_hex_len txid 32 then Inl BNS_EINVAL
      else Inr (b\<lparr>inputs := inputs b @
        [\<lparr>prev_txid_display = map lower_char txid, vout = vo, script_sig = ss, sequence = sq\<rparr>]\<rparr>))"

definition tx_builder_add_output :: "tx_builder_t \<Rightarrow> bytes \<Rightarrow> u64 \<Rightarrow> tx_builder_t res" where
  "tx_builder_add_output b scr sats =
     Inr (b\<lparr>outputs := outputs b @ [\<lparr>satoshis = sats, script = scr\<rparr>]\<rparr>)"

definition tx_builder_set_locktime :: "tx_builder_t \<Rightarrow> u32 \<Rightarrow> tx_builder_t" where
  "tx_builder_set_locktime b lt = b\<lparr>locktime := lt\<rparr>"

definition tx_builder_set_sequence :: "tx_builder_t \<Rightarrow> nat \<Rightarrow> u32 \<Rightarrow> tx_builder_t res" where
  "tx_builder_set_sequence b index sq =
     (if index \<ge> length (inputs b) then Inl BNS_EINVAL
      else Inr (b\<lparr>inputs := (inputs b)[index := (inputs b ! index)\<lparr>sequence := sq\<rparr>]\<rparr>))"

definition tx_builder_build_hex :: "tx_builder_t \<Rightarrow> string res" where
  "tx_builder_build_hex b =
     res_bind (tx_serialize b) (\<lambda>raw.
     case hex_encode raw of None \<Rightarrow> Inl BNS_ENOMEM | Some h \<Rightarrow> Inr h)"

text \<open>
  The transactions a caller can reach: any sequence of the builder's operations, with scripts
  and counts that fit in memory (\<^verbatim>\<open>size_t\<close>).
\<close>

inductive builder_step :: "tx_builder_t \<Rightarrow> tx_builder_t \<Rightarrow> bool" where
  add_input: "tx_builder_add_input b txid vo ss sq = Inr b' \<Longrightarrow> length ss < 2 ^ 64 \<Longrightarrow>
     length (inputs b') < 2 ^ 64 \<Longrightarrow> builder_step b b'"
| add_output: "tx_builder_add_output b scr sats = Inr b' \<Longrightarrow> length scr < 2 ^ 64 \<Longrightarrow>
     length (outputs b') < 2 ^ 64 \<Longrightarrow> builder_step b b'"
| set_locktime: "builder_step b (tx_builder_set_locktime b lt)"
| set_sequence: "tx_builder_set_sequence b i sq = Inr b' \<Longrightarrow> builder_step b b'"

inductive_simps builder_step_simps: "builder_step b b'"

lemma builder_step_ok: "builder_step b b' \<Longrightarrow> tx_ok b \<Longrightarrow> tx_ok b'"
proof (induction rule: builder_step.induct)
  case (add_input b txid vo ss sq b')
  then have t: "is_hex_len txid 32" "b' = b\<lparr>inputs := inputs b @
        [\<lparr>prev_txid_display = map lower_char txid, vout = vo, script_sig = ss, sequence = sq\<rparr>]\<rparr>"
    by (auto simp: tx_builder_add_input_def split: if_splits)
  have lower: "hex_to_lower (hex_to_lower txid) = hex_to_lower txid"
  proof -
    have "lower_char (lower_char c) = lower_char c" for c
      by (auto simp: lower_char_def Let_def)
    then show ?thesis by (simp add: hex_to_lower_def)
  qed
  have "txin_ok \<lparr>prev_txid_display = hex_to_lower txid, vout = vo, script_sig = ss, sequence = sq\<rparr>"
    using t(1) add_input.hyps(2) lower
    by (simp add: txin_ok_def is_hex_len_iff list_all_hex_lower script_ok_def)
  then show ?case using add_input t(2) by (simp add: tx_ok_def hex_to_lower_def)
next
  case (add_output b scr sats b')
  then show ?case by (auto simp: tx_builder_add_output_def tx_ok_def txout_ok_def script_ok_def)
next
  case (set_locktime b lt)
  then show ?case by (simp add: tx_builder_set_locktime_def tx_ok_def)
next
  case (set_sequence b i sq b')
  then have i: "i < length (inputs b)"
      "b' = b\<lparr>inputs := (inputs b)[i := (inputs b ! i)\<lparr>sequence := sq\<rparr>]\<rparr>"
    by (auto simp: tx_builder_set_sequence_def split: if_splits)
  have "txin_ok (inputs b ! i)" using set_sequence i(1) by (simp add: tx_ok_def list_all_length)
  then have "txin_ok ((inputs b ! i)\<lparr>sequence := sq\<rparr>)" by (simp add: txin_ok_def)
  then show ?case using set_sequence i
    by (auto simp: tx_ok_def list_all_iff dest!: set_update_subset_insert[THEN subsetD])
qed

text \<open>
  C37. Whatever sequence of operations a caller applies to a fresh builder, the transaction
  under construction serializes, and the raw hex the builder returns (whenever it fits in
  memory) parses back to exactly that transaction.
\<close>

theorem builder_build_parses:
  assumes "builder_step\<^sup>*\<^sup>* tx_builder_init b"
  shows "\<exists>raw. tx_serialize b = Inr raw \<and>
    (if length raw \<le> (SIZE_MAX - 1) div 2
     then \<exists>h. tx_builder_build_hex b = Inr h \<and> tx_deserialize h = Inr b
     else tx_builder_build_hex b = Inl BNS_ENOMEM)"
proof -
  have init: "tx_ok tx_builder_init" by (simp add: tx_builder_init_def tx_init_def tx_ok_def)
  from assms have ok: "tx_ok b"
    by (induction rule: rtranclp_induct) (use init builder_step_ok in auto)
  then obtain raw where raw: "tx_serialize b = Inr raw" using tx_serialize_ok by blast
  have "tx_deserialize (hex_encode_loop raw) = Inr b"
    using ok raw by (simp add: tx_deserialize_def hex_decode_encode tx_deserialize_serialize)
  then show ?thesis using raw
    by (auto simp: tx_builder_build_hex_def hex_encode_def hex_encode_to_def)
qed

theorem builder_build_parses_witness:
  "\<exists>h. tx_builder_build_hex (tx_builder_init\<lparr>outputs := [\<lparr>satoshis = 7, script = [0x6a]\<rparr>]\<rparr>) = Inr h \<and>
     tx_deserialize h = Inr (tx_builder_init\<lparr>outputs := [\<lparr>satoshis = 7, script = [0x6a]\<rparr>]\<rparr>)"
proof -
  let ?b = "tx_builder_init\<lparr>outputs := [\<lparr>satoshis = 7, script = [0x6a]\<rparr>]\<rparr>"
  have "builder_step tx_builder_init ?b"
    by (rule builder_step.add_output[of _ "[0x6a]" 7])
      (auto simp: tx_builder_add_output_def tx_builder_init_def tx_init_def)
  then have r: "builder_step\<^sup>*\<^sup>* tx_builder_init ?b" by (rule r_into_rtranclp)
  obtain raw where raw: "tx_serialize ?b = Inr raw" "if length raw \<le> (SIZE_MAX - 1) div 2
     then \<exists>h. tx_builder_build_hex ?b = Inr h \<and> tx_deserialize h = Inr ?b
     else tx_builder_build_hex ?b = Inl BNS_ENOMEM"
    using builder_build_parses[OF r] by blast
  have "length raw = 20"
    using raw(1) by (auto simp: tx_serialize_def tx_builder_init_def tx_init_def write_txout_def
        write_script_def length_write_varint)
  then show ?thesis using raw(2) by (simp add: SIZE_MAX_def)
qed

section \<open>Transaction shape\<close>

record tx_prevout_t =
  prevout_txid :: string
  prevout_vout :: u32

definition parse_prevout :: "string \<Rightarrow> nat \<Rightarrow> tx_prevout_t res" where
  "parse_prevout raw_tx_hex input_index =
     (case tx_deserialize raw_tx_hex of
        Inl _ \<Rightarrow> Inl BNS_EPARSE
      | Inr tx \<Rightarrow>
          if input_index \<ge> length (inputs tx) then Inl BNS_EPARSE
          else let inp = inputs tx ! input_index in
            Inr \<lparr>prevout_txid = prev_txid_display inp, prevout_vout = vout inp\<rparr>)"

definition is_terminal_spend :: "string \<Rightarrow> bool" where
  "is_terminal_spend raw_tx_hex =
     (case tx_deserialize raw_tx_hex of
        Inl _ \<Rightarrow> False
      | Inr tx \<Rightarrow> (case outputs tx of [] \<Rightarrow> True | out0 # _ \<Rightarrow> is_p2pkh_out (script out0) \<noteq> None))"

text \<open>
  A raw transaction is a terminal identity spend exactly when it parses and its first
  output, if there is one, is a P2PKH script; malformed input is never terminal.
\<close>

theorem is_terminal_spend_iff:
  "is_terminal_spend raw \<longleftrightarrow>
     (\<exists>tx. tx_deserialize raw = Inr tx \<and>
       (outputs tx = [] \<or> (\<exists>h outs sats. length h = 20 \<and>
          outputs tx = \<lparr>satoshis = sats, script = build_p2pkh_script h\<rparr> # outs)))"
proof -
  have "is_p2pkh_out (script o') \<noteq> None \<longleftrightarrow>
      (\<exists>h sats. length h = 20 \<and> o' = \<lparr>satoshis = sats, script = build_p2pkh_script h\<rparr>)" for o'
  proof -
    have "is_p2pkh_out (script o') \<noteq> None \<longleftrightarrow> (\<exists>h. length h = 20 \<and> script o' = build_p2pkh_script h)"
      using is_p2pkh_out_iff by (metis not_None_eq)
    then show ?thesis by (cases o') auto
  qed
  then show ?thesis
    by (auto simp: is_terminal_spend_def split: sum.splits list.splits)
qed

section \<open>The two output serializers agree\<close>

lemma sats_le_eq [codec]: "sats_le v = le_bytes 8 v"
proof -
  have "(ucast (w AND 0xff) :: byte) = ucast w" for w :: u64
  proof -
    have m: "(0xff :: u64) = mask 8" by (simp add: mask_eq_exp_minus_1)
    show ?thesis unfolding m
      by (rule bit_word_eqI) (auto simp: bit_ucast_iff bit_and_iff bit_mask_iff)
  qed
  then show ?thesis by (simp add: sats_le_def le_bytes_def)
qed

text \<open>
  The output builder of \<^verbatim>\<open>script_utils.c\<close> and the output serializer of
  \<^verbatim>\<open>tx.c\<close> write the same bytes, so an output built by the former is read back by the
  transaction parser at any offset.
\<close>

theorem build_output_parses:
  assumes "length scr < 2 ^ 64" and "drop off d = build_output scr sats @ rest"
  shows "build_output scr sats = write_txout \<lparr>satoshis = sats, script = scr\<rparr> \<and>
    read_txout d off = Inr (\<lparr>satoshis = sats, script = scr\<rparr>, off + length (build_output scr sats))"
proof -
  have e: "build_output scr sats = write_txout \<lparr>satoshis = sats, script = scr\<rparr>"
    by (simp add: build_output_def write_txout_def write_script_def codec)
  have "txout_ok \<lparr>satoshis = sats, script = scr\<rparr>" using assms(1) by (simp add: txout_ok_def script_ok_def)
  from txout.dec_enc[OF refl this] assms(2) e show ?thesis by simp
qed

theorem build_output_parses_witness:
  "read_txout ([0xaa] @ build_output [0x6a] 5 @ [0xbb]) 1 =
     Inr (\<lparr>satoshis = 5, script = [0x6a]\<rparr>, 1 + length (build_output [0x6a] 5))"
  by (rule build_output_parses[where rest = "[0xbb]", THEN conjunct2]) simp_all

end
