(* ===== verification/Sighash.thy ===== *)
theory Sighash
  imports Tx
begin

text \<open>
  The BIP143/FORKID signature hash of \<^verbatim>\<open>src/bsv/sighash.c\<close>. Its static
  \<^verbatim>\<open>append_u32_le\<close> and \<^verbatim>\<open>append_u64_le\<close> are, line for line, those of
  \<^verbatim>\<open>tx.c\<close>, so the definitions of theory \<open>Tx\<close> serve both files. SHA-256 is the
  parameter \<open>sha\<close>.
\<close>

section \<open>Model\<close>

definition append_outpoint :: "bsv_txin_t \<Rightarrow> bytes res" where
  "append_outpoint i =
     res_bind (hex_decode_fixed (prev_txid_display i) 32) (\<lambda>be.
     let le = map (\<lambda>k. be ! (32 - 1 - k)) [0..<32] in
     Inr (le @ append_u32_le (vout i)))"

definition hash_prevouts :: "(bytes \<Rightarrow> bytes) \<Rightarrow> bsv_tx_t \<Rightarrow> bytes res" where
  "hash_prevouts sha tx =
     res_bind (enc_n append_outpoint (inputs tx)) (\<lambda>acc. Inr (sha256d sha acc))"

definition hash_sequence :: "(bytes \<Rightarrow> bytes) \<Rightarrow> bsv_tx_t \<Rightarrow> bytes res" where
  "hash_sequence sha tx =
     res_bind (enc_n (\<lambda>i. Inr (append_u32_le (sequence i))) (inputs tx)) (\<lambda>acc. Inr (sha256d sha acc))"

definition hash_outputs :: "(bytes \<Rightarrow> bytes) \<Rightarrow> bsv_tx_t \<Rightarrow> bytes res" where
  "hash_outputs sha tx =
     res_bind (enc_n (\<lambda>o'. Inr (append_u64_le (satoshis o')
        @ write_varint (of_nat (length (script o'))) @ script o')) (outputs tx)) (\<lambda>acc.
     Inr (sha256d sha acc))"

definition bip143_preimage ::
  "(bytes \<Rightarrow> bytes) \<Rightarrow> bsv_tx_t \<Rightarrow> nat \<Rightarrow> bytes \<Rightarrow> u64 \<Rightarrow> byte \<Rightarrow> bytes res" where
  "bip143_preimage sha tx input_index script_code input_satoshis sighash_type =
     (if input_index \<ge> length (inputs tx) then Inl BNS_EINVAL
      else
        res_bind (hash_prevouts sha tx) (\<lambda>hp.
        res_bind (hash_sequence sha tx) (\<lambda>hs.
        res_bind (hash_outputs sha tx) (\<lambda>ho.
        let i = inputs tx ! input_index in
        res_bind (append_outpoint i) (\<lambda>op.
        Inr (append_u32_le (version tx) @ hp @ hs @ op
             @ write_varint (of_nat (length script_code)) @ script_code
             @ append_u64_le input_satoshis @ append_u32_le (sequence i) @ ho
             @ append_u32_le (locktime tx) @ append_u32_le (ucast sighash_type)))))))"

definition bip143_sighash ::
  "(bytes \<Rightarrow> bytes) \<Rightarrow> bsv_tx_t \<Rightarrow> nat \<Rightarrow> bytes \<Rightarrow> u64 \<Rightarrow> byte \<Rightarrow> bytes res" where
  "bip143_sighash sha tx input_index script_code input_satoshis sighash_type =
     res_bind (bip143_preimage sha tx input_index script_code input_satoshis sighash_type)
       (\<lambda>pre. Inr (sha256d sha pre))"

section \<open>Outpoints\<close>

definition txid_ok :: "bsv_txin_t \<Rightarrow> bool" where
  "txid_ok i \<longleftrightarrow> is_hex_len (prev_txid_display i) 32"

lemma hex_decode_fixed_cases:
  "case hex_decode_fixed s n of Inl e \<Rightarrow> e = BNS_EPARSE \<and> \<not> is_hex_len s n | Inr b \<Rightarrow> is_hex_len s n"
proof (cases "hex_decode_fixed s n")
  case (Inl e)
  then show ?thesis using hex_decode_loop_ok[of s] hex_decode_loop_err[of s]
    by (auto simp: hex_decode_fixed_def is_hex_len_iff split: if_splits)
next
  case (Inr b)
  then show ?thesis using hex_decode_loop_InrD[of s b]
    by (auto simp: hex_decode_fixed_def is_hex_len_iff split: if_splits)
qed

lemma append_outpoint_cases:
  obtains (err) "append_outpoint i = Inl BNS_EPARSE" "\<not> txid_ok i"
  | (ok) be where "append_outpoint i = Inr (rev be @ append_u32_le (vout i))" "length be = 32"
      "hex_encode_loop be = hex_to_lower (prev_txid_display i)" "txid_ok i"
proof (cases "hex_decode_fixed (prev_txid_display i) 32")
  case (Inl e)
  then show thesis using hex_decode_fixed_cases[of "prev_txid_display i" 32]
    by (intro err) (auto simp: append_outpoint_def txid_ok_def)
next
  case (Inr be)
  note b = hex_decode_fixed_InrD[OF Inr]
  have "append_outpoint i = Inr (rev be @ append_u32_le (vout i))"
    using Inr b map_rev_nth[of be 32] by (simp add: append_outpoint_def Let_def)
  moreover have "txid_ok i"
    using Inr hex_decode_fixed_cases[of "prev_txid_display i" 32] by (simp add: txid_ok_def)
  ultimately show thesis using b by (intro ok) auto
qed

definition same_outpoint :: "bsv_txin_t \<Rightarrow> bsv_txin_t \<Rightarrow> bool" where
  "same_outpoint i j \<longleftrightarrow>
     hex_to_lower (prev_txid_display i) = hex_to_lower (prev_txid_display j) \<and> vout i = vout j"

lemma append_outpoint_length: "append_outpoint i = Inr b \<Longrightarrow> length b = 36"
  by (cases rule: append_outpoint_cases[of i]) auto

lemma append_u32_le_inj [simp]: "append_u32_le v = append_u32_le w \<longleftrightarrow> v = w"
  by (simp add: codec le_bytes_inj)

lemma append_outpoint_determined:
  assumes "append_outpoint i = Inr b" "append_outpoint j = Inr c" "b @ r = c @ r'"
  shows "same_outpoint i j \<and> r = r'"
proof -
  obtain x where x: "b = rev x @ append_u32_le (vout i)" "length x = 32"
      "hex_encode_loop x = hex_to_lower (prev_txid_display i)"
    using assms(1) by (cases rule: append_outpoint_cases[of i]) auto
  obtain y where y: "c = rev y @ append_u32_le (vout j)" "length y = 32"
      "hex_encode_loop y = hex_to_lower (prev_txid_display j)"
    using assms(2) by (cases rule: append_outpoint_cases[of j]) auto
  from assms(3) x y have "rev x = rev y" "append_u32_le (vout i) = append_u32_le (vout j)" "r = r'"
    by auto
  then show ?thesis using x y by (simp add: same_outpoint_def)
qed

lemma enc_outpoints_err:
  "enc_n append_outpoint is = Inl e \<Longrightarrow> e = BNS_EPARSE \<and> \<not> list_all txid_ok is"
proof (induction "is")
  case (Cons i "is")
  then show ?case by (cases rule: append_outpoint_cases[of i]) (auto simp: res_bind_Inl_iff)
qed simp

lemma enc_outpoints_ok: "list_all txid_ok is \<longleftrightarrow> (\<exists>b. enc_n append_outpoint is = Inr b)"
proof (induction "is")
  case (Cons i "is")
  then show ?case by (cases rule: append_outpoint_cases[of i]) (auto simp: res_bind_Inr_iff)
qed simp

section \<open>What the preimage commits to\<close>

text \<open>The three hashed strings.\<close>

definition prevouts_bytes :: "bsv_tx_t \<Rightarrow> bytes" where
  "prevouts_bytes tx = projr (enc_n append_outpoint (inputs tx))"

definition sequence_bytes :: "bsv_tx_t \<Rightarrow> bytes" where
  "sequence_bytes tx = concat (map (append_u32_le \<circ> sequence) (inputs tx))"

definition outputs_bytes :: "bsv_tx_t \<Rightarrow> bytes" where
  "outputs_bytes tx = concat (map write_txout (outputs tx))"

lemma write_txout_eq:
  "append_u64_le (satoshis o') @ write_varint (of_nat (length (script o'))) @ script o' = write_txout o'"
  by (simp add: write_txout_def write_script_def)

lemma hash_outputs_eq: "hash_outputs sha tx = Inr (sha256d sha (outputs_bytes tx))"
  unfolding hash_outputs_def write_txout_eq outputs_bytes_def
  by (subst enc_n_total[where f = write_txout]) simp_all

lemma hash_sequence_eq: "hash_sequence sha tx = Inr (sha256d sha (sequence_bytes tx))"
  unfolding hash_sequence_def sequence_bytes_def
  by (subst enc_n_total[where f = "append_u32_le \<circ> sequence"]) simp_all

lemma hash_prevouts_eq:
  "hash_prevouts sha tx = (if list_all txid_ok (inputs tx) then Inr (sha256d sha (prevouts_bytes tx))
     else Inl BNS_EPARSE)"
proof (cases "enc_n append_outpoint (inputs tx)")
  case (Inl e)
  then show ?thesis using enc_outpoints_err by (simp add: hash_prevouts_def)
next
  case (Inr b)
  then show ?thesis using enc_outpoints_ok by (auto simp: hash_prevouts_def prevouts_bytes_def)
qed

lemma bip143_preimage_eq:
  assumes "k < length (inputs tx)" "list_all txid_ok (inputs tx)"
  obtains op where "append_outpoint (inputs tx ! k) = Inr op" "length op = 36"
    "bip143_preimage sha tx k sc amt ty =
       Inr (append_u32_le (version tx) @ sha256d sha (prevouts_bytes tx) @ sha256d sha (sequence_bytes tx)
         @ op @ write_script sc @ append_u64_le amt @ append_u32_le (sequence (inputs tx ! k))
         @ sha256d sha (outputs_bytes tx) @ append_u32_le (locktime tx) @ append_u32_le (ucast ty))"
proof -
  have "txid_ok (inputs tx ! k)" using assms by (simp add: list_all_length)
  then obtain op where op: "append_outpoint (inputs tx ! k) = Inr op"
    by (cases rule: append_outpoint_cases[of "inputs tx ! k"]) auto
  with append_outpoint_length[OF op] assms that show thesis
    by (simp add: bip143_preimage_def hash_prevouts_eq hash_sequence_eq hash_outputs_eq write_script_def)
qed

lemma bip143_preimage_Inr_iff:
  "(\<exists>pre. bip143_preimage sha tx k sc amt ty = Inr pre) \<longleftrightarrow>
     k < length (inputs tx) \<and> list_all txid_ok (inputs tx)"
proof (cases "k < length (inputs tx) \<and> list_all txid_ok (inputs tx)")
  case True
  then show ?thesis using bip143_preimage_eq[of k tx sha sc amt ty] by metis
qed (auto simp: bip143_preimage_def hash_prevouts_eq)

definition same_input :: "bsv_txin_t \<Rightarrow> bsv_txin_t \<Rightarrow> bool" where
  "same_input i j \<longleftrightarrow> same_outpoint i j \<and> sequence i = sequence j"

lemma prevouts_bytes_determined:
  assumes "list_all txid_ok (inputs tx)" "list_all txid_ok (inputs tx')"
    "prevouts_bytes tx = prevouts_bytes tx'"
  shows "list_all2 same_outpoint (inputs tx) (inputs tx')"
proof -
  obtain b where b: "enc_n append_outpoint (inputs tx) = Inr b" using assms(1) enc_outpoints_ok by auto
  moreover obtain b' where "enc_n append_outpoint (inputs tx') = Inr b'" using assms(2) enc_outpoints_ok by auto
  ultimately have "enc_n append_outpoint (inputs tx') = Inr b" using assms(3) by (simp add: prevouts_bytes_def)
  with b show ?thesis
  proof (rule enc_n_determined[where P = "\<lambda>_. True", rotated 2])
    show "c \<noteq> []" if "append_outpoint i = Inr c" for i c using append_outpoint_length[OF that] by auto
  qed (auto simp: list_all_iff dest: append_outpoint_determined)
qed

lemma concat_fixed_inj:
  "concat (map f xs) = concat (map f ys) \<Longrightarrow> (\<And>x. length (f x) = Suc k) \<Longrightarrow>
   list_all2 (\<lambda>x y. f x = f y) xs ys"
proof (induction xs arbitrary: ys)
  case Nil
  then show ?case by (cases ys) (auto, metis list.size(3) nat.distinct(1))
next
  case (Cons x xs)
  then obtain y ys' where "ys = y # ys'"
    by (cases ys) (auto, metis list.size(3) nat.distinct(1))
  with Cons show ?case by (auto simp: append_eq_append_conv)
qed

lemma sequence_bytes_determined:
  "sequence_bytes tx = sequence_bytes tx' \<Longrightarrow>
   list_all2 (\<lambda>i j. sequence i = sequence j) (inputs tx) (inputs tx')"
  using concat_fixed_inj[of "append_u32_le \<circ> sequence" "inputs tx" "inputs tx'" 3]
  by (simp add: sequence_bytes_def)

lemma outputs_bytes_determined:
  assumes "list_all txout_ok (outputs tx)" "list_all txout_ok (outputs tx')"
    "outputs_bytes tx = outputs_bytes tx'"
  shows "outputs tx = outputs tx'"
proof -
  have "enc_n (\<lambda>o'. Inr (write_txout o')) os = Inr (concat (map write_txout os))" for os
    by (rule enc_n_total) simp
  then show ?thesis using assms txout.enc_n_inj unfolding outputs_bytes_def by metis
qed

definition no_collision :: "(bytes \<Rightarrow> bytes) \<Rightarrow> bytes \<Rightarrow> bytes \<Rightarrow> bool" where
  "no_collision sha x y \<longleftrightarrow> sha256d sha x \<noteq> sha256d sha y \<or> x = y"

definition sighash_args_ok :: "bsv_tx_t \<Rightarrow> nat \<Rightarrow> bytes \<Rightarrow> bool" where
  "sighash_args_ok tx k sc \<longleftrightarrow> k < length (inputs tx) \<and> list_all txid_ok (inputs tx) \<and>
     list_all txout_ok (outputs tx) \<and> script_ok sc"

lemma ucast_byte_inj: "(ucast (a :: byte) :: u32) = ucast b \<longleftrightarrow> a = b"
proof
  assume "(ucast a :: u32) = ucast b"
  then have e: "bit (ucast a :: u32) k = bit (ucast b :: u32) k" for k by (rule arg_cong)
  show "a = b"
  proof (rule bit_word_eqI)
    fix k assume "k < LENGTH(8)"
    then show "bit a k = bit b k" using e[of k] by (simp add: bit_ucast_iff)
  qed
qed simp

lemma bip143_preimage_inj:
  assumes "\<And>x. length (sha x) = 32"
    and ok: "sighash_args_ok tx k sc" "sighash_args_ok tx' k' sc'"
    and pre: "bip143_preimage sha tx k sc amt ty = Inr p" "bip143_preimage sha tx' k' sc' amt' ty' = Inr p"
  shows "version tx = version tx'" "sc = sc'" "amt = amt'" "locktime tx = locktime tx'" "ty = ty'"
    "same_input (inputs tx ! k) (inputs tx' ! k')"
    "sha256d sha (prevouts_bytes tx) = sha256d sha (prevouts_bytes tx')"
    "sha256d sha (sequence_bytes tx) = sha256d sha (sequence_bytes tx')"
    "sha256d sha (outputs_bytes tx) = sha256d sha (outputs_bytes tx')"
proof -
  have l: "length (sha256d sha x) = 32" for x using assms(1) by (simp add: sha256d_def)
  have a: "k < length (inputs tx)" "list_all txid_ok (inputs tx)" "k' < length (inputs tx')"
    "list_all txid_ok (inputs tx')" "script_ok sc" "script_ok sc'" using ok by (auto simp: sighash_args_ok_def)
  obtain op where op: "append_outpoint (inputs tx ! k) = Inr op" "length op = 36"
    and p: "p = append_u32_le (version tx) @ sha256d sha (prevouts_bytes tx) @ sha256d sha (sequence_bytes tx)
         @ op @ write_script sc @ append_u64_le amt @ append_u32_le (sequence (inputs tx ! k))
         @ sha256d sha (outputs_bytes tx) @ append_u32_le (locktime tx) @ append_u32_le (ucast ty)"
    using bip143_preimage_eq[OF a(1,2), of sha sc amt ty] pre(1) by auto
  obtain op' where op': "append_outpoint (inputs tx' ! k') = Inr op'" "length op' = 36"
    and p': "p = append_u32_le (version tx') @ sha256d sha (prevouts_bytes tx') @ sha256d sha (sequence_bytes tx')
         @ op' @ write_script sc' @ append_u64_le amt' @ append_u32_le (sequence (inputs tx' ! k'))
         @ sha256d sha (outputs_bytes tx') @ append_u32_le (locktime tx') @ append_u32_le (ucast ty')"
    using bip143_preimage_eq[OF a(3,4), of sha sc' amt' ty'] pre(2) by auto
  let ?t = "append_u64_le amt @ append_u32_le (sequence (inputs tx ! k))
      @ sha256d sha (outputs_bytes tx) @ append_u32_le (locktime tx) @ append_u32_le (ucast ty)"
  let ?t' = "append_u64_le amt' @ append_u32_le (sequence (inputs tx' ! k'))
      @ sha256d sha (outputs_bytes tx') @ append_u32_le (locktime tx') @ append_u32_le (ucast ty')"
  have h: "append_u32_le (version tx) = append_u32_le (version tx')"
    "sha256d sha (prevouts_bytes tx) = sha256d sha (prevouts_bytes tx')"
    "sha256d sha (sequence_bytes tx) = sha256d sha (sequence_bytes tx')"
    "op = op'" "write_script sc @ ?t = write_script sc' @ ?t'"
    using p p' op op' l by (auto simp: append_eq_append_conv)
  have "sc = sc' \<and> ?t = ?t'"
    using scr.enc_prefix_free[OF refl refl a(5,6) h(5)] .
  then have "sc = sc'" and t: "append_u64_le amt = append_u64_le amt'"
      "append_u32_le (sequence (inputs tx ! k)) = append_u32_le (sequence (inputs tx' ! k'))"
      "sha256d sha (outputs_bytes tx) = sha256d sha (outputs_bytes tx')"
      "append_u32_le (locktime tx) = append_u32_le (locktime tx')"
      "append_u32_le (ucast ty) = append_u32_le (ucast ty')"
    using l by (auto simp: append_eq_append_conv)
  moreover have "same_outpoint (inputs tx ! k) (inputs tx' ! k')"
    using append_outpoint_determined[OF op(1) op'(1), of "[]" "[]"] h(4) by simp
  ultimately show "version tx = version tx'" "sc = sc'" "amt = amt'" "locktime tx = locktime tx'" "ty = ty'"
    "same_input (inputs tx ! k) (inputs tx' ! k')"
    "sha256d sha (prevouts_bytes tx) = sha256d sha (prevouts_bytes tx')"
    "sha256d sha (sequence_bytes tx) = sha256d sha (sequence_bytes tx')"
    "sha256d sha (outputs_bytes tx) = sha256d sha (outputs_bytes tx')"
    using h by (auto simp: same_input_def ucast_byte_inj append_u64_le_eq le_bytes_inj)
qed

section \<open>Properties\<close>

text \<open>
  C23. The digest binds the signature: if two signing contexts have the same signature hash
  and double SHA-256 does not collide on their preimages nor on the three hashed component
  strings, then they agree on the version, the lock time, every output, every input's previous
  transaction (up to hex case), output index and sequence, the input being signed, its script
  code and amount, and the signature type. Only the unlocking scripts are left free.
\<close>

theorem bip143_sighash_binds:
  assumes "\<forall>x. length (sha x) = 32"
    and "sighash_args_ok tx k sc" "sighash_args_ok tx' k' sc'"
    and "bip143_preimage sha tx k sc amt ty = Inr p" "bip143_preimage sha tx' k' sc' amt' ty' = Inr p'"
    and "bip143_sighash sha tx k sc amt ty = bip143_sighash sha tx' k' sc' amt' ty'"
    and "no_collision sha p p'" "no_collision sha (prevouts_bytes tx) (prevouts_bytes tx')"
    and "no_collision sha (sequence_bytes tx) (sequence_bytes tx')"
    and "no_collision sha (outputs_bytes tx) (outputs_bytes tx')"
  shows "version tx = version tx' \<and> locktime tx = locktime tx' \<and> outputs tx = outputs tx' \<and>
    list_all2 same_input (inputs tx) (inputs tx') \<and> same_input (inputs tx ! k) (inputs tx' ! k') \<and>
    sc = sc' \<and> amt = amt' \<and> ty = ty'"
proof -
  have "sha256d sha p = sha256d sha p'" using assms(4,5,6) by (simp add: bip143_sighash_def)
  then have "p = p'" using assms(7) by (simp add: no_collision_def)
  note inj = bip143_preimage_inj[OF assms(1)[rule_format] assms(2,3,4) assms(5)[folded this]]
  have "prevouts_bytes tx = prevouts_bytes tx'" "sequence_bytes tx = sequence_bytes tx'"
    "outputs_bytes tx = outputs_bytes tx'"
    using inj(7-9) assms(8-10) by (auto simp: no_collision_def)
  then have "list_all2 same_outpoint (inputs tx) (inputs tx')"
    "list_all2 (\<lambda>i j. sequence i = sequence j) (inputs tx) (inputs tx')" "outputs tx = outputs tx'"
    using assms(2,3) prevouts_bytes_determined sequence_bytes_determined outputs_bytes_determined
    by (auto simp: sighash_args_ok_def)
  then show ?thesis using inj(1-6) by (auto simp: list_all2_conv_all_nth same_input_def)
qed

definition demo_in :: "bytes \<Rightarrow> bsv_txin_t" where
  "demo_in ss = \<lparr>prev_txid_display = replicate 64 (CHR ''a''), vout = 1, script_sig = ss, sequence = 7\<rparr>"

definition demo_tx :: "bytes \<Rightarrow> bsv_tx_t" where
  "demo_tx ss = \<lparr>version = 2, inputs = [demo_in ss],
     outputs = [\<lparr>satoshis = 5, script = [0x51]\<rparr>], locktime = 9\<rparr>"

definition pad32 :: "bytes \<Rightarrow> bytes" where
  "pad32 b = take 32 (b @ replicate 32 0)"

theorem bip143_sighash_binds_witness:
  "bip143_sighash pad32 (demo_tx []) 0 [0xac] 10 0x41 = bip143_sighash pad32 (demo_tx [1, 2]) 0 [0xac] 10 0x41 \<and>
   list_all2 same_input (inputs (demo_tx [])) (inputs (demo_tx [1, 2]))"
proof -
  have l: "\<forall>x. length (pad32 x) = 32" by (auto simp: pad32_def min_def)
  have ok: "sighash_args_ok (demo_tx ss) 0 [0xac]" for ss
  proof -
    have "is_hex_len (replicate 64 (CHR ''a'')) 32" by code_simp
    then show ?thesis
      by (simp add: sighash_args_ok_def demo_tx_def demo_in_def txid_ok_def txout_ok_def script_ok_def)
  qed
  have e: "bip143_preimage pad32 (demo_tx []) 0 [0xac] 10 0x41 = bip143_preimage pad32 (demo_tx [1, 2]) 0 [0xac] 10 0x41"
    "prevouts_bytes (demo_tx []) = prevouts_bytes (demo_tx [1, 2])"
    "sequence_bytes (demo_tx []) = sequence_bytes (demo_tx [1, 2])"
    "outputs_bytes (demo_tx []) = outputs_bytes (demo_tx [1, 2])"
    by (simp_all add: bip143_preimage_def demo_tx_def demo_in_def hash_prevouts_def hash_sequence_def
        hash_outputs_def append_outpoint_def prevouts_bytes_def sequence_bytes_def outputs_bytes_def)
  obtain p where p: "bip143_preimage pad32 (demo_tx [1, 2]) 0 [0xac] 10 0x41 = Inr p"
    using ok[of "[1, 2]"] bip143_preimage_Inr_iff[of pad32 "demo_tx [1, 2]" 0 "[0xac]" 10 "0x41"]
    by (auto simp: sighash_args_ok_def)
  have n: "no_collision pad32 x x" for x by (simp add: no_collision_def)
  have s: "bip143_sighash pad32 (demo_tx []) 0 [0xac] 10 0x41 = bip143_sighash pad32 (demo_tx [1, 2]) 0 [0xac] 10 0x41"
    using e by (simp add: bip143_sighash_def)
  from bip143_sighash_binds[OF l ok ok p[folded e(1)] p s n] e(2-4) n s show ?thesis by simp
qed

text \<open>
  The digest is computed exactly for an input index in range and inputs whose previous
  transaction ids are 64 hexadecimal digits; a bad index gives \<^verbatim>\<open>BNS_EINVAL\<close>, a bad id
  \<^verbatim>\<open>BNS_EPARSE\<close>.
\<close>

theorem bip143_sighash_errors:
  "case bip143_sighash sha tx k sc amt ty of
     Inl e \<Rightarrow> e = (if k \<ge> length (inputs tx) then BNS_EINVAL else BNS_EPARSE) \<and>
       \<not> (k < length (inputs tx) \<and> list_all txid_ok (inputs tx))
   | Inr d \<Rightarrow> k < length (inputs tx) \<and> list_all txid_ok (inputs tx)"
proof (cases "k < length (inputs tx) \<and> list_all txid_ok (inputs tx)")
  case True
  then show ?thesis using bip143_preimage_Inr_iff[of sha tx k sc amt ty]
    by (auto simp: bip143_sighash_def)
next
  case False
  then show ?thesis by (auto simp: bip143_sighash_def bip143_preimage_def hash_prevouts_eq)
qed

end
