(* ===== verification/Base58.thy ===== *)
theory Base58
  imports Tx
begin

text \<open>
  Base58 and Base58Check (\<^verbatim>\<open>src/bsv/base58.c\<close>), P2PKH addresses and WIF private keys
  (\<^verbatim>\<open>src/bsv/address.c\<close>). The in-place carry loops, with the \<open>high\<close> mark that lets
  them stop early and the buffer sizes computed from the input length, are modelled as
  written; the buffer is a list of digits (each below the radix, at most 256, so that the
  \<^verbatim>\<open>uint8_t\<close> store keeps it). Scrubbing of scratch memory is not modelled.
\<close>

section \<open>Model\<close>

definition B58_ALPHABET :: string where
  "B58_ALPHABET = ''123456789ABCDEFGHJKLMNPQRSTUVWXYZabcdefghijkmnopqrstuvwxyz''"

text \<open>The reverse lookup table, filled entry by entry from \<open>-1\<close>.\<close>

definition b58_value :: "char \<Rightarrow> int" where
  "b58_value = fold (\<lambda>i t. t(B58_ALPHABET ! i := int i)) [0..<58] (\<lambda>_. -1)"

text \<open>
  The inner loop, multiplying the buffer by \<open>M\<close> in radix \<open>R\<close>: 256 and 58 when
  encoding, 58 and 256 (written \<^verbatim>\<open>& 0xff\<close> and \<^verbatim>\<open>>> 8\<close>) when decoding.
\<close>

fun carry_loop :: "nat \<Rightarrow> nat \<Rightarrow> nat \<Rightarrow> nat list \<Rightarrow> nat \<Rightarrow> nat \<Rightarrow> nat list \<times> nat" where
  "carry_loop M R high buf j carry =
     (let c = carry + M * buf ! j; buf' = buf[j := c mod R]; carry' = c div R in
      if j \<le> high \<and> carry' = 0 then (buf', j)
      else if j = 0 then (buf', j)
      else carry_loop M R high buf' (j - 1) carry')"

declare carry_loop.simps [simp del]

fun b58_digits_loop :: "nat \<Rightarrow> nat \<Rightarrow> nat \<Rightarrow> nat list \<Rightarrow> nat list \<times> nat \<Rightarrow> nat list \<times> nat" where
  "b58_digits_loop M R sz [] st = st"
| "b58_digits_loop M R sz (d # ds) (buf, high) =
     b58_digits_loop M R sz ds (carry_loop M R high buf (sz - 1) d)"

definition b58_convert :: "nat \<Rightarrow> nat \<Rightarrow> nat \<Rightarrow> nat list \<Rightarrow> nat list" where
  "b58_convert M R sz ds =
     dropWhile (\<lambda>d. d = 0) (fst (b58_digits_loop M R sz ds (replicate sz 0, sz)))"

text \<open>The two buffer sizes.\<close>

definition enc_size :: "nat \<Rightarrow> nat" where
  "enc_size len = (len * 138) div 100 + 1"

definition dec_size :: "nat \<Rightarrow> nat" where
  "dec_size slen = (slen * 733) div 1000 + 1"

definition base58_encode :: "bytes \<Rightarrow> string" where
  "base58_encode data =
     (let len = length data; zeros = length (takeWhile (\<lambda>b. b = 0) data);
          sz = enc_size len;
          digits = b58_convert 256 58 sz (map unat (drop zeros data)) in
      replicate zeros (CHR ''1'') @ map (\<lambda>d. B58_ALPHABET ! d) digits)"

definition base58_decode :: "string \<Rightarrow> bytes res" where
  "base58_decode str =
     (let slen = length str; zeros = length (takeWhile (\<lambda>c. c = CHR ''1'') str);
          sz = dec_size slen; vs = map b58_value (drop zeros str) in
      if list_ex (\<lambda>v. v < 0) vs then Inl BNS_EPARSE
      else Inr (replicate zeros 0 @ map of_nat (b58_convert 58 256 sz (map nat vs))))"

definition base58check_encode :: "(bytes \<Rightarrow> bytes) \<Rightarrow> bytes \<Rightarrow> string" where
  "base58check_encode sha data = base58_encode (data @ take 4 (sha256d sha data))"

definition base58check_decode :: "(bytes \<Rightarrow> bytes) \<Rightarrow> string \<Rightarrow> bytes res" where
  "base58check_decode sha str =
     res_bind (base58_decode str) (\<lambda>raw.
     if length raw < 4 then Inl BNS_EPARSE
     else let plen = length raw - 4 in
       if take 4 (sha256d sha (take plen raw)) \<noteq> drop plen raw then Inl BNS_EINTEGRITY
       else Inr (take plen raw))"

datatype bsv_network_t = BSV_MAINNET | BSV_TESTNET

definition address_from_hash160 :: "(bytes \<Rightarrow> bytes) \<Rightarrow> bytes \<Rightarrow> bsv_network_t \<Rightarrow> string" where
  "address_from_hash160 sha hash160_bytes net =
     base58check_encode sha ((if net = BSV_TESTNET then 0x6f else 0x00) # hash160_bytes)"

text \<open>
  \<open>serialize_compressed\<close> and RIPEMD-160 are library code; \<^verbatim>\<open>hash160\<close> of
  \<^verbatim>\<open>src/crypto/hash.c\<close> is RIPEMD-160 of SHA-256.
\<close>

definition hash160 :: "(bytes \<Rightarrow> bytes) \<Rightarrow> (bytes \<Rightarrow> bytes) \<Rightarrow> bytes \<Rightarrow> bytes" where
  "hash160 sha ripemd data = ripemd (sha data)"

definition address_from_pubkey ::
  "(bytes \<Rightarrow> bytes) \<Rightarrow> (bytes \<Rightarrow> bytes) \<Rightarrow> ('pub \<Rightarrow> bytes res) \<Rightarrow> 'pub \<Rightarrow> bsv_network_t \<Rightarrow> string res" where
  "address_from_pubkey sha ripemd serialize_compressed pub net =
     res_bind (serialize_compressed pub) (\<lambda>sec.
     Inr (address_from_hash160 sha (hash160 sha ripemd sec) net))"

definition wif_decode :: "(bytes \<Rightarrow> bytes) \<Rightarrow> string \<Rightarrow> (bytes \<times> bool \<times> bsv_network_t) res" where
  "wif_decode sha wif =
     res_bind (base58check_decode sha wif) (\<lambda>payload.
     let compressed = (length payload = 34 \<and> payload ! 33 = 0x01);
         len_ok = (length payload = 33 \<or> compressed) in
     if \<not> len_ok then Inl BNS_EPARSE
     else let prefix = payload ! 0; secret = take 32 (drop 1 payload) in
       if prefix = 0x80 then Inr (secret, compressed, BSV_MAINNET)
       else if prefix = 0xef then Inr (secret, compressed, BSV_TESTNET)
       else Inl BNS_EPARSE)"

definition wif_encode :: "(bytes \<Rightarrow> bytes) \<Rightarrow> bytes \<Rightarrow> bool \<Rightarrow> bsv_network_t \<Rightarrow> string" where
  "wif_encode sha secret compressed net =
     base58check_encode sha
       ([if net = BSV_TESTNET then 0xef else 0x80] @ secret @ (if compressed then [0x01] else []))"

section \<open>Positional numbers\<close>

definition be_val :: "nat \<Rightarrow> nat list \<Rightarrow> nat" where
  "be_val R ds = foldl (\<lambda>a d. a * R + d) 0 ds"

lemma be_val_Nil [simp]: "be_val R [] = 0"
  by (simp add: be_val_def)

lemma be_val_single [simp]: "be_val R [d] = d"
  by (simp add: be_val_def)

lemma be_val_snoc [simp]: "be_val R (ds @ [d]) = be_val R ds * R + d"
  by (simp add: be_val_def)

lemma be_val_append: "be_val R (xs @ ys) = be_val R xs * R ^ length ys + be_val R ys"
proof (induction ys rule: rev_induct)
  case (snoc y ys)
  have "be_val R (xs @ ys @ [y]) = be_val R ((xs @ ys) @ [y])" by simp
  then show ?case unfolding be_val_snoc using snoc by (simp add: algebra_simps)
qed simp

lemma be_val_replicate_0 [simp]: "be_val R (replicate n 0) = 0"
proof (induction n)
  case (Suc n)
  have "replicate (Suc n) (0::nat) = replicate n 0 @ [0]" by (simp add: replicate_append_same)
  then show ?case unfolding \<open>replicate (Suc n) 0 = _\<close> be_val_snoc using Suc by simp
qed simp

lemma be_val_bound: "list_all (\<lambda>d. d < R) ds \<Longrightarrow> be_val R ds < R ^ length ds"
proof (induction ds rule: rev_induct)
  case (snoc d ds)
  then have "be_val R ds + 1 \<le> R ^ length ds" "d < R" by auto
  then have "be_val R ds * R + d < (be_val R ds + 1) * R" by simp
  also have "\<dots> \<le> R ^ length ds * R" using \<open>be_val R ds + 1 \<le> _\<close> by (rule mult_le_mono1)
  finally show ?case by (simp add: mult.commute)
qed simp

lemma be_val_dropWhile_0: "be_val R (dropWhile (\<lambda>d. d = 0) ds) = be_val R ds"
proof -
  have "takeWhile (\<lambda>d. d = 0) ds = replicate (length (takeWhile (\<lambda>d. d = 0) ds)) (0 :: nat)"
    by (intro replicate_eqI) (auto dest: set_takeWhileD)
  then have "be_val R (takeWhile (\<lambda>d. d = 0) ds) = 0" by (metis be_val_replicate_0)
  then show ?thesis
    using be_val_append[of R "takeWhile (\<lambda>d. d = 0) ds" "dropWhile (\<lambda>d. d = 0) ds"] by simp
qed

lemma be_val_inj:
  "length xs = length ys \<Longrightarrow> list_all (\<lambda>d. d < R) xs \<Longrightarrow> list_all (\<lambda>d. d < R) ys \<Longrightarrow>
   be_val R xs = be_val R ys \<Longrightarrow> xs = ys"
proof (induction xs arbitrary: ys rule: rev_induct)
  case (snoc x xs)
  then obtain ys' y where ys: "ys = ys' @ [y]" by (metis length_0_conv rev_exhaust snoc_eq_iff_butlast)
  have "x < R" "y < R" "be_val R xs * R + x = be_val R ys' * R + y" using snoc.prems ys by auto
  then have "x = y \<and> be_val R xs = be_val R ys'"
    by (metis Euclidean_Rings.div_eq_0_iff add.left_neutral add.right_neutral div_mult_self3 mod_less mod_mult_self3
        less_zeroE)
  then show ?case using snoc ys by auto
qed simp

text \<open>Without leading zeros, the digits are determined by the value.\<close>

definition canonical :: "nat \<Rightarrow> nat list \<Rightarrow> bool" where
  "canonical R ds \<longleftrightarrow> list_all (\<lambda>d. d < R) ds \<and> (ds = [] \<or> hd ds \<noteq> 0)"

lemma canonical_lower: "canonical R ds \<Longrightarrow> ds \<noteq> [] \<Longrightarrow> R ^ (length ds - 1) \<le> be_val R ds"
proof -
  assume a: "canonical R ds" "ds \<noteq> []"
  then obtain d ds' where d: "ds = [d] @ ds'" "d \<noteq> 0" by (cases ds) (auto simp: canonical_def)
  have "1 * R ^ length ds' \<le> d * R ^ length ds'" using d(2) by (intro mult_le_mono1) simp
  then show ?thesis using d be_val_append[of R "[d]" ds'] be_val_snoc[of R "[]" d] by (simp add: trans_le_add1)
qed

lemma canonical_unique:
  assumes "1 < R" "canonical R xs" "canonical R ys" "be_val R xs = be_val R ys"
  shows "xs = ys"
proof -
  have "length xs \<le> length ys" if "canonical R xs" "canonical R ys" "be_val R xs = be_val R ys" for xs ys
  proof (cases "xs = []")
    case False
    have "R ^ (length xs - 1) < R ^ length ys"
      using canonical_lower[OF that(1) False] be_val_bound[of R ys] that by (simp add: canonical_def)
    then have "length xs - 1 < length ys" using assms(1) by simp
    then show ?thesis using False by simp
  qed simp
  then have "length xs = length ys" using assms by (metis le_antisym)
  then show ?thesis using assms(2-4) by (intro be_val_inj[of xs ys R]) (auto simp: canonical_def)
qed

lemma canonical_dropWhile: "list_all (\<lambda>d. d < R) ds \<Longrightarrow> canonical R (dropWhile (\<lambda>d. d = 0) ds)"
  using hd_dropWhile[of "\<lambda>d. d = 0" ds] unfolding canonical_def list_all_iff
  by (metis set_dropWhileD)

section \<open>The carry loop multiplies and adds\<close>

lemma take_Suc_zero:
  assumes "j < length buf" "\<And>i. i < j \<Longrightarrow> buf ! i = 0"
  shows "be_val R (take j buf) = 0"
proof -
  have "take j buf = replicate j 0" using assms by (intro nth_equalityI) auto
  then show ?thesis by simp
qed

lemma carry_loop_spec:
  assumes "j < length buf" "list_all (\<lambda>d. d < R) buf" "1 < R"
    and "\<And>i. i < high \<Longrightarrow> i \<le> j \<Longrightarrow> buf ! i = 0"
    and "be_val R (take (Suc j) buf) * M + carry < R ^ Suc j"
    and "carry_loop M R high buf j carry = (buf', j')"
  shows "length buf' = length buf \<and> list_all (\<lambda>d. d < R) buf' \<and> j' \<le> j \<and>
    be_val R (take (Suc j) buf') = be_val R (take (Suc j) buf) * M + carry \<and>
    drop (Suc j) buf' = drop (Suc j) buf \<and> (\<forall>i < j'. buf' ! i = 0)"
  using assms
proof (induction j arbitrary: buf carry)
  case 0
  let ?c = "carry + M * buf ! 0"
  have t: "take (Suc 0) buf = [] @ [buf ! 0]" using 0(1) by (cases buf) auto
  have c: "?c < R" using "0.prems"(5) unfolding t be_val_snoc by (simp add: algebra_simps)
  then have "carry_loop M R high buf 0 carry = (buf[0 := ?c], 0)"
    by (subst carry_loop.simps) (simp add: Let_def)
  then have r: "buf' = buf[0 := ?c]" "j' = 0" using "0.prems"(6) by auto
  have "take (Suc 0) buf' = [] @ [?c]" using 0(1) r by (cases buf) auto
  then show ?case unfolding t be_val_snoc using r c "0.prems"(2)
    by (auto simp: list_all_iff algebra_simps dest: set_update_subset_insert[THEN subsetD])
next
  case (Suc j)
  let ?c = "carry + M * buf ! Suc j" and ?w = "be_val R (take (Suc j) buf)"
  let ?b = "buf[Suc j := ?c mod R]"
  have t: "take (Suc (Suc j)) buf = take (Suc j) buf @ [buf ! Suc j]"
    using Suc.prems(1) by (simp add: take_Suc_conv_app_nth)
  have tot: "be_val R (take (Suc (Suc j)) buf) * M + carry = (?w * M + ?c div R) * R + ?c mod R"
    unfolding t be_val_snoc by (simp add: algebra_simps)
  have lt: "?w * M + ?c div R < R ^ Suc j"
  proof -
    have "(?w * M + ?c div R) * R < R ^ Suc j * R"
      using Suc.prems(5) unfolding tot power_Suc2[of R "Suc j"] by (rule le_less_trans[OF le_add1])
    then show ?thesis using Suc.prems(3) by simp
  qed
  have b: "Suc j < length ?b" "list_all (\<lambda>d. d < R) ?b" "take (Suc j) ?b = take (Suc j) buf"
    using Suc.prems(1,2,3) by (auto simp: list_all_iff dest!: set_update_subset_insert[THEN subsetD])
  show ?case
  proof (cases "Suc j \<le> high \<and> ?c div R = 0")
    case True
    then have "carry_loop M R high buf (Suc j) carry = (?b, Suc j)"
      by (subst carry_loop.simps) (simp add: Let_def)
    then have r: "buf' = ?b" "j' = Suc j" using Suc.prems(6) by auto
    have z: "buf ! i = 0" if "i < Suc j" for i using Suc.prems(4)[of i] that True by simp
    then have "?w = 0" using Suc.prems(1) by (intro take_Suc_zero) auto
    moreover have "take (Suc (Suc j)) ?b = take (Suc j) buf @ [?c mod R]"
      using b(1,3) by (simp add: take_Suc_conv_app_nth)
    ultimately show ?thesis unfolding tot r using b True z by simp
  next
    case False
    then have "carry_loop M R high ?b j (?c div R) = (buf', j')"
      using Suc.prems(6) by (subst (asm) carry_loop.simps) (auto simp: Let_def)
    moreover have "?b ! i = 0" if "i < high" "i \<le> j" for i using Suc.prems(4)[of i] that by simp
    ultimately have IH: "length buf' = length ?b \<and> list_all (\<lambda>d. d < R) buf' \<and> j' \<le> j \<and>
        be_val R (take (Suc j) buf') = be_val R (take (Suc j) ?b) * M + ?c div R \<and>
        drop (Suc j) buf' = drop (Suc j) ?b \<and> (\<forall>i < j'. buf' ! i = 0)"
      using b lt Suc.prems(3) by (intro Suc.IH) auto
    have d: "drop (Suc j) ?b = (?c mod R) # drop (Suc (Suc j)) buf"
      using b(1) Cons_nth_drop_Suc[OF b(1)] by (simp flip: Cons_nth_drop_Suc)
    then have "take (Suc (Suc j)) buf' = take (Suc j) buf' @ [?c mod R]"
      and d': "drop (Suc (Suc j)) buf' = drop (Suc (Suc j)) buf"
      using IH b(1) by (auto simp: take_Suc_conv_app_nth) (metis nth_via_drop, metis drop_Suc list.sel(3) tl_drop)
    then show ?thesis unfolding tot using IH b(3) by simp
  qed
qed

lemma digits_loop_spec:
  assumes "1 < R" "length buf = sz" "0 < sz" "list_all (\<lambda>d. d < R) buf" "\<And>i. i < high \<Longrightarrow> i < sz \<Longrightarrow> buf ! i = 0"
    and "(be_val R buf + 1) * M ^ length ds \<le> R ^ sz" "list_all (\<lambda>d. d < M) ds"
    and "b58_digits_loop M R sz ds (buf, high) = (buf', high')"
  shows "length buf' = sz \<and> list_all (\<lambda>d. d < R) buf' \<and>
    be_val R buf' = be_val R buf * M ^ length ds + be_val M ds"
  using assms
proof (induction ds arbitrary: buf high)
  case (Cons d ds)
  let ?v = "be_val R buf"
  obtain b j where bj: "carry_loop M R high buf (sz - 1) d = (b, j)" by fastforce
  have sz: "Suc (sz - 1) = sz" using Cons.prems(3) by simp
  have d: "d < M" "list_all (\<lambda>d. d < M) ds" using Cons.prems(7) by auto
  have grow: "(?v * M + d + 1) * M ^ length ds \<le> R ^ sz"
  proof -
    have "?v * M + d + 1 \<le> (?v + 1) * M" using d by simp
    then have "(?v * M + d + 1) * M ^ length ds \<le> ((?v + 1) * M) * M ^ length ds" by (rule mult_le_mono1)
    also have "\<dots> = (?v + 1) * M ^ length (d # ds)" by (simp add: algebra_simps)
    also note Cons.prems(6)
    finally show ?thesis .
  qed
  have "?v * M + d < (?v * M + d + 1) * 1" by simp
  also have "\<dots> \<le> (?v * M + d + 1) * M ^ length ds" using d(1) by (intro mult_le_mono2) simp
  also note grow
  finally have "?v * M + d < R ^ sz" .
  then have c: "length b = sz \<and> list_all (\<lambda>d. d < R) b \<and> be_val R b = ?v * M + d \<and> (\<forall>i < j. b ! i = 0)"
    using carry_loop_spec[of "sz - 1" buf R high M d b j] Cons.prems bj sz by auto
  have "length buf' = sz \<and> list_all (\<lambda>d. d < R) buf' \<and>
    be_val R buf' = be_val R b * M ^ length ds + be_val M ds"
    using c grow d Cons.prems bj by (intro Cons.IH[of b j]) auto
  moreover have "be_val M (d # ds) = d * M ^ length ds + be_val M ds"
    using be_val_append[of M "[d]" ds] by simp
  ultimately show ?case using c by (simp add: algebra_simps)
qed simp

lemma b58_convert_spec:
  assumes "1 < R" "0 < sz" "M ^ length ds \<le> R ^ sz" "list_all (\<lambda>d. d < M) ds"
  shows "canonical R (b58_convert M R sz ds)" "be_val R (b58_convert M R sz ds) = be_val M ds"
proof -
  obtain b h where bh: "b58_digits_loop M R sz ds (replicate sz 0, sz) = (b, h)" by fastforce
  have "length b = sz \<and> list_all (\<lambda>d. d < R) b \<and>
      be_val R b = be_val R (replicate sz 0) * M ^ length ds + be_val M ds"
    using assms bh by (intro digits_loop_spec[where high = sz and high' = h]) (auto simp: list_all_iff)
  then show "canonical R (b58_convert M R sz ds)" "be_val R (b58_convert M R sz ds) = be_val M ds"
    using bh by (auto simp: b58_convert_def canonical_dropWhile be_val_dropWhile_0)
qed

lemma b58_convert_inverse:
  assumes "1 < R" "1 < M" "0 < sz" "M ^ length ds \<le> R ^ sz" "canonical M ds"
    and "0 < sz'" "R ^ length (b58_convert M R sz ds) \<le> M ^ sz'"
  shows "b58_convert R M sz' (b58_convert M R sz ds) = ds"
proof -
  have m: "list_all (\<lambda>d. d < M) ds" using assms(5) by (simp add: canonical_def)
  note f = b58_convert_spec[OF assms(1,3,4) m]
  have "list_all (\<lambda>d. d < R) (b58_convert M R sz ds)" using f(1) by (simp add: canonical_def)
  note g = b58_convert_spec[OF assms(2,6,7) this]
  show ?thesis by (rule canonical_unique[OF assms(2) g(1) assms(5)]) (simp add: g(2) f(2))
qed

section \<open>The buffer sizes suffice\<close>

lemma power_scale: "a ^ p \<le> b ^ q \<Longrightarrow> q * n \<le> p * s \<Longrightarrow> 0 < p \<Longrightarrow> 1 < b \<Longrightarrow> (a :: nat) ^ n \<le> b ^ s"
proof -
  assume a: "a ^ p \<le> b ^ q" "q * n \<le> p * s" "0 < p" "1 < b"
  have "(a ^ n) ^ p = (a ^ p) ^ n" by (metis power_mult mult.commute)
  also have "\<dots> \<le> (b ^ q) ^ n" using a(1) by (rule power_mono) simp
  also have "\<dots> = b ^ (q * n)" by (simp add: power_mult)
  also have "\<dots> \<le> b ^ (p * s)" using a(2,4) by (intro power_increasing) auto
  also have "\<dots> = (b ^ s) ^ p" by (metis power_mult mult.commute)
  finally show ?thesis using a(3) by (simp add: power_mono_iff)
qed

lemma encode_size:
  assumes "n \<le> len"
  shows "(256 :: nat) ^ n \<le> 58 ^ enc_size len"
  unfolding enc_size_def
proof (rule power_scale[where p = 8 and q = 11])
  have "len * 138 < 100 * (len * 138 div 100 + 1)" by simp
  then show "11 * n \<le> 8 * (len * 138 div 100 + 1)" using assms by linarith
qed simp_all

lemma decode_size:
  assumes "n \<le> slen"
  shows "(58 :: nat) ^ n \<le> 256 ^ dec_size slen"
  unfolding dec_size_def
proof (rule power_scale[where p = 71 and q = 52])
  have "slen * 733 < 1000 * (slen * 733 div 1000 + 1)" by simp
  then show "52 * n \<le> 71 * (slen * 733 div 1000 + 1)" using assms by linarith
qed simp_all

lemma size_pos [simp]: "0 < enc_size n" "0 < dec_size n"
  by (simp_all add: enc_size_def dec_size_def)

section \<open>Alphabet\<close>

lemma b58_value_nth: "d < 58 \<Longrightarrow> b58_value (B58_ALPHABET ! d) = int d"
proof -
  have "\<forall>d \<in> set [0..<58]. b58_value (B58_ALPHABET ! d) = int d" by code_simp
  then show "d < 58 \<Longrightarrow> b58_value (B58_ALPHABET ! d) = int d" by simp
qed

lemma b58_value_char:
  "0 \<le> b58_value c \<Longrightarrow> b58_value c < 58 \<and> B58_ALPHABET ! nat (b58_value c) = c"
proof -
  have "\<forall>c \<in> set (Enum.enum :: char list). 0 \<le> b58_value c \<longrightarrow>
      b58_value c < 58 \<and> B58_ALPHABET ! nat (b58_value c) = c" by code_simp
  then show "0 \<le> b58_value c \<Longrightarrow> ?thesis" by (simp add: UNIV_enum[symmetric])
qed

lemma b58_value_0: "b58_value c = 0 \<longleftrightarrow> c = CHR ''1''"
  using b58_value_char[of c] b58_value_nth[of 0] by (auto simp: B58_ALPHABET_def)

section \<open>Base58 round trips\<close>

lemma drop_takeWhile: "drop (length (takeWhile P xs)) xs = dropWhile P xs"
  by (metis append_eq_conv_conj takeWhile_dropWhile_id)

lemma takeWhile_replicate:
  "takeWhile (\<lambda>x. x = a) xs = replicate (length (takeWhile (\<lambda>x. x = a) xs)) a"
  by (intro replicate_eqI) (auto dest: set_takeWhileD)

lemma leading_split:
  assumes "ys = [] \<or> hd ys \<noteq> a"
  shows "takeWhile (\<lambda>x. x = a) (replicate n a @ ys) = replicate n a"
    and "dropWhile (\<lambda>x. x = a) (replicate n a @ ys) = ys"
  using assms by (induction n) (cases ys; auto)+

definition b58_text :: "nat list \<Rightarrow> string" where
  "b58_text ds = map (\<lambda>d. B58_ALPHABET ! d) ds"

lemma b58_text_value: "list_all (\<lambda>d. d < 58) ds \<Longrightarrow> map b58_value (b58_text ds) = map int ds"
  by (simp add: b58_text_def list_all_iff b58_value_nth)

lemma hd_b58_text:
  assumes "canonical 58 ds"
  shows "b58_text ds = [] \<or> hd (b58_text ds) \<noteq> CHR ''1''"
proof (cases ds)
  case (Cons d ds')
  then have "b58_value (B58_ALPHABET ! d) = int d" "d \<noteq> 0"
    using assms b58_value_nth[of d] by (auto simp: canonical_def)
  then show ?thesis using Cons b58_value_0[of "B58_ALPHABET ! d"] by (simp add: b58_text_def)
qed (simp add: b58_text_def)

lemma base58_encode_alt:
  "base58_encode (replicate z 0 @ map of_nat ds) =
     replicate z (CHR ''1'') @ b58_text (b58_convert 256 58 (enc_size (z + length ds)) ds)"
  if "canonical 256 ds"
proof -
  have "map unat (map of_nat ds :: bytes) = ds"
    using that by (induction ds) (auto simp: canonical_def list_all_iff unat_of_nat take_bit_nat_eq_self
        intro!: map_idI)
  moreover have "map (of_nat :: nat \<Rightarrow> byte) ds = [] \<or> hd (map (of_nat :: nat \<Rightarrow> byte) ds) \<noteq> 0"
    using that by (cases ds) (auto simp: canonical_def word_unat_eq_iff unat_of_nat take_bit_nat_eq_self)
  ultimately show ?thesis using leading_split[of "map of_nat ds" "0 :: byte" z]
    by (simp add: base58_encode_def Let_def drop_takeWhile b58_text_def)
qed

lemma base58_decode_alt:
  assumes "canonical 58 ds"
  shows "base58_decode (replicate z (CHR ''1'') @ b58_text ds) =
     Inr (replicate z 0 @ map of_nat (b58_convert 58 256 (dec_size (z + length ds)) ds))"
proof -
  have v: "map b58_value (b58_text ds) = map int ds"
    using assms by (intro b58_text_value) (simp add: canonical_def)
  have n: "map nat (map int ds) = ds" by (simp add: comp_def)
  have l: "length (b58_text ds) = length ds" by (simp add: b58_text_def)
  have "\<not> list_ex (\<lambda>v. v < 0) (map int ds)" by (auto simp: list_ex_iff)
  then show ?thesis using leading_split[OF hd_b58_text[OF assms], of z]
    unfolding base58_decode_def Let_def drop_takeWhile by (simp only: v n l length_append length_replicate if_False)
qed

lemma bytes_split:
  fixes b :: bytes
  obtains z ds where "b = replicate z 0 @ map of_nat ds" "canonical 256 ds"
proof
  let ?t = "takeWhile (\<lambda>x. x = 0) b" and ?d = "dropWhile (\<lambda>x. x = 0) b"
  have "map of_nat (map unat ?d) = ?d" by (simp add: comp_def)
  then show "b = replicate (length ?t) 0 @ map of_nat (map unat ?d)"
    by (metis takeWhile_dropWhile_id takeWhile_replicate)
  show "canonical 256 (map unat ?d)"
    using hd_dropWhile[of "\<lambda>x. x = 0" b] unsigned_less[where 'b = 8 and 'a = nat]
    by (cases ?d) (auto simp: canonical_def list_all_iff unat_eq_0)
qed

lemma string_split:
  assumes "list_all (\<lambda>c. 0 \<le> b58_value c) s"
  obtains z ds where "s = replicate z (CHR ''1'') @ b58_text ds" "canonical 58 ds"
proof
  let ?t = "takeWhile (\<lambda>x. x = CHR ''1'') s" and ?d = "dropWhile (\<lambda>x. x = CHR ''1'') s"
  let ?v = "map (nat \<circ> b58_value) ?d"
  have d: "0 \<le> b58_value c" if "c \<in> set ?d" for c
    using assms that by (auto simp: list_all_iff dest: set_dropWhileD)
  have "b58_text ?v = ?d" using d b58_value_char by (auto simp: b58_text_def intro!: map_idI)
  then show "s = replicate (length ?t) (CHR ''1'') @ b58_text ?v"
    by (metis takeWhile_dropWhile_id takeWhile_replicate)
  have h: "hd ?v \<noteq> 0" if "?v \<noteq> []"
    using that hd_dropWhile[of "\<lambda>x. x = CHR ''1''" s] b58_value_0[of "hd ?d"] d[of "hd ?d"]
    by (cases ?d) auto
  have "nat (b58_value c) < 58" if "c \<in> set ?d" for c
    using b58_value_char[OF d[OF that]] d[OF that] by linarith
  then have "list_all (\<lambda>d. d < 58) ?v" by (auto simp: list_all_iff)
  then show "canonical 58 ?v" unfolding canonical_def using h by blast
qed

lemma base58_decode_encode: "base58_decode (base58_encode b) = Inr b"
proof -
  obtain z ds where b: "b = replicate z 0 @ map of_nat ds" "canonical 256 ds" by (rule bytes_split)
  let ?e = "b58_convert 256 58 (enc_size (z + length ds)) ds"
  have l: "(256::nat) ^ length ds \<le> 58 ^ (enc_size (z + length ds))" by (rule encode_size) simp
  have "canonical 58 ?e" using b(2) l by (intro b58_convert_spec(1)) (auto simp: canonical_def)
  note d = base58_decode_alt[OF this, of z]
  have "b58_convert 58 256 (dec_size (z + length ?e)) ?e = ds"
    using l b(2) decode_size[of "length ?e" "z + length ?e"] by (intro b58_convert_inverse) auto
  then show ?thesis using d b base58_encode_alt[OF b(2), of z] by simp
qed

lemma base58_encode_decode:
  assumes "list_all (\<lambda>c. 0 \<le> b58_value c) s"
  shows "\<exists>b. base58_decode s = Inr b \<and> base58_encode b = s"
proof -
  obtain z ds where s: "s = replicate z (CHR ''1'') @ b58_text ds" "canonical 58 ds"
    using assms by (rule string_split)
  let ?e = "b58_convert 58 256 (dec_size (z + length ds)) ds"
  have l: "(58::nat) ^ length ds \<le> 256 ^ (dec_size (z + length ds))" by (rule decode_size) simp
  have "canonical 256 ?e" using s(2) l by (intro b58_convert_spec(1)) (auto simp: canonical_def)
  note e = base58_encode_alt[OF this, of z]
  have "b58_convert 256 58 (enc_size (z + length ?e)) ?e = ds"
    using l s(2) encode_size[of "length ?e" "z + length ?e"] by (intro b58_convert_inverse) auto
  then show ?thesis using e s base58_decode_alt[OF s(2), of z] by simp
qed

lemma base58_decode_err: "base58_decode s = Inl e \<Longrightarrow> e = BNS_EPARSE \<and> \<not> list_all (\<lambda>c. 0 \<le> b58_value c) s"
  using base58_encode_decode[of s] by (auto simp: base58_decode_def Let_def split: if_splits)

lemma base58_decode_InrD: "base58_decode s = Inr b \<Longrightarrow> list_all (\<lambda>c. 0 \<le> b58_value c) s \<and> base58_encode b = s"
proof -
  assume a: "base58_decode s = Inr b"
  let ?t = "takeWhile (\<lambda>c. c = CHR ''1'') s"
  have "0 \<le> b58_value c" if "c \<in> set (drop (length ?t) s)" for c
    using a that by (auto simp: base58_decode_def Let_def list_ex_iff not_less split: if_splits)
  moreover have "0 \<le> b58_value c" if "c \<in> set ?t" for c
    using set_takeWhileD[OF that] b58_value_0[of c] by simp
  ultimately have "list_all (\<lambda>c. 0 \<le> b58_value c) s"
    using append_take_drop_id[of "length ?t" s] unfolding drop_takeWhile list_all_iff
    by (metis Un_iff set_append takeWhile_dropWhile_id)
  then show ?thesis using base58_encode_decode[of s] a by auto
qed

section \<open>Properties\<close>

text \<open>
  C24. Base58 is a bijection between byte strings and the strings over its alphabet: decoding
  inverts encoding, decoding fails, with \<^verbatim>\<open>BNS_EPARSE\<close>, exactly on a character outside the
  alphabet, and encoding what was decoded gives the same string back, leading zeros included.
\<close>

theorem base58_bijection:
  "base58_decode (base58_encode b) = Inr b \<and>
   (case base58_decode s of
      Inl e \<Rightarrow> e = BNS_EPARSE \<and> \<not> list_all (\<lambda>c. 0 \<le> b58_value c) s
    | Inr d \<Rightarrow> list_all (\<lambda>c. 0 \<le> b58_value c) s \<and> base58_encode d = s)"
  using base58_decode_encode base58_decode_err[of s] base58_decode_InrD[of s]
  by (cases "base58_decode s") auto

lemma base58check_decode_encode:
  assumes "length (sha (sha p)) = 32"
  shows "base58check_decode sha (base58check_encode sha p) = Inr p"
  using assms by (simp add: base58check_decode_def base58check_encode_def base58_decode_encode sha256d_def)

lemma base58check_decode_InrD:
  assumes "base58check_decode sha s = Inr p"
  shows "s = base58check_encode sha p"
proof -
  obtain raw where raw: "base58_decode s = Inr raw" "length raw \<ge> 4"
      "take 4 (sha256d sha (take (length raw - 4) raw)) = drop (length raw - 4) raw"
      "p = take (length raw - 4) raw"
    using assms by (auto simp: base58check_decode_def res_bind_Inr_iff Let_def not_less split: if_splits)
  then have "raw = p @ take 4 (sha256d sha p)" by (metis append_take_drop_id)
  then show ?thesis using base58_decode_InrD[OF raw(1)] by (simp add: base58check_encode_def)
qed

text \<open>
  A WIF string decodes to a secret, a compression flag and a network exactly when it is
  the WIF encoding of those: no other string is accepted for the same key, and every encoded
  32-byte secret decodes back, for any hash with 32-byte digests.
\<close>

theorem wif_decode_iff:
  assumes "\<forall>x. length (sha x) = 32"
  shows "wif_decode sha s = Inr (secret, compressed, net) \<longleftrightarrow>
    length secret = 32 \<and> s = wif_encode sha secret compressed net"
proof
  assume "wif_decode sha s = Inr (secret, compressed, net)"
  then obtain p where p: "base58check_decode sha s = Inr p"
      "length p = 33 \<or> length p = 34 \<and> p ! 33 = 0x01" "compressed \<longleftrightarrow> length p = 34 \<and> p ! 33 = 0x01"
      "secret = take 32 (drop 1 p)" "p ! 0 = (if net = BSV_TESTNET then 0xef else 0x80)"
    by (auto simp: wif_decode_def res_bind_Inr_iff Let_def split: if_splits)
  obtain b q where q: "p = b # q" using p(2) by (cases p) auto
  have "q = take 32 q @ drop 32 q" by simp
  moreover have "drop 32 q = (if compressed then [0x01] else [])"
  proof (cases "length p = 33")
    case True
    then show ?thesis using q p(3) by simp
  next
    case False
    then have l: "length q = 33" and c: "q ! 32 = 0x01" "compressed" using q p(2,3) by auto
    have "drop 32 q = q ! 32 # drop (Suc 32) q" using l by (intro Cons_nth_drop_Suc[symmetric]) simp
    then show ?thesis using l c by simp
  qed
  ultimately have "p = [if net = BSV_TESTNET then 0xef else 0x80] @ secret @ (if compressed then [0x01] else [])"
    using q p(4,5) by simp
  moreover have "length secret = 32" using p(2) q unfolding p(4) by auto
  ultimately show "length secret = 32 \<and> s = wif_encode sha secret compressed net"
    using base58check_decode_InrD[OF p(1)] by (simp add: wif_encode_def)
next
  assume a: "length secret = 32 \<and> s = wif_encode sha secret compressed net"
  then show "wif_decode sha s = Inr (secret, compressed, net)"
    using base58check_decode_encode[of sha] assms
    by (cases net; simp add: wif_decode_def wif_encode_def Let_def nth_append)
qed

definition demo_sha :: "bytes \<Rightarrow> bytes" where
  "demo_sha b = take 32 (b @ replicate 32 7)"

lemma demo_sha_length: "\<forall>x. length (demo_sha x) = 32"
  by (auto simp: demo_sha_def min_def)

theorem wif_decode_iff_witness:
  "wif_decode demo_sha (wif_encode demo_sha (replicate 32 9) True BSV_TESTNET) =
     Inr (replicate 32 9, True, BSV_TESTNET)"
  using wif_decode_iff[OF demo_sha_length, of _ "replicate 32 9" True BSV_TESTNET] by simp

text \<open>
  A corrupted Base58Check string never yields a payload silently: decoding succeeds
  exactly on the encoding of the payload it returns, and otherwise fails with
  \<^verbatim>\<open>BNS_EPARSE\<close> for a bad character or a string of fewer than four bytes and with
  \<^verbatim>\<open>BNS_EINTEGRITY\<close> for a wrong checksum.
\<close>

theorem base58check_decode_cases:
  assumes "\<forall>x. length (sha x) = 32"
  shows "(case base58check_decode sha s of
      Inl e \<Rightarrow> (\<forall>p. s \<noteq> base58check_encode sha p) \<and>
        (e = BNS_EPARSE \<or> e = BNS_EINTEGRITY \<and> list_all (\<lambda>c. 0 \<le> b58_value c) s)
    | Inr p \<Rightarrow> s = base58check_encode sha p) \<and>
    base58check_decode sha (base58check_encode sha p0) = Inr p0"
proof (cases "base58check_decode sha s")
  case (Inl e)
  have "s \<noteq> base58check_encode sha p" for p
    using Inl base58check_decode_encode[of sha p] assms by auto
  moreover have "e = BNS_EPARSE \<or> e = BNS_EINTEGRITY \<and> list_all (\<lambda>c. 0 \<le> b58_value c) s"
    using Inl base58_decode_err[of s] base58_decode_InrD[of s]
    by (auto simp: base58check_decode_def res_bind_Inl_iff Let_def split: if_splits)
  ultimately show ?thesis using Inl assms base58check_decode_encode[of sha p0] by auto
next
  case (Inr p)
  then show ?thesis using base58check_decode_InrD[OF Inr] assms base58check_decode_encode[of sha p0] by auto
qed

theorem base58check_decode_cases_witness:
  "base58check_decode demo_sha (base58check_encode demo_sha [0, 0, 5]) = Inr [0, 0, 5]"
  using base58check_decode_cases[OF demo_sha_length, of _ "[0, 0, 5]"] by simp

text \<open>
  Addresses identify their payee: two addresses are equal exactly when their networks and
  their public-key hashes are, given a hash with 32-byte digests.
\<close>

theorem address_injective:
  assumes "\<forall>x. length (sha x) = 32"
  shows "address_from_hash160 sha h net = address_from_hash160 sha h' net' \<longleftrightarrow> h = h' \<and> net = net'"
proof
  assume a: "address_from_hash160 sha h net = address_from_hash160 sha h' net'"
  have "base58check_decode sha (address_from_hash160 sha h net) =
      Inr ((if net = BSV_TESTNET then 0x6f else 0x00) # h)" for h net
    using assms by (simp add: address_from_hash160_def base58check_decode_encode)
  then have "((if net = BSV_TESTNET then 0x6f else 0x00) :: byte) # h =
      (if net' = BSV_TESTNET then 0x6f else 0x00) # h'"
    using a by (metis Inr_inject)
  then show "h = h' \<and> net = net'" by (cases net; cases net') auto
qed simp

theorem address_injective_witness:
  "address_from_hash160 demo_sha (replicate 20 1) BSV_MAINNET \<noteq> address_from_hash160 demo_sha (replicate 20 1) BSV_TESTNET"
  using address_injective[OF demo_sha_length, of "replicate 20 1" BSV_MAINNET "replicate 20 1" BSV_TESTNET]
  by simp

end
