(* ===== verification/Num2bin.thy ===== *)
theory Num2bin
  imports Prelude
begin

text \<open>
  The two integer encoders of \<^verbatim>\<open>src/bsv/num2bin.c\<close>, fixed-width and minimal
  sign-magnitude little-endian, with the byte conversions of \<^verbatim>\<open>src/crypto/bignum.c\<close> they
  rest on. A \<^verbatim>\<open>bn_t\<close> is its integer value; the three OpenSSL conversion routines are a
  parameter, constrained only by what their documentation says.
\<close>

section \<open>Little-endian numbers\<close>

fun le_nat :: "bytes \<Rightarrow> nat" where
  "le_nat [] = 0"
| "le_nat (b # bs) = unat b + 256 * le_nat bs"

lemma le_nat_append: "le_nat (xs @ ys) = le_nat xs + 256 ^ length xs * le_nat ys"
  by (induction xs) (auto simp: algebra_simps)

lemma le_nat_bound: "le_nat bs < 256 ^ length bs"
proof (induction bs)
  case (Cons b bs)
  have "unat b < 256" using unsigned_less[of b, where 'a = nat] by simp
  with Cons show ?case by simp
qed simp

lemma le_nat_inj: "length xs = length ys \<Longrightarrow> le_nat xs = le_nat ys \<Longrightarrow> xs = ys"
proof (induction xs ys rule: list_induct2)
  case (Cons x xs y ys)
  have b: "unat x < 256" "unat y < 256"
    using unsigned_less[of x, where 'a = nat] unsigned_less[of y, where 'a = nat] by simp_all
  have "unat x = (unat x + 256 * le_nat xs) mod 256" "unat y = (unat y + 256 * le_nat ys) mod 256"
    using b by simp_all
  then have "unat x = unat y" using Cons.prems unfolding le_nat.simps by metis
  moreover from this have "le_nat xs = le_nat ys" using Cons.prems by simp
  ultimately show ?case using Cons.IH by (simp add: word_unat_eq_iff)
qed simp

section \<open>Model\<close>

type_synonym bn_t = int

record bn_lib =
  BN_num_bytes :: "int \<Rightarrow> nat"
  BN_bn2lebinpad :: "int \<Rightarrow> nat \<Rightarrow> bytes"
  BN_bn2bin :: "int \<Rightarrow> bytes"

text \<open>
  The documented behaviour: \<^verbatim>\<open>BN_num_bytes\<close> is the least width that holds the magnitude,
  \<^verbatim>\<open>BN_bn2lebinpad\<close> writes it little-endian into a wide enough field, \<^verbatim>\<open>BN_bn2bin\<close>
  writes it big-endian in minimal width.
\<close>

definition bn_lib_ok :: "bn_lib \<Rightarrow> bool" where
  "bn_lib_ok L \<longleftrightarrow>
     (\<forall>n k. BN_num_bytes L n \<le> k \<longleftrightarrow> nat \<bar>n\<bar> < 256 ^ k) \<and>
     (\<forall>n w. BN_num_bytes L n \<le> w \<longrightarrow>
        length (BN_bn2lebinpad L n w) = w \<and> le_nat (BN_bn2lebinpad L n w) = nat \<bar>n\<bar>) \<and>
     (\<forall>n. length (BN_bn2bin L n) = BN_num_bytes L n \<and> le_nat (rev (BN_bn2bin L n)) = nat \<bar>n\<bar>)"

definition bn_to_le_bytes :: "bn_lib \<Rightarrow> bn_t \<Rightarrow> nat \<Rightarrow> bytes res" where
  "bn_to_le_bytes L bn width =
     (if bn < 0 then Inl BNS_ERANGE
      else if BN_num_bytes L bn > width then Inl BNS_ERANGE
      else Inr (BN_bn2lebinpad L bn width))"

definition bn_to_be_bytes :: "bn_lib \<Rightarrow> bn_t \<Rightarrow> bytes res" where
  "bn_to_be_bytes L bn =
     (if bn < 0 then Inl BNS_ERANGE
      else if BN_num_bytes L bn = 0 then Inr []
      else Inr (BN_bn2bin L bn))"

definition split_sign_mag :: "bn_t \<Rightarrow> int \<times> bn_t" where
  "split_sign_mag n =
     (if n < 0 then (-1, 0 - n) else (if n > 0 then 1 else 0, n))"

definition int2bytestring_sized :: "bn_lib \<Rightarrow> bn_t \<Rightarrow> nat \<Rightarrow> bytes res" where
  "int2bytestring_sized L n width =
     (let (sign, mag) = split_sign_mag n in
      res_bind (bn_to_le_bytes L mag width) (\<lambda>tmp.
      if width > 0 then
        if tmp ! (width - 1) AND 0x80 \<noteq> 0 then Inl BNS_ERANGE
        else if sign < 0 then Inr (tmp[width - 1 := tmp ! (width - 1) OR 0x80])
        else Inr tmp
      else if sign \<noteq> 0 then Inl BNS_ERANGE
      else Inr tmp))"

definition int2bytestring_minimal :: "bn_lib \<Rightarrow> bn_t \<Rightarrow> bytes res" where
  "int2bytestring_minimal L n =
     (if n = 0 then Inr []
      else let (sign, mag) = split_sign_mag n in
        res_bind (bn_to_be_bytes L mag) (\<lambda>be.
        let le = map (\<lambda>i. be ! (length be - 1 - i)) [0..<length be]; top = length le - 1 in
        if le ! top AND 0x80 \<noteq> 0 then Inr (le @ [if sign < 0 then 0x80 else 0x00])
        else if sign < 0 then Inr (le[top := le ! top OR 0x80])
        else Inr le))"

section \<open>The value of a script number\<close>

text \<open>
  What the encodings mean: the last byte carries the sign in its top bit, the rest is the
  magnitude.
\<close>

definition sm_val :: "bytes \<Rightarrow> int" where
  "sm_val bs =
     (if bs = [] then 0
      else let mag = int (le_nat (butlast bs @ [last bs AND 0x7f])) in
        if last bs AND 0x80 \<noteq> 0 then - mag else mag)"

lemma byte_all: "(\<forall>n \<in> set [0..<256]. P (of_nat n :: byte)) \<Longrightarrow> P b"
proof -
  assume "\<forall>n \<in> set [0..<256]. P (of_nat n :: byte)"
  moreover have "unat b \<in> set [0..<256]" using unsigned_less[of b, where 'a = nat] by simp
  ultimately have "P (of_nat (unat b))" by blast
  then show "P b" by simp
qed

lemma byte_sign_facts:
  "(b AND 0x80 \<noteq> 0 \<longleftrightarrow> 128 \<le> unat b) \<and> unat (b AND 0x7f) = unat b mod 128 \<and>
   (unat b < 128 \<longrightarrow> unat (b OR 0x80) = unat b + 128)" for b :: byte
  by (rule byte_all, code_simp)

lemmas byte_sign = byte_sign_facts[THEN conjunct1] byte_sign_facts[THEN conjunct2, THEN conjunct1]
  byte_sign_facts[THEN conjunct2, THEN conjunct2, rule_format]

lemma sm_val_snoc:
  "sm_val (xs @ [t]) =
     (let mag = int (le_nat xs + 256 ^ length xs * (unat t mod 128)) in
      if 128 \<le> unat t then - mag else mag)"
  by (simp add: sm_val_def byte_sign le_nat_append Let_def)

lemma nat_abs_bound: "le_nat xs + 256 ^ length xs * k < 128 * 256 ^ length xs" if "k < 128"
proof -
  have "le_nat xs + 256 ^ length xs * k < 256 ^ length xs * (k + 1)"
    using le_nat_bound[of xs] by simp
  also have "\<dots> \<le> 256 ^ length xs * 128" using that by (intro mult_le_mono) auto
  finally show ?thesis by simp
qed

lemma sm_val_bound: "bs \<noteq> [] \<Longrightarrow> nat \<bar>sm_val bs\<bar> < 128 * 256 ^ (length bs - 1)"
proof -
  assume "bs \<noteq> []"
  then obtain xs t where bs: "bs = xs @ [t]" by (metis append_butlast_last_id)
  have "nat \<bar>sm_val bs\<bar> = le_nat xs + 256 ^ length xs * (unat t mod 128)"
  proof -
    have "nat \<bar>if c then - int m else int m\<bar> = m" for c m by simp
    then show ?thesis unfolding bs sm_val_snoc Let_def .
  qed
  then show ?thesis using nat_abs_bound[of "unat t mod 128" xs] bs by simp
qed

definition sm_fits :: "int \<Rightarrow> nat \<Rightarrow> bool" where
  "sm_fits n w = (if w = 0 then n = 0 else nat \<bar>n\<bar> < 128 * 256 ^ (w - 1))"

lemma split_sign_mag_eq: "split_sign_mag n = (sgn n, \<bar>n\<bar>)"
  by (auto simp: split_sign_mag_def sgn_if)

lemma list_update_snoc: "(xs @ [t])[length xs := u] = xs @ [u]"
  by simp

lemma sized_nonempty:
  assumes "nat \<bar>n\<bar> = le_nat (xs @ [t])"
  shows "sm_fits n (Suc (length xs)) \<longleftrightarrow> unat t < 128"
    and "unat t < 128 \<Longrightarrow> n < 0 \<Longrightarrow> sm_val (xs @ [t OR 0x80]) = n"
    and "unat t < 128 \<Longrightarrow> \<not> n < 0 \<Longrightarrow> sm_val (xs @ [t]) = n"
proof -
  have e: "nat \<bar>n\<bar> = le_nat xs + 256 ^ length xs * unat t"
    using assms by (simp add: le_nat_append)
  show "sm_fits n (Suc (length xs)) \<longleftrightarrow> unat t < 128"
  proof (cases "unat t < 128")
    case False
    then have "256 ^ length xs * 128 \<le> 256 ^ length xs * unat t" by (intro mult_le_mono) auto
    then have "128 * 256 ^ length xs \<le> nat \<bar>n\<bar>" using e by linarith
    then show ?thesis using False by (simp add: sm_fits_def)
  qed (use e nat_abs_bound[of "unat t" xs] in \<open>simp add: sm_fits_def\<close>)
  assume t: "unat t < 128"
  then have m: "unat (t OR 0x80) mod 128 = unat t" "128 \<le> unat (t OR 0x80)" "unat t mod 128 = unat t"
    by (simp_all add: byte_sign)
  show "n < 0 \<Longrightarrow> sm_val (xs @ [t OR 0x80]) = n"
    unfolding sm_val_snoc Let_def m(1) e[symmetric] using m(2) by simp
  show "\<not> n < 0 \<Longrightarrow> sm_val (xs @ [t]) = n"
    unfolding sm_val_snoc Let_def m(3) e[symmetric] using t by simp
qed

lemma bn_lib_num: "bn_lib_ok L \<Longrightarrow> BN_num_bytes L n \<le> k \<longleftrightarrow> nat \<bar>n\<bar> < 256 ^ k"
  by (simp add: bn_lib_ok_def)

lemma bn_lib_pad:
  "bn_lib_ok L \<Longrightarrow> BN_num_bytes L n \<le> w \<Longrightarrow>
     length (BN_bn2lebinpad L n w) = w \<and> le_nat (BN_bn2lebinpad L n w) = nat \<bar>n\<bar>"
  by (simp add: bn_lib_ok_def)

lemma bn_lib_bin:
  "bn_lib_ok L \<Longrightarrow> length (BN_bn2bin L n) = BN_num_bytes L n \<and> le_nat (rev (BN_bn2bin L n)) = nat \<bar>n\<bar>"
  by (simp add: bn_lib_ok_def)

lemma int2bytestring_sized_spec:
  assumes "bn_lib_ok L"
  shows "case int2bytestring_sized L n w of
      Inl e \<Rightarrow> e = BNS_ERANGE \<and> \<not> sm_fits n w
    | Inr bs \<Rightarrow> sm_fits n w \<and> length bs = w \<and> sm_val bs = n"
proof (cases "BN_num_bytes L \<bar>n\<bar> \<le> w")
  case False
  then have "nat \<bar>n\<bar> \<ge> 256 ^ w" using bn_lib_num[OF assms, of "\<bar>n\<bar>" w] by simp
  then have "\<not> sm_fits n w"
    by (cases w) (auto simp: sm_fits_def)
  then show ?thesis using False
    by (simp add: int2bytestring_sized_def split_sign_mag_eq bn_to_le_bytes_def)
next
  case True
  define tmp where "tmp = BN_bn2lebinpad L \<bar>n\<bar> w"
  have tmp: "length tmp = w" "le_nat tmp = nat \<bar>n\<bar>"
    using bn_lib_pad[OF assms True] by (auto simp: tmp_def)
  have le: "bn_to_le_bytes L \<bar>n\<bar> w = Inr tmp" using True by (simp add: bn_to_le_bytes_def tmp_def)
  show ?thesis
  proof (cases w)
    case 0
    then have "tmp = []" "n = 0" using tmp by auto
    then show ?thesis using le 0
      by (simp add: int2bytestring_sized_def split_sign_mag_eq sm_fits_def sm_val_def)
  next
    case (Suc k)
    then obtain xs t where xt: "tmp = xs @ [t]" "length xs = k"
      using tmp(1) by (metis length_Suc_conv_rev)
    note facts = sized_nonempty[of n xs t, OF tmp(2)[symmetric, unfolded xt(1)]]
    have nth: "tmp ! (w - 1) = t" "tmp[w - 1 := u] = xs @ [u]" for u
      using xt Suc by (auto simp: nth_append)
    show ?thesis using facts le Suc xt tmp
      by (auto simp: int2bytestring_sized_def split_sign_mag_eq byte_sign nth[unfolded Suc, simplified])
  qed
qed

lemma top_nonzero:
  assumes "bn_lib_ok L" "n \<noteq> 0"
  obtains xs t where "BN_num_bytes L \<bar>n\<bar> = Suc (length xs)" "rev (BN_bn2bin L \<bar>n\<bar>) = xs @ [t]"
    "nat \<bar>n\<bar> = le_nat (xs @ [t])" "256 ^ length xs \<le> nat \<bar>n\<bar>"
proof -
  define k where "k = BN_num_bytes L \<bar>n\<bar>"
  have b: "length (BN_bn2bin L \<bar>n\<bar>) = k" "le_nat (rev (BN_bn2bin L \<bar>n\<bar>)) = nat \<bar>n\<bar>"
    using bn_lib_bin[OF assms(1), of "\<bar>n\<bar>"] by (simp_all add: k_def)
  have "k \<noteq> 0" using bn_lib_num[OF assms(1), of "\<bar>n\<bar>" 0] assms(2) by (simp add: k_def)
  then have "rev (BN_bn2bin L \<bar>n\<bar>) \<noteq> []" using b(1) by auto
  then obtain xs t where xt: "rev (BN_bn2bin L \<bar>n\<bar>) = xs @ [t]" by (metis append_butlast_last_id)
  then have k: "k = Suc (length xs)" using b(1) by (metis length_append_singleton length_rev)
  then have "\<not> k \<le> length xs" by simp
  then have "256 ^ length xs \<le> nat \<bar>n\<bar>"
    using bn_lib_num[OF assms(1), of "\<bar>n\<bar>" "length xs"] by (simp add: k_def)
  then show thesis using that xt k b(2) by (simp add: k_def)
qed

lemma int2bytestring_minimal_alt:
  assumes "n \<noteq> 0" "bn_to_be_bytes L \<bar>n\<bar> = Inr be" "rev be = xs @ [t]"
  shows "int2bytestring_minimal L n =
    Inr (if 128 \<le> unat t then (xs @ [t]) @ [if n < 0 then 0x80 else 0x00]
         else xs @ [if n < 0 then t OR 0x80 else t])"
  unfolding int2bytestring_minimal_def split_sign_mag_eq prod.case Let_def assms(2) res_bind.simps
    map_rev_nth[OF refl] assms(3)
  using assms(1) by (simp add: byte_sign nth_append)

lemma int2bytestring_minimal_spec:
  assumes "bn_lib_ok L"
  shows "\<exists>bs. int2bytestring_minimal L n = Inr bs \<and> sm_val bs = n \<and>
    (\<forall>bs'. sm_val bs' = n \<longrightarrow> length bs \<le> length bs')"
proof (cases "n = 0")
  case True
  then show ?thesis by (simp add: int2bytestring_minimal_def sm_val_def)
next
  case False
  obtain xs t where k: "BN_num_bytes L \<bar>n\<bar> = Suc (length xs)" and xt: "rev (BN_bn2bin L \<bar>n\<bar>) = xs @ [t]"
    and e: "nat \<bar>n\<bar> = le_nat (xs @ [t])" and lo: "256 ^ length xs \<le> nat \<bar>n\<bar>"
    using top_nonzero[OF assms False] by metis
  let ?be = "BN_bn2bin L \<bar>n\<bar>"
  have be: "bn_to_be_bytes L \<bar>n\<bar> = Inr ?be" using k by (simp add: bn_to_be_bytes_def)
  note facts = sized_nonempty[OF e]
  have lower: "length ys \<le> length bs'" if "sm_val bs' = n" "128 * 256 ^ (length ys - 2) \<le> nat \<bar>n\<bar> \<and> 2 \<le> length ys
      \<or> 256 ^ (length ys - 1) \<le> nat \<bar>n\<bar>" for bs' ys :: bytes
  proof -
    have ne: "bs' \<noteq> []" using that(1) False by (auto simp: sm_val_def)
    then have b: "nat \<bar>n\<bar> < 128 * 256 ^ (length bs' - 1)" using sm_val_bound[of bs'] that(1) by simp
    show ?thesis using that(2)
    proof
      assume a: "128 * 256 ^ (length ys - 2) \<le> nat \<bar>n\<bar> \<and> 2 \<le> length ys"
      then have "(128::nat) * 256 ^ (length ys - 2) < 128 * 256 ^ (length bs' - 1)" using b by linarith
      then have "length ys - 2 < length bs' - 1" by simp
      then show ?thesis using a by linarith
    next
      assume "256 ^ (length ys - 1) \<le> nat \<bar>n\<bar>"
      then have "(256::nat) ^ (length ys - 1) < 256 * 256 ^ (length bs' - 1)" using b by linarith
      then have "(256::nat) ^ (length ys - 1) < 256 ^ length bs'"
        using ne by (cases bs') simp_all
      then show ?thesis using ne by (simp add: Suc_le_eq)
    qed
  qed
  show ?thesis
  proof (cases "128 \<le> unat t")
    case True
    let ?bs = "(xs @ [t]) @ [if n < 0 then 0x80 else 0x00]"
    have r: "int2bytestring_minimal L n = Inr ?bs"
      using int2bytestring_minimal_alt[OF False be xt] True by simp
    have "sm_val ?bs = n" unfolding sm_val_snoc using e by (auto simp: Let_def)
    moreover have "128 * 256 ^ (length ?bs - 2) \<le> nat \<bar>n\<bar>"
      using facts(1) True by (simp add: sm_fits_def)
    ultimately show ?thesis using r lower[of _ ?bs] by auto
  next
    case lt: False
    let ?bs = "xs @ [if n < 0 then t OR 0x80 else t]"
    have r: "int2bytestring_minimal L n = Inr ?bs"
      using int2bytestring_minimal_alt[OF False be xt] lt by simp
    moreover have "sm_val ?bs = n" using facts(2,3) lt by simp
    ultimately show ?thesis using lower[of _ ?bs] lo by auto
  qed
qed

section \<open>A library that behaves as documented\<close>

fun nat_digits :: "nat \<Rightarrow> bytes" where
  "nat_digits n = (if n = 0 then [] else of_nat (n mod 256) # nat_digits (n div 256))"

declare nat_digits.simps [simp del]

definition bn_reference :: bn_lib where
  "bn_reference = \<lparr>BN_num_bytes = (\<lambda>n. length (nat_digits (nat \<bar>n\<bar>))),
     BN_bn2lebinpad = (\<lambda>n w. let d = nat_digits (nat \<bar>n\<bar>) in d @ replicate (w - length d) 0),
     BN_bn2bin = (\<lambda>n. rev (nat_digits (nat \<bar>n\<bar>)))\<rparr>"

lemma le_nat_digits: "le_nat (nat_digits n) = n"
proof (induction n rule: nat_digits.induct)
  case (1 n)
  then show ?case
    by (subst nat_digits.simps) (auto simp: unat_of_nat take_bit_nat_eq_self)
qed

lemma length_nat_digits: "length (nat_digits n) \<le> k \<longleftrightarrow> n < 256 ^ k"
proof (induction n arbitrary: k rule: nat_digits.induct)
  case (1 n)
  show ?case
  proof (cases "n = 0")
    case True
    then show ?thesis by (subst nat_digits.simps) simp
  next
    case False
    have "n < 256 ^ Suc j \<longleftrightarrow> n div 256 < 256 ^ j" for j
      by (simp add: div_less_iff_less_mult mult.commute)
    with 1 False show ?thesis by (subst nat_digits.simps) (cases k; simp)
  qed
qed

lemma le_nat_replicate_zero: "le_nat (replicate k 0) = 0"
  by (induction k) auto

lemma bn_reference_ok: "bn_lib_ok bn_reference"
  unfolding bn_lib_ok_def bn_reference_def
  by (auto simp: Let_def length_nat_digits le_nat_digits le_nat_append le_nat_replicate_zero)

section \<open>Properties\<close>

text \<open>
  The fixed-width encoder fails, with \<^verbatim>\<open>BNS_ERANGE\<close>, exactly when the magnitude does
  not fit below the reserved sign bit of the given width; otherwise it yields a field of that
  width whose sign-magnitude value is the encoded integer.
\<close>

theorem int2bytestring_sized_correct:
  assumes "bn_lib_ok L"
  shows "case int2bytestring_sized L n w of
      Inl e \<Rightarrow> e = BNS_ERANGE \<and> \<not> sm_fits n w
    | Inr bs \<Rightarrow> sm_fits n w \<and> length bs = w \<and> sm_val bs = n"
  using int2bytestring_sized_spec[OF assms] .

theorem int2bytestring_sized_correct_witness:
  "int2bytestring_sized bn_reference (-5) 4 = Inr [5, 0, 0, 0x80] \<and> sm_val [5, 0, 0, 0x80] = -5 \<and>
   int2bytestring_sized bn_reference 128 1 = Inl BNS_ERANGE \<and> \<not> sm_fits 128 1"
proof -
  have e: "int2bytestring_sized bn_reference (-5) 4 = Inr [5, 0, 0, 0x80]"
    "int2bytestring_sized bn_reference 128 1 = Inl BNS_ERANGE"
    by code_simp+
  show ?thesis
    using int2bytestring_sized_correct[OF bn_reference_ok, of "-5" 4]
      int2bytestring_sized_correct[OF bn_reference_ok, of 128 1] e by simp
qed

text \<open>
  The minimal encoder always succeeds, yields a byte string whose sign-magnitude value is
  the encoded integer, and no byte string with that value is shorter.
\<close>

theorem int2bytestring_minimal_correct:
  assumes "bn_lib_ok L"
  shows "\<exists>bs. int2bytestring_minimal L n = Inr bs \<and> sm_val bs = n \<and>
    (\<forall>bs'. sm_val bs' = n \<longrightarrow> length bs \<le> length bs')"
  using int2bytestring_minimal_spec[OF assms] .

theorem int2bytestring_minimal_correct_witness:
  "int2bytestring_minimal bn_reference (-128) = Inr [0x80, 0x80] \<and> sm_val [0x80, 0x80] = -128"
proof -
  have e: "int2bytestring_minimal bn_reference (-128) = Inr [0x80, 0x80]" by code_simp
  show ?thesis using int2bytestring_minimal_correct[OF bn_reference_ok, of "-128"] e by auto
qed

section \<open>The encoders determine the number\<close>

lemma sized_inj:
  assumes "bn_lib_ok L" "int2bytestring_sized L n w = Inr b" "int2bytestring_sized L m w = Inr b"
  shows "n = m"
  using int2bytestring_sized_spec[OF assms(1), of n w] int2bytestring_sized_spec[OF assms(1), of m w] assms(2,3) by simp

lemma sized_length: "bn_lib_ok L \<Longrightarrow> int2bytestring_sized L n w = Inr b \<Longrightarrow> length b = w"
  using int2bytestring_sized_spec[of L n w] by simp

lemma minimal_inj:
  assumes "bn_lib_ok L" "int2bytestring_minimal L n = Inr b" "int2bytestring_minimal L m = Inr b"
  shows "n = m"
proof -
  have "sm_val b = n" "sm_val b = m"
    using int2bytestring_minimal_spec[OF assms(1), of n] int2bytestring_minimal_spec[OF assms(1), of m] assms(2,3) by auto
  then show ?thesis by simp
qed

end
