(* ===== verification/ScriptCodec.thy ===== *)
theory ScriptCodec
  imports Num2bin Script Hex
begin

text \<open>
  Reconstruction of contract locking scripts (\<^verbatim>\<open>src/scrypt/script_codec.c\<close>): the
  constructor and state encoders, the flattening of compound arguments
  (\<^verbatim>\<open>src/scrypt/artifact_loader.c\<close>), the substitution of the encoded leaves into the
  artifact's hex template, and the state suffix (\<^verbatim>\<open>src/lib/scrypt_state.c\<close>).
\<close>

section \<open>Data\<close>

datatype scrypt_type_t =
    SCRYPT_TYPE_INT | SCRYPT_TYPE_BOOL | SCRYPT_TYPE_BYTES | SCRYPT_TYPE_PUBKEY
  | SCRYPT_TYPE_SHA256 | SCRYPT_TYPE_RIPEMD160 | SCRYPT_TYPE_RABIN_PUBKEY
  | SCRYPT_TYPE_FIXED_ARRAY | SCRYPT_TYPE_STRUCT

text \<open>The tagged union: one constructor per tag, the bytes-like tags sharing one.\<close>

datatype bytes_tag = TagBytes | TagPubKey | TagSha256 | TagRipemd160

datatype scrypt_arg_t =
    ArgInt bn_t
  | ArgBool bool
  | ArgBytes bytes_tag bytes
  | ArgRabin bn_t
  | ArgArray "scrypt_arg_t list"
  | ArgStruct string "scrypt_arg_t list"

fun tag :: "scrypt_arg_t \<Rightarrow> scrypt_type_t" where
  "tag (ArgInt _) = SCRYPT_TYPE_INT"
| "tag (ArgBool _) = SCRYPT_TYPE_BOOL"
| "tag (ArgBytes TagBytes _) = SCRYPT_TYPE_BYTES"
| "tag (ArgBytes TagPubKey _) = SCRYPT_TYPE_PUBKEY"
| "tag (ArgBytes TagSha256 _) = SCRYPT_TYPE_SHA256"
| "tag (ArgBytes TagRipemd160 _) = SCRYPT_TYPE_RIPEMD160"
| "tag (ArgRabin _) = SCRYPT_TYPE_RABIN_PUBKEY"
| "tag (ArgArray _) = SCRYPT_TYPE_FIXED_ARRAY"
| "tag (ArgStruct _ _) = SCRYPT_TYPE_STRUCT"

record scrypt_param_t =
  param_name :: string
  param_type :: scrypt_type_t
  type_name :: string

record scrypt_struct_t =
  struct_name :: string
  struct_fields :: "scrypt_param_t list"

record scrypt_artifact_t =
  contract :: string
  hex_template :: string
  ctor_params :: "scrypt_param_t list"
  structs :: "scrypt_struct_t list"
  state_props :: "scrypt_param_t list"
  stateful :: bool

record scrypt_leaf_t =
  leaf_name :: string
  leaf_value :: scrypt_arg_t

section \<open>Encoders\<close>

definition push_data :: "bytes \<Rightarrow> bytes" where
  "push_data d =
     (let len = length d in
      if len = 0 then [0x00]
      else if len \<le> 75 then of_nat len # d
      else if len \<le> 0xff then [0x4c, of_nat len] @ d
      else if len \<le> 0xffff then [0x4d, of_nat (len mod 256), of_nat (len div 256 mod 256)] @ d
      else [0x4e, of_nat (len mod 256), of_nat (len div 256 mod 256),
            of_nat (len div 65536 mod 256), of_nat (len div 16777216 mod 256)] @ d)"

definition ctor_int_push :: "bn_lib \<Rightarrow> bn_t \<Rightarrow> bytes res" where
  "ctor_int_push L bn =
     (if bn = 0 then Inr [0x00]
      else if bn = -1 then Inr [0x4f]
      else if bn \<ge> 1 \<and> bn \<le> 16 then
        res_bind (int2bytestring_minimal L bn) (\<lambda>body.
        if length body = 1 then Inr [0x50 + body ! 0] else Inl BNS_EINVAL)
      else res_bind (int2bytestring_minimal L bn) (\<lambda>body. Inr (push_data body)))"

definition to_script_hex :: "bn_lib \<Rightarrow> scrypt_arg_t \<Rightarrow> scrypt_type_t \<Rightarrow> bytes res" where
  "to_script_hex L v type =
     (if tag v \<noteq> type then Inl BNS_EINVAL
      else case v of
          ArgInt n \<Rightarrow> ctor_int_push L n
        | ArgRabin n \<Rightarrow> ctor_int_push L n
        | ArgBool b \<Rightarrow> Inr [if b then 0x51 else 0x00]
        | ArgBytes _ b \<Rightarrow>
            (if length b = 0 then Inr [0x00]
             else if length b = 1 \<and> b ! 0 \<ge> 1 \<and> b ! 0 \<le> 16 then Inr [0x50 + b ! 0]
             else Inr (push_data b))
        | _ \<Rightarrow> Inl BNS_EINVAL)"

definition state_int_push :: "bn_lib \<Rightarrow> bn_t \<Rightarrow> bytes res" where
  "state_int_push L bn =
     (if bn = 0 then Inr (push_data [0x00])
      else res_bind (int2bytestring_minimal L bn) (\<lambda>body. Inr (push_data body)))"

definition state_value_push :: "bn_lib \<Rightarrow> scrypt_type_t \<Rightarrow> scrypt_arg_t \<Rightarrow> bytes res" where
  "state_value_push L type v =
     (if tag v \<noteq> type then Inl BNS_EINVAL
      else case v of
          ArgInt n \<Rightarrow> state_int_push L n
        | ArgRabin n \<Rightarrow> state_int_push L n
        | ArgBool b \<Rightarrow> Inr [if b then 0x01 else 0x00]
        | ArgBytes _ b \<Rightarrow> (if length b = 0 then Inr [0x00] else Inr (push_data b))
        | _ \<Rightarrow> Inl BNS_EINVAL)"

text \<open>
  The loop over \<^verbatim>\<open>state_props[i]\<close> and \<^verbatim>\<open>values[i]\<close> for \<open>i < count\<close>, from an index on.
  Nothing bounds \<open>i\<close> by the number of properties: with more values than properties the code
  reads past \<^verbatim>\<open>state_props\<close>, which is undefined; \<open>ps ! i\<close> is then an unspecified property,
  and the lemmas are about calls with no more values than properties.
\<close>

fun state_values_push :: "bn_lib \<Rightarrow> scrypt_param_t list \<Rightarrow> nat \<Rightarrow> scrypt_arg_t list \<Rightarrow> bytes res" where
  "state_values_push L ps i [] = Inr []"
| "state_values_push L ps i (v # vs) =
     res_bind (state_value_push L (param_type (ps ! i)) v) (\<lambda>b.
     res_bind (state_values_push L ps (Suc i) vs) (\<lambda>bs. Inr (b @ bs)))"

definition BONSAI_SCRYPT_STATE_LEN_WIDTH :: nat where
  "BONSAI_SCRYPT_STATE_LEN_WIDTH = 4"

definition BONSAI_SCRYPT_STATE_VERSION :: byte where
  "BONSAI_SCRYPT_STATE_VERSION = 0x00"

text \<open>The loader represents an empty list of properties as \<^verbatim>\<open>NULL\<close>.\<close>

definition build_state :: "bn_lib \<Rightarrow> scrypt_param_t list \<Rightarrow> scrypt_arg_t list \<Rightarrow> bool \<Rightarrow> bytes res" where
  "build_state L ps vs is_genesis =
     (if length vs > 0 \<and> ps = [] then Inl BNS_EINVAL
      else res_bind (state_values_push L ps 0 vs) (\<lambda>vals.
        let body = (if is_genesis then 0x01 else 0x00) # vals; state_len = length body in
        res_bind (int2bytestring_sized L (int state_len) BONSAI_SCRYPT_STATE_LEN_WIDTH) (\<lambda>len_field.
        Inr (body @ len_field @ [BONSAI_SCRYPT_STATE_VERSION]))))"

definition get_state_script :: "bn_lib \<Rightarrow> scrypt_param_t list \<Rightarrow> scrypt_arg_t list \<Rightarrow> bool \<Rightarrow> bytes res" where
  "get_state_script L ps vs is_genesis =
     res_bind (build_state L ps vs is_genesis) (\<lambda>st. Inr (0x6a # st))"

section \<open>Flattening\<close>

text \<open>\<^verbatim>\<open>%zu\<close>\<close>

fun show_nat :: "nat \<Rightarrow> string" where
  "show_nat n = (if n < 10 then [char_of (48 + n)] else show_nat (n div 10) @ [char_of (48 + n mod 10)])"

declare show_nat.simps [simp del]

definition find_struct :: "scrypt_artifact_t \<Rightarrow> string \<Rightarrow> scrypt_struct_t option" where
  "find_struct art nm = find (\<lambda>s. struct_name s = nm) (structs art)"

definition name_dot :: "string \<Rightarrow> string \<Rightarrow> string" where
  "name_dot base field = base @ ''.'' @ field"

definition name_index :: "string \<Rightarrow> nat \<Rightarrow> string" where
  "name_index base idx = base @ ''['' @ show_nat idx @ '']''"

definition field_path :: "scrypt_artifact_t \<Rightarrow> string \<Rightarrow> string \<Rightarrow> nat \<Rightarrow> string" where
  "field_path art sname path i =
     (case find_struct art sname of
        Some sd \<Rightarrow> if i < length (struct_fields sd) then name_dot path (param_name (struct_fields sd ! i))
                   else name_index path i
      | None \<Rightarrow> name_index path i)"

fun flatten_value :: "scrypt_artifact_t \<Rightarrow> scrypt_arg_t \<Rightarrow> string \<Rightarrow> scrypt_leaf_t list"
and flatten_children :: "scrypt_artifact_t \<Rightarrow> (nat \<Rightarrow> string) \<Rightarrow> nat \<Rightarrow> scrypt_arg_t list \<Rightarrow> scrypt_leaf_t list" where
  "flatten_value art (ArgArray es) path = flatten_children art (name_index path) 0 es"
| "flatten_value art (ArgStruct sname fs) path = flatten_children art (field_path art sname path) 0 fs"
| "flatten_value art v path = [\<lparr>leaf_name = path, leaf_value = v\<rparr>]"
| "flatten_children art pf i [] = []"
| "flatten_children art pf i (v # vs) = flatten_value art v (pf i) @ flatten_children art pf (Suc i) vs"

definition flatten_args :: "scrypt_artifact_t \<Rightarrow> scrypt_arg_t list \<Rightarrow> scrypt_leaf_t list res" where
  "flatten_args art values =
     (if length values \<noteq> length (ctor_params art) then Inl BNS_EINVAL
      else Inr (concat (map (\<lambda>(p, v). flatten_value art v (param_name p)) (zip (ctor_params art) values))))"

section \<open>Template substitution\<close>

text \<open>
  The copy loop of \<^verbatim>\<open>hex_template_replace\<close>: each hit of \<^verbatim>\<open>strstr\<close> is replaced and the
  search resumes behind it. The marker \<^verbatim>\<open><name>\<close> is never empty.
\<close>

function replace_marker :: "string \<Rightarrow> string \<Rightarrow> string \<Rightarrow> string" where
  "replace_marker name repl s =
     (let marker = ''<'' @ name @ ''>'' in
      if s = [] then []
      else if take (length marker) s = marker then repl @ replace_marker name repl (drop (length marker) s)
      else hd s # replace_marker name repl (tl s))"
  by pat_completeness auto
termination
  by (relation "measure (\<lambda>(name, repl, s). length s)") (auto simp: Let_def)

declare replace_marker.simps [simp del]

definition hex_template_replace :: "string \<Rightarrow> string \<Rightarrow> string \<Rightarrow> string" where
  "hex_template_replace tmpl name repl = replace_marker name repl tmpl"

fun substitute_leaves :: "bn_lib \<Rightarrow> scrypt_leaf_t list \<Rightarrow> string \<Rightarrow> string res" where
  "substitute_leaves L [] tmpl = Inr tmpl"
| "substitute_leaves L (lf # lfs) tmpl =
     res_bind (to_script_hex L (leaf_value lf) (tag (leaf_value lf))) (\<lambda>enc.
     case hex_encode enc of
       None \<Rightarrow> Inl BNS_ENOMEM
     | Some enc_hex \<Rightarrow> substitute_leaves L lfs (hex_template_replace tmpl (leaf_name lf) enc_hex))"

definition reconstruct_locking_script ::
  "bn_lib \<Rightarrow> scrypt_artifact_t \<Rightarrow> scrypt_arg_t list \<Rightarrow> scrypt_arg_t list \<Rightarrow> bool \<Rightarrow> bytes res" where
  "reconstruct_locking_script L art ctor_values state_values is_genesis =
     res_bind (flatten_args art ctor_values) (\<lambda>leaves.
     res_bind (substitute_leaves L leaves (hex_template art)) (\<lambda>tmpl.
     case hex_decode tmpl of
       Inl _ \<Rightarrow> Inl BNS_EPARSE
     | Inr code \<Rightarrow>
         if stateful art then
           res_bind (build_state L (state_props art) state_values is_genesis) (\<lambda>st.
           Inr (code @ [0x6a] @ st))
         else Inr code))"

section \<open>Pushes are single chunks\<close>

text \<open>What executing a chunk leaves on the stack.\<close>

definition stack_item :: "script_chunk_t \<Rightarrow> bytes option" where
  "stack_item c = (case chunk_data c of
       Some d \<Rightarrow> Some d
     | None \<Rightarrow> if opcode c = 0 then Some []
               else if opcode c = 0x4f then Some [0x81]
               else if 0x51 \<le> opcode c \<and> opcode c \<le> 0x60 then Some [opcode c - 0x50]
               else None)"

text \<open>The script pushes the item \<open>d\<close> and does nothing else.\<close>

definition pushes :: "bytes \<Rightarrow> bytes \<Rightarrow> bool" where
  "pushes scr d \<longleftrightarrow> (\<exists>c. script_parse scr 1 = Inr [c] \<and> stack_item c = Some d)"

lemma pushes_chunk: "chunk_ok c \<Longrightarrow> stack_item c = Some d \<Longrightarrow> pushes (enc_chunk c) d"
  unfolding pushes_def script_parse_def using script_parse_loop_enc[of "[c]" 0 "enc_chunk c" 1 0]
  by auto

lemma pushes_opcode:
  assumes "op = 0 \<or> 0x4e < op" "stack_item \<lparr>opcode = op, chunk_data = None\<rparr> = Some d"
  shows "pushes [op] d"
  using pushes_chunk[of "\<lparr>opcode = op, chunk_data = None\<rparr>" d] assms
  by (auto simp: enc_chunk_def chunk_ok_def)

lemma of_nat_byte_mod: "(of_nat (n mod 256) :: byte) = of_nat n"
  by (simp add: word_unat_eq_iff unat_of_nat take_bit_eq_mod)

lemma le_bytes_of_nat_step:
  assumes "n < 2 ^ 64"
  shows "le_bytes (Suc k) (of_nat n :: u64) = of_nat n # le_bytes k (of_nat (n div 256) :: u64)"
proof -
  have "unat (drop_bit 8 (of_nat n :: u64)) = unat (of_nat (n div 256) :: u64)"
    using assms by (simp add: unat_drop_bit_eq unat_div_distrib unat_of_nat take_bit_nat_eq_self drop_bit_eq_div)
  then have "drop_bit 8 (of_nat n :: u64) = of_nat (n div 256)" by (simp only: word_unat_eq_iff)
  moreover have "(ucast (of_nat n :: u64) :: byte) = of_nat n"
    by (simp add: word_unat_eq_iff unsigned_ucast_eq unsigned_of_nat unsigned_take_bit_eq min_def)
  ultimately show ?thesis by (simp add: le_bytes_Suc)
qed

definition push_opcode :: "nat \<Rightarrow> byte" where
  "push_opcode n = (if n \<le> 75 then of_nat n else if n \<le> 255 then 0x4c else if n \<le> 65535 then 0x4d else 0x4e)"

lemma push_data_chunk:
  assumes "d \<noteq> []" "length d < 2 ^ 32"
  shows "push_data d = enc_chunk \<lparr>opcode = push_opcode (length d), chunk_data = Some d\<rparr>"
    and "chunk_ok \<lparr>opcode = push_opcode (length d), chunk_data = Some d\<rparr>"
proof -
  let ?n = "length d"
  have n: "0 < ?n" "?n < 2 ^ 64" "?n div 256 < 2 ^ 64" "?n div 256 div 256 < 2 ^ 64"
    "?n div 256 div 256 div 256 < 2 ^ 64" using assms by auto
  have d: "?n div 65536 = ?n div 256 div 256" "?n div 16777216 = ?n div 256 div 256 div 256"
    by (simp_all flip: div_mult2_eq)
  have k: "1 = Suc 0" "2 = Suc (Suc 0)" "4 = Suc (Suc (Suc (Suc 0)))" by simp_all
  have l: "le_bytes 1 (of_nat ?n :: u64) = [of_nat ?n]"
    "le_bytes 2 (of_nat ?n :: u64) = [of_nat ?n, of_nat (?n div 256)]"
    "le_bytes 4 (of_nat ?n :: u64) = [of_nat ?n, of_nat (?n div 256), of_nat (?n div 65536), of_nat (?n div 16777216)]"
    unfolding d k using n by (simp_all only: le_bytes_of_nat_step le_bytes_0)
  have u: "unat (of_nat ?n :: byte) = ?n" if "?n \<le> 75"
    using that by (simp add: unat_of_nat take_bit_nat_eq_self)
  have small: "(of_nat ?n :: byte) \<noteq> 0" "(of_nat ?n :: byte) < 0x4c" if "?n \<le> 75"
    using u[OF that] that n(1) by (auto simp: word_less_nat_alt)
  show "push_data d = enc_chunk \<lparr>opcode = push_opcode ?n, chunk_data = Some d\<rparr>"
    using n(1) l push_width_zero[OF small(2)]
    by (auto simp: push_data_def enc_chunk_def push_opcode_def push_width_def of_nat_byte_mod Let_def)
  show "chunk_ok \<lparr>opcode = push_opcode ?n, chunk_data = Some d\<rparr>"
    using small u assms(2) by (simp add: chunk_ok_def push_opcode_def push_width_def)
qed

lemma pushes_push_data: "length d < 2 ^ 32 \<Longrightarrow> pushes (push_data d) d"
proof (cases "d = []")
  case True
  then show ?thesis using pushes_opcode[of 0 "[]"] by (simp add: push_data_def stack_item_def)
next
  case False
  assume "length d < 2 ^ 32"
  note c = push_data_chunk[OF False this]
  show ?thesis unfolding c(1) by (rule pushes_chunk[OF c(2)]) (simp add: stack_item_def)
qed

lemma length_push_data: "length d \<le> length (push_data d)"
  by (simp add: push_data_def Let_def)

text \<open>The item each scalar value stands for.\<close>

fun item_of :: "scrypt_arg_t \<Rightarrow> bytes \<Rightarrow> bool" where
  "item_of (ArgInt n) d = (sm_val d = n \<and> (\<forall>d'. sm_val d' = n \<longrightarrow> length d \<le> length d'))"
| "item_of (ArgRabin n) d = (sm_val d = n \<and> (\<forall>d'. sm_val d' = n \<longrightarrow> length d \<le> length d'))"
| "item_of (ArgBool b) d = (d = (if b then [1] else []))"
| "item_of (ArgBytes t b) d = (d = b)"
| "item_of _ d = False"

fun is_scalar :: "scrypt_arg_t \<Rightarrow> bool" where
  "is_scalar (ArgArray _) = False"
| "is_scalar (ArgStruct _ _) = False"
| "is_scalar _ = True"

lemma minimal_small_int:
  assumes "bn_lib_ok L" "1 \<le> n" "n \<le> 16"
  shows "int2bytestring_minimal L n = Inr [word_of_int n]"
proof -
  obtain bs where bs: "int2bytestring_minimal L n = Inr bs" "sm_val bs = n"
    and min: "\<And>bs'. sm_val bs' = n \<Longrightarrow> length bs \<le> length bs'"
    using int2bytestring_minimal_spec[OF assms(1)] by blast
  have u: "unat (word_of_int n :: byte) = nat n"
    using assms by (simp add: unsigned_of_int take_bit_int_eq_self)
  have "sm_val [word_of_int n] = n"
    using sm_val_snoc[of "[]" "word_of_int n"] u assms by (simp add: nat_less_iff)
  then have "length bs \<le> 1" using min[of "[word_of_int n]"] by simp
  moreover have "bs \<noteq> []" using bs(2) assms by (auto simp: sm_val_def)
  ultimately obtain t where t: "bs = [t]" by (cases bs) auto
  with bs(2) assms have "int (unat t mod 128) = n" "unat t < 128"
    using sm_val_snoc[of "[]" t] by (auto simp: Let_def split: if_splits)
  then have "unat t = nat n" by auto
  then show ?thesis using bs(1) t u by (simp add: word_unat_eq_iff)
qed

lemma byte_small_push:
  assumes "1 \<le> n" "n \<le> 16"
  shows "pushes [0x50 + (word_of_int n :: byte)] [word_of_int n]"
proof -
  have "n \<in> {1, 2, 3, 4, 5, 6, 7, 8, 9, 10, 11, 12, 13, 14, 15, 16}"
    using assms unfolding insert_iff empty_iff by presburger
  then have "0x4e < 0x50 + (word_of_int n :: byte) \<and>
      stack_item \<lparr>opcode = 0x50 + (word_of_int n :: byte), chunk_data = None\<rparr> = Some [word_of_int n]"
    by (auto simp: stack_item_def)
  then show ?thesis by (intro pushes_opcode) auto
qed

lemma ctor_int_push_ok:
  assumes "bn_lib_ok L"
  shows "\<exists>bs. ctor_int_push L n = Inr bs \<and>
    (length bs < 2 ^ 32 \<longrightarrow> (\<exists>d. pushes bs d \<and> item_of (ArgInt n) d))"
proof -
  obtain b where b: "int2bytestring_minimal L n = Inr b" and i: "item_of (ArgInt n) b"
    using int2bytestring_minimal_spec[OF assms, of n] by auto
  consider "n = 0" | "n = -1" | "1 \<le> n \<and> n \<le> 16" | "n \<noteq> 0" "n \<noteq> -1" "\<not> (1 \<le> n \<and> n \<le> 16)" by blast
  then show ?thesis
  proof cases
    case 1
    then have "item_of (ArgInt n) []" by (simp add: sm_val_def)
    moreover have "pushes [0] []" by (rule pushes_opcode) (auto simp: stack_item_def)
    ultimately show ?thesis using 1 by (auto simp: ctor_int_push_def)
  next
    case 2
    have v: "sm_val [0x81] = -1" by (simp add: sm_val_def)
    have "item_of (ArgInt n) [0x81]"
    proof -
      have "1 \<le> length d'" if "sm_val d' = -1" for d' using that by (cases d') (auto simp: sm_val_def)
      then show ?thesis using v 2 by simp
    qed
    moreover have "pushes [0x4f] [0x81]" by (rule pushes_opcode) (auto simp: stack_item_def)
    ultimately show ?thesis using 2 by (auto simp: ctor_int_push_def)
  next
    case 3
    with minimal_small_int[OF assms] b have "b = [word_of_int n]" by auto
    with 3 b i byte_small_push[of n] show ?thesis by (auto simp: ctor_int_push_def)
  next
    case 4
    then have "ctor_int_push L n = Inr (push_data b)" using b by (auto simp: ctor_int_push_def)
    moreover have "pushes (push_data b) b" if "length (push_data b) < 2 ^ 32"
      using that length_push_data[of b] by (intro pushes_push_data) linarith
    ultimately show ?thesis using i by blast
  qed
qed

lemma bytes_push_ok:
  fixes b :: bytes
  assumes "length b < 2 ^ 32"
  shows "pushes (if length b = 0 then [0x00]
    else if length b = 1 \<and> b ! 0 \<ge> 1 \<and> b ! 0 \<le> 16 then [0x50 + b ! 0] else push_data b) b"
proof -
  have "pushes [0x50 + t] [t]" if "1 \<le> t" "t \<le> 16" for t :: byte
    using byte_small_push[of "uint t"] that by (simp add: word_le_def)
  moreover have "pushes [0] []" by (rule pushes_opcode) (auto simp: stack_item_def)
  moreover have "b = [b ! 0]" if "length b = 1" using that by (cases b) auto
  ultimately show ?thesis using pushes_push_data[OF assms] by auto metis
qed

lemma to_script_hex_scalar:
  assumes "bn_lib_ok L" "is_scalar v"
  shows "\<exists>bs. to_script_hex L v (tag v) = Inr bs \<and>
    (length bs < 2 ^ 32 \<longrightarrow> (\<exists>d. pushes bs d \<and> item_of v d))"
proof (cases v)
  case (ArgInt n)
  then show ?thesis using ctor_int_push_ok[OF assms(1), of n] by (simp add: to_script_hex_def)
next
  case (ArgRabin n)
  then show ?thesis using ctor_int_push_ok[OF assms(1), of n] by (simp add: to_script_hex_def)
next
  case (ArgBool b)
  have "pushes [0x51] [1]" "pushes [0] []" by (rule pushes_opcode; auto simp: stack_item_def)+
  then show ?thesis using ArgBool by (auto simp: to_script_hex_def)
next
  case (ArgBytes t b)
  let ?o = "if length b = 0 then [0x00]
    else if length b = 1 \<and> b ! 0 \<ge> 1 \<and> b ! 0 \<le> 16 then [0x50 + b ! 0] else push_data b"
  have "length b < 2 ^ 32" if "length ?o < 2 ^ 32"
    using that length_push_data[of b] by (auto split: if_splits)
  moreover have "to_script_hex L v (tag v) = Inr ?o" using ArgBytes by (auto simp: to_script_hex_def)
  ultimately show ?thesis using bytes_push_ok[of b] ArgBytes by (metis item_of.simps(4))
qed (use assms(2) in auto)

lemma to_script_hex_compound: "\<not> is_scalar v \<Longrightarrow> to_script_hex L v ty = Inl BNS_EINVAL"
  by (cases v) (auto simp: to_script_hex_def)

section \<open>The state suffix\<close>

lemma state_value_push_scalar:
  assumes "bn_lib_ok L"
  shows "case state_value_push L ty v of
     Inl e \<Rightarrow> e = BNS_EINVAL \<and> (tag v \<noteq> ty \<or> \<not> is_scalar v) | Inr b \<Rightarrow> tag v = ty \<and> is_scalar v"
proof -
  have "\<exists>b. state_int_push L n = Inr b" for n
    using int2bytestring_minimal_spec[OF assms, of n] by (auto simp: state_int_push_def)
  then have n: "state_int_push L n \<noteq> Inl e" for n e by (metis sum.distinct(1))
  show ?thesis
    by (cases v) (auto simp: state_value_push_def n split: sum.split)
qed

text \<open>The reader a stateful contract uses: the length field stands before the version byte.\<close>

definition state_of_script :: "bytes \<Rightarrow> bytes" where
  "state_of_script scr =
     (let m = length scr - 5; n = nat (sm_val (take 4 (drop m scr))) in take n (drop (m - n) scr))"

lemma state_of_script_blob:
  assumes "length lf = 4" "sm_val lf = int (length body)"
  shows "state_of_script (pre @ body @ lf @ [v]) = body"
proof -
  let ?s = "pre @ body @ lf @ [v]"
  have "length ?s - 5 = length (pre @ body)" using assms(1) by simp
  moreover have "take 4 (drop (length (pre @ body)) ?s) = lf" using assms(1) by simp
  moreover have "nat (sm_val lf) = length body" using assms(2) by simp
  moreover have "take (length body) (drop (length (pre @ body) - length body) ?s) = body" by simp
  ultimately show ?thesis unfolding state_of_script_def Let_def by metis
qed

lemma build_state_shape:
  assumes "bn_lib_ok L" "build_state L ps vs g = Inr blob"
  obtains vals lf where "state_values_push L ps 0 vs = Inr vals" "length lf = 4"
    "sm_val lf = int (Suc (length vals))"
    "blob = (if g then 0x01 else 0x00) # vals @ lf @ [BONSAI_SCRYPT_STATE_VERSION]"
proof -
  obtain vals lf where v: "state_values_push L ps 0 vs = Inr vals"
      "int2bytestring_sized L (int (Suc (length vals))) 4 = Inr lf"
      "blob = (if g then 0x01 else 0x00) # vals @ lf @ [BONSAI_SCRYPT_STATE_VERSION]"
    using assms(2)
    by (auto simp: build_state_def res_bind_Inr_iff Let_def BONSAI_SCRYPT_STATE_LEN_WIDTH_def split: if_splits)
  with int2bytestring_sized_spec[OF assms(1), of "int (Suc (length vals))" 4]
  show thesis by (intro that[OF v(1) _ _ v(3)]) simp_all
qed

lemma build_state_succeeds:
  assumes "bn_lib_ok L" "state_values_push L ps 0 vs = Inr vals" "vs = [] \<or> ps \<noteq> []"
  shows "(\<exists>blob. build_state L ps vs g = Inr blob) \<longleftrightarrow> Suc (length vals) < 2 ^ 31"
proof -
  have "sm_fits (int (Suc (length vals))) 4 \<longleftrightarrow> Suc (length vals) < 2 ^ 31"
    by (simp add: sm_fits_def nat_add_distrib)
  then show ?thesis
    using int2bytestring_sized_spec[OF assms(1), of "int (Suc (length vals))" 4] assms(2,3)
    by (auto simp: build_state_def Let_def BONSAI_SCRYPT_STATE_LEN_WIDTH_def res_bind_Inr_iff split: sum.splits)
qed

section \<open>Templates\<close>

text \<open>
  A template is literal code with named holes; its text is what the compiler writes into
  the artifact.
\<close>

datatype tmpl_item = Code bytes | Hole string

fun render_item :: "tmpl_item \<Rightarrow> string" where
  "render_item (Code b) = hex_encode_loop b"
| "render_item (Hole nm) = ''<'' @ nm @ ''>''"

definition render :: "tmpl_item list \<Rightarrow> string" where
  "render its = concat (map render_item its)"

definition name_ok :: "string \<Rightarrow> bool" where
  "name_ok nm \<longleftrightarrow> CHR ''<'' \<notin> set nm \<and> CHR ''>'' \<notin> set nm"

fun item_ok :: "tmpl_item \<Rightarrow> bool" where
  "item_ok (Code b) = True"
| "item_ok (Hole nm) = name_ok nm"

lemma replace_marker_Nil [simp]: "replace_marker nm r [] = []"
  by (subst replace_marker.simps) simp

lemma replace_marker_hit: "replace_marker nm r (''<'' @ nm @ ''>'' @ s) = r @ replace_marker nm r s"
  by (subst replace_marker.simps) simp

lemma replace_marker_skip: "CHR ''<'' \<notin> set l \<Longrightarrow> replace_marker nm r (l @ s) = l @ replace_marker nm r s"
proof (induction l)
  case (Cons c l)
  then show ?case by (subst replace_marker.simps) (auto simp: Let_def)
qed simp

lemma replace_marker_miss:
  assumes "name_ok nm" "name_ok nm'" "nm \<noteq> nm'"
  shows "replace_marker nm r (''<'' @ nm' @ ''>'' @ s) = ''<'' @ nm' @ ''>'' @ replace_marker nm r s"
proof -
  let ?m = "''<'' @ nm @ ''>''" and ?t = "''<'' @ nm' @ ''>'' @ s"
  have "take (length ?m) ?t \<noteq> ?m"
  proof
    assume "take (length ?m) ?t = ?m"
    then have "?t = ?m @ drop (length ?m) ?t" by (metis append_take_drop_id)
    then have "nm' @ ''>'' @ s = nm @ ''>'' @ drop (length ?m) ?t" by simp
    then have "takeWhile (\<lambda>c. c \<noteq> CHR ''>'') (nm' @ ''>'' @ s) =
        takeWhile (\<lambda>c. c \<noteq> CHR ''>'') (nm @ ''>'' @ drop (length ?m) ?t)" by simp
    moreover have "takeWhile (\<lambda>c. c \<noteq> CHR ''>'') (n @ CHR ''>'' # x) = n" if "name_ok n" for n x
      using that by (subst takeWhile_append2) (auto simp: name_ok_def)
    ultimately show False using assms by simp
  qed
  then have "replace_marker nm r ?t = CHR ''<'' # replace_marker nm r ((nm' @ ''>'') @ s)"
    by (subst replace_marker.simps) (simp add: Let_def)
  then show ?thesis using assms(2) replace_marker_skip[of "nm' @ ''>''" nm r s]
    by (simp add: name_ok_def)
qed

lemma hex_no_marker: "CHR ''<'' \<notin> set (hex_encode_loop b)"
proof
  assume "CHR ''<'' \<in> set (hex_encode_loop b)"
  then have "is_hex_char (CHR ''<'')"
    using hex_decode_InrD[OF hex_decode_encode, of b] by (auto simp: list_all_iff)
  then show False by (simp add: is_hex_char_def hex_nibble_def)
qed

fun fill_item :: "string \<Rightarrow> bytes \<Rightarrow> tmpl_item \<Rightarrow> tmpl_item" where
  "fill_item nm b (Code c) = Code c"
| "fill_item nm b (Hole n) = (if n = nm then Code b else Hole n)"

lemma replace_marker_render:
  assumes "name_ok nm" "list_all item_ok its"
  shows "replace_marker nm (hex_encode_loop b) (render its) = render (map (fill_item nm b) its)"
  using assms(2)
proof (induction its)
  case (Cons it its)
  show ?case
  proof (cases it)
    case (Code c)
    then show ?thesis using Cons replace_marker_skip[OF hex_no_marker]
      by (simp add: render_def)
  next
    case (Hole n)
    have IH: "replace_marker nm (hex_encode_loop b) (concat (map render_item its)) =
        concat (map render_item (map (fill_item nm b) its))" using Cons by (simp add: render_def)
    show ?thesis
    proof (cases "n = nm")
      case True
      then show ?thesis using Hole IH replace_marker_hit[of nm "hex_encode_loop b"]
        by (simp add: render_def)
    next
      case False
      then show ?thesis using Hole IH Cons.prems replace_marker_miss[OF assms(1), of n "hex_encode_loop b"]
        by (simp add: render_def)
    qed
  qed
qed (simp add: render_def)

lemma fill_item_ok: "list_all item_ok its \<Longrightarrow> list_all item_ok (map (fill_item nm b) its)"
proof (induction its)
  case (Cons it its)
  then show ?case by (cases it) auto
qed simp

text \<open>Filling every hole from a list of named encodings, the first of a name winning.\<close>

definition fill :: "(string \<times> bytes) list \<Rightarrow> tmpl_item \<Rightarrow> tmpl_item" where
  "fill es it = (case it of Code b \<Rightarrow> Code b
     | Hole nm \<Rightarrow> (case map_of es nm of None \<Rightarrow> Hole nm | Some b \<Rightarrow> Code b))"

lemma fill_Cons: "fill es (fill_item nm b it) = fill ((nm, b) # es) it"
  by (cases it) (auto simp: fill_def)

definition leaf_encodes :: "bn_lib \<Rightarrow> scrypt_leaf_t \<Rightarrow> string \<times> bytes \<Rightarrow> bool" where
  "leaf_encodes L lf e \<longleftrightarrow> leaf_name lf = fst e \<and> name_ok (fst e) \<and>
     to_script_hex L (leaf_value lf) (tag (leaf_value lf)) = Inr (snd e) \<and>
     length (snd e) \<le> (SIZE_MAX - 1) div 2"

lemma substitute_leaves_render:
  "list_all2 (leaf_encodes L) lfs es \<Longrightarrow> list_all item_ok its \<Longrightarrow>
   substitute_leaves L lfs (render its) = Inr (render (map (fill es) its))"
proof (induction lfs es arbitrary: its rule: list_all2_induct)
  case Nil
  have "map (fill []) its = its"
    by (induction its) (auto simp: fill_def split: tmpl_item.split)
  then show ?case by simp
next
  case (Cons lf lfs e es)
  then have l: "name_ok (fst e)" "leaf_name lf = fst e" "hex_encode (snd e) = Some (hex_encode_loop (snd e))"
      "to_script_hex L (leaf_value lf) (tag (leaf_value lf)) = Inr (snd e)"
    by (auto simp: leaf_encodes_def hex_encode_small)
  show ?case using l Cons
    by (simp add: hex_template_replace_def replace_marker_render fill_item_ok fill_Cons comp_def)
qed

fun code_of :: "tmpl_item \<Rightarrow> bytes" where
  "code_of (Code b) = b"
| "code_of (Hole _) = []"

lemma hex_encode_loop_append: "hex_encode_loop (a @ b) = hex_encode_loop a @ hex_encode_loop b"
  by (induction a) auto

lemma hex_encode_loop_concat: "hex_encode_loop (concat bs) = concat (map hex_encode_loop bs)"
  by (induction bs) (auto simp: hex_encode_loop_append)

lemma hex_decode_filled:
  assumes "\<forall>nm. Hole nm \<in> set its \<longrightarrow> nm \<in> fst ` set es"
  shows "hex_decode (render (map (fill es) its)) = Inr (concat (map (code_of \<circ> fill es) its))"
proof -
  have "render_item (fill es it) = hex_encode_loop (code_of (fill es it))" if "it \<in> set its" for it
    using assms that by (cases it) (auto simp: fill_def map_of_eq_None_iff split: option.split)
  then have "render (map (fill es) its) = hex_encode_loop (concat (map (code_of \<circ> fill es) its))"
    by (simp add: render_def hex_encode_loop_concat comp_def cong: map_cong)
  then show ?thesis by (simp add: hex_decode_encode)
qed

section \<open>Properties\<close>

text \<open>
  A scalar constructor argument of any type encodes; unless the encoding exceeds the
  four-byte push length, it is a script that parses as exactly one chunk, and executing that
  chunk pushes the argument: the shortest script number with the integer's value, the one-byte
  or empty item of the boolean, or the byte string itself. A compound argument is refused
  with \<^verbatim>\<open>BNS_EINVAL\<close>.
\<close>

theorem to_script_hex_pushes:
  assumes "bn_lib_ok L"
  shows "case to_script_hex L v (tag v) of
      Inl e \<Rightarrow> e = BNS_EINVAL \<and> \<not> is_scalar v
    | Inr bs \<Rightarrow> is_scalar v \<and> (length bs < 2 ^ 32 \<longrightarrow> (\<exists>d. pushes bs d \<and> item_of v d))"
  using to_script_hex_scalar[OF assms, of v] to_script_hex_compound[of v L "tag v"]
  by (cases "is_scalar v") auto

theorem to_script_hex_pushes_witness:
  "to_script_hex bn_reference (ArgInt (-200)) SCRYPT_TYPE_INT = Inr [2, 0xc8, 0x80] \<and>
   (\<exists>d. pushes [2, 0xc8, 0x80] d \<and> sm_val d = -200)"
proof -
  have e: "to_script_hex bn_reference (ArgInt (-200)) SCRYPT_TYPE_INT = Inr [2, 0xc8, 0x80]"
    by code_simp
  then show ?thesis using to_script_hex_pushes[OF bn_reference_ok, of "ArgInt (-200)"] by auto
qed

text \<open>
  The data part of a stateful contract can be read back from the end of the script: when
  the state values encode to \<open>vals\<close>, the state blob exists exactly when it is shorter than
  \<open>2\<^sup>3\<^sup>1\<close> bytes, it ends in the version byte, and reading the length field before that byte
  recovers the genesis flag and the values whatever code precedes the blob.
\<close>

theorem build_state_recoverable:
  assumes "bn_lib_ok L" "state_values_push L ps 0 vs = Inr vals" "vs = [] \<or> ps \<noteq> []"
  shows "case build_state L ps vs g of
      Inl e \<Rightarrow> e = BNS_ERANGE \<and> 2 ^ 31 \<le> Suc (length vals)
    | Inr blob \<Rightarrow> Suc (length vals) < 2 ^ 31 \<and> last blob = BONSAI_SCRYPT_STATE_VERSION \<and>
        length blob = length vals + 6 \<and>
        state_of_script (code @ [0x6a] @ blob) = (if g then 1 else 0) # vals"
proof (cases "build_state L ps vs g")
  case (Inl e)
  then have "e = BNS_ERANGE" using assms(2,3)
      int2bytestring_sized_spec[OF assms(1), of "int (Suc (length vals))" 4]
    by (auto simp: build_state_def Let_def res_bind_Inl_iff BONSAI_SCRYPT_STATE_LEN_WIDTH_def split: if_splits)
  then show ?thesis using Inl build_state_succeeds[OF assms, of g] by simp
next
  case (Inr blob)
  obtain lf where lf: "length lf = 4" "sm_val lf = int (Suc (length vals))"
    "blob = (if g then 0x01 else 0x00) # vals @ lf @ [BONSAI_SCRYPT_STATE_VERSION]"
    using build_state_shape[OF assms(1) Inr] assms(2) by auto
  let ?b = "(if g then 0x01 else 0x00) # vals"
  have "state_of_script ((code @ [0x6a]) @ ?b @ lf @ [BONSAI_SCRYPT_STATE_VERSION]) = ?b"
    using lf by (intro state_of_script_blob) auto
  then show ?thesis using Inr lf build_state_succeeds[OF assms, of g] by simp
qed

theorem build_state_recoverable_witness:
  "state_of_script ([0xaa, 0xbb] @ [0x6a] @ [1, 1, 5, 3, 0, 0, 0, 0]) = [1, 1, 5]"
proof -
  let ?p = "[\<lparr>param_name = ''n'', param_type = SCRYPT_TYPE_INT, type_name = ''int''\<rparr>]"
  have v: "state_values_push bn_reference ?p 0 [ArgInt 5] = Inr [1, 5]" by code_simp
  have b: "build_state bn_reference ?p [ArgInt 5] True = Inr [1, 1, 5, 3, 0, 0, 0, 0]" by code_simp
  show ?thesis
    using build_state_recoverable[OF bn_reference_ok v _, where g = True and code = "[0xaa, 0xbb]"] b by simp
qed

text \<open>
  C26. Reconstruction substitutes exactly: when the artifact's template is the text of a
  sequence of code fragments and holes, the flattened constructor leaves have encodings
  \<open>es\<close>, and every hole is named by some leaf, the locking script is the fragments with each
  hole replaced by the encoding of its leaf (the first of that name), followed for a stateful
  contract by the separator and the state blob. A stateful contract must not get more state values
  than it has state properties, which the code does not check before it reads them.
\<close>

theorem reconstruct_locking_script_correct:
  assumes "flatten_args art cvs = Inr lfs" "list_all2 (leaf_encodes L) lfs es"
    and "hex_template art = render its" "list_all item_ok its"
    and "\<forall>nm. Hole nm \<in> set its \<longrightarrow> nm \<in> fst ` set es"
    and "stateful art \<longrightarrow> length svs \<le> length (state_props art)"
  shows "reconstruct_locking_script L art cvs svs g =
    (let code = concat (map (code_of \<circ> fill es) its) in
     if stateful art then
       res_bind (build_state L (state_props art) svs g) (\<lambda>st. Inr (code @ [0x6a] @ st))
     else Inr code)"
  using assms(1,3) substitute_leaves_render[OF assms(2,4)] hex_decode_filled[OF assms(5)]
  by (simp add: reconstruct_locking_script_def Let_def)

definition demo_artifact :: scrypt_artifact_t where
  "demo_artifact = \<lparr>contract = ''Demo'', hex_template = ''51<p.x><p.y>52'',
     ctor_params = [\<lparr>param_name = ''p'', param_type = SCRYPT_TYPE_STRUCT, type_name = ''Pt''\<rparr>],
     structs = [\<lparr>struct_name = ''Pt'', struct_fields =
       [\<lparr>param_name = ''x'', param_type = SCRYPT_TYPE_INT, type_name = ''int''\<rparr>,
        \<lparr>param_name = ''y'', param_type = SCRYPT_TYPE_BYTES, type_name = ''bytes''\<rparr>]\<rparr>],
     state_props = [\<lparr>param_name = ''n'', param_type = SCRYPT_TYPE_INT, type_name = ''int''\<rparr>], stateful = True\<rparr>"

theorem reconstruct_locking_script_correct_witness:
  "reconstruct_locking_script bn_reference demo_artifact
     [ArgStruct ''Pt'' [ArgInt 300, ArgBytes TagBytes [7, 8]]] [ArgInt 5] True =
   Inr [0x51, 2, 0x2c, 1, 2, 7, 8, 0x52, 0x6a, 1, 1, 5, 3, 0, 0, 0, 0]"
proof -
  let ?v = "[ArgStruct ''Pt'' [ArgInt 300, ArgBytes TagBytes [7, 8]]]"
  let ?l = "[\<lparr>leaf_name = ''p.x'', leaf_value = ArgInt 300\<rparr>,
    \<lparr>leaf_name = ''p.y'', leaf_value = ArgBytes TagBytes [7, 8]\<rparr>]"
  let ?e = "[(''p.x'', [2, 0x2c, 1]), (''p.y'', [2, 7, 8])] :: (string \<times> bytes) list"
  let ?t = "[Code [0x51], Hole ''p.x'', Hole ''p.y'', Code [0x52]]"
  have 1: "flatten_args demo_artifact ?v = Inr ?l" by code_simp
  have 2: "list_all2 (leaf_encodes bn_reference) ?l ?e"
  proof -
    have "to_script_hex bn_reference (ArgInt 300) SCRYPT_TYPE_INT = Inr [2, 0x2c, 1]"
      "to_script_hex bn_reference (ArgBytes TagBytes [7, 8]) SCRYPT_TYPE_BYTES = Inr [2, 7, 8]"
      by code_simp+
    then show ?thesis by (simp add: leaf_encodes_def name_ok_def SIZE_MAX_def)
  qed
  have 3: "hex_template demo_artifact = render ?t" by code_simp
  have 4: "list_all item_ok ?t" by (simp add: name_ok_def)
  have 5: "\<forall>nm. Hole nm \<in> set ?t \<longrightarrow> nm \<in> fst ` set ?e" by auto
  have 6: "stateful demo_artifact \<longrightarrow> length [ArgInt 5] \<le> length (state_props demo_artifact)"
    by (simp add: demo_artifact_def)
  have b: "build_state bn_reference (state_props demo_artifact) [ArgInt 5] True = Inr [1, 1, 5, 3, 0, 0, 0, 0]"
    "stateful demo_artifact" by code_simp+
  have "concat (map (code_of \<circ> fill ?e) ?t) = [0x51, 2, 0x2c, 1, 2, 7, 8, 0x52]" by code_simp
  then show ?thesis
    using reconstruct_locking_script_correct[OF 1 2 3 4 5 6, of True] b by simp
qed

text \<open>
  The constructor and state integer encoders agree exactly outside the range
  \<open>-1 \<dots> 16\<close> that has opcodes of its own.
\<close>

theorem ctor_state_int_agree:
  assumes "bn_lib_ok L"
  shows "ctor_int_push L n = state_int_push L n \<longleftrightarrow> n < -1 \<or> 16 < n"
proof -
  obtain b where b: "int2bytestring_minimal L n = Inr b" "sm_val b = n"
    using int2bytestring_minimal_spec[OF assms, of n] by auto
  have len: "Suc (length d) \<le> length (push_data d)" for d by (simp add: push_data_def Let_def)
  have ne: "[x] \<noteq> push_data b" if "n \<noteq> 0" for x
    using len[of b] b(2) that by (cases b) (auto simp: sm_val_def dest: arg_cong[of _ _ length])
  consider "n = 0" | "n = -1" | "1 \<le> n \<and> n \<le> 16" | "n < -1 \<or> 16 < n" by linarith
  then show ?thesis
  proof cases
    case 1
    then show ?thesis by (simp add: ctor_int_push_def state_int_push_def push_data_def)
  next
    case 2
    then show ?thesis using b ne[of "0x4f"] by (simp add: ctor_int_push_def state_int_push_def)
  next
    case 3
    then have "b = [word_of_int n]" using minimal_small_int[OF assms] b by auto
    then show ?thesis using 3 b ne[of "0x50 + word_of_int n"]
      by (simp add: ctor_int_push_def state_int_push_def)
  next
    case 4
    then show ?thesis using b by (auto simp: ctor_int_push_def state_int_push_def)
  qed
qed

theorem ctor_state_int_agree_witness:
  "ctor_int_push bn_reference 17 = state_int_push bn_reference 17 \<and>
   ctor_int_push bn_reference 16 \<noteq> state_int_push bn_reference 16"
  using ctor_state_int_agree[OF bn_reference_ok, of 17] ctor_state_int_agree[OF bn_reference_ok, of 16]
  by simp

end
