(* ===== verification/Oracle.thy ===== *)
theory Oracle
  imports TxBuild
begin

text \<open>
  The chain data source interface, the revocation oracle of
  \<^verbatim>\<open>src/broker/chain_revocation_oracle.c\<close>, and the identity view of
  \<^verbatim>\<open>src/broker/identity_chain_view.c\<close>. A chain source is a record of functions: what the
  provider answers during one call. It is an argument of every operation that reads the
  chain, so that the chain may grow, and the provider may fail, between calls.
\<close>

section \<open>Chain source\<close>

text \<open>\<open>Inr None\<close> is the \<^verbatim>\<open>NULL\<close> out-pointer with \<^verbatim>\<open>BNS_OK\<close>; the flag is the
  test of the optional function pointer.\<close>

record chain_source_t =
  get_raw_tx :: "string \<Rightarrow> string option res"
  get_time :: "string \<Rightarrow> int res"
  has_spend_index :: bool
  get_spending_txid :: "string \<Rightarrow> u32 \<Rightarrow> string option res"

section \<open>Revocation oracle\<close>

record chain_revocation_oracle_t =
  identity_vout :: u32
  max_hops :: nat
  revoked :: "string list"
  live_tips :: "(string \<times> string) list"

definition chain_revocation_oracle_new ::
  "chain_source_t \<Rightarrow> u32 option \<Rightarrow> nat option \<Rightarrow> chain_revocation_oracle_t res" where
  "chain_revocation_oracle_new src opt_vout opt_max_hops =
     (if \<not> has_spend_index src then Inl BNS_EINVAL
      else Inr \<lparr>identity_vout = (case opt_vout of Some v \<Rightarrow> v | None \<Rightarrow> 0),
                max_hops = (case opt_max_hops of Some h \<Rightarrow> h | None \<Rightarrow> 100000),
                revoked = [], live_tips = []\<rparr>)"

definition revoked_has :: "chain_revocation_oracle_t \<Rightarrow> string \<Rightarrow> bool" where
  "revoked_has ora genesis = list_ex (\<lambda>r. r = genesis) (revoked ora)"

definition revoked_add :: "chain_revocation_oracle_t \<Rightarrow> string \<Rightarrow> chain_revocation_oracle_t" where
  "revoked_add ora genesis =
     (if revoked_has ora genesis then ora else ora\<lparr>revoked := revoked ora @ [genesis]\<rparr>)"

definition live_tip_find :: "chain_revocation_oracle_t \<Rightarrow> string \<Rightarrow> nat option" where
  "live_tip_find ora genesis = find_idx (\<lambda>e. fst e = genesis) (live_tips ora)"

definition live_tip_set :: "chain_revocation_oracle_t \<Rightarrow> string \<Rightarrow> string \<Rightarrow> chain_revocation_oracle_t" where
  "live_tip_set ora genesis tip =
     (case live_tip_find ora genesis of
        Some i \<Rightarrow> ora\<lparr>live_tips := (live_tips ora)[i := (fst (live_tips ora ! i), tip)]\<rparr>
      | None \<Rightarrow> ora\<lparr>live_tips := live_tips ora @ [(genesis, tip)]\<rparr>)"

text \<open>The hole is filled with the last entry.\<close>

definition live_tip_delete :: "chain_revocation_oracle_t \<Rightarrow> string \<Rightarrow> chain_revocation_oracle_t" where
  "live_tip_delete ora genesis =
     (case live_tip_find ora genesis of
        Some i \<Rightarrow> ora\<lparr>live_tips := butlast ((live_tips ora)[i := last (live_tips ora)])\<rparr>
      | None \<Rightarrow> ora)"

text \<open>
  The forward walk: how it ended, or the error that stopped it. The first argument counts
  the hops that are left.
\<close>

datatype walk_end = Live_at string | Terminal

fun revocation_walk :: "nat \<Rightarrow> chain_source_t \<Rightarrow> u32 \<Rightarrow> string \<Rightarrow> walk_end res" where
  "revocation_walk 0 src vo txid = Inl BNS_EHOPLIMIT"
| "revocation_walk (Suc hops) src vo txid =
     res_bind (get_spending_txid src txid vo) (\<lambda>spender.
     case spender of
       None \<Rightarrow> Inr (Live_at txid)
     | Some sp \<Rightarrow>
         res_bind (get_raw_tx src sp) (\<lambda>raw.
         case raw of
           None \<Rightarrow> Inl BNS_ENET
         | Some raw \<Rightarrow> if is_terminal_spend raw then Inr Terminal
                       else revocation_walk hops src vo sp))"

definition chain_revocation_oracle_is_revoked ::
  "chain_source_t \<Rightarrow> chain_revocation_oracle_t \<Rightarrow> string \<Rightarrow> chain_revocation_oracle_t \<times> bool res" where
  "chain_revocation_oracle_is_revoked src ora genesis =
     (if revoked_has ora genesis then (ora, Inr True)
      else
        let txid = (case live_tip_find ora genesis of Some i \<Rightarrow> snd (live_tips ora ! i) | None \<Rightarrow> genesis) in
        case revocation_walk (max_hops ora) src (identity_vout ora) txid of
          Inl e \<Rightarrow> (ora, Inl e)
        | Inr (Live_at tip) \<Rightarrow> (live_tip_set ora genesis tip, Inr False)
        | Inr Terminal \<Rightarrow> (live_tip_delete (revoked_add ora genesis) genesis, Inr True))"

section \<open>Identity view\<close>

text \<open>\<^verbatim>\<open>strcasecmp\<close> in the C locale compares under this map.\<close>

definition tolower :: "char \<Rightarrow> char" where
  "tolower ch = (let c = of_char ch :: nat in if 65 \<le> c \<and> c \<le> 90 then char_of (c + 32) else ch)"

type_synonym identity_chain_view_t = "string \<Rightarrow> u32 \<Rightarrow> string option res"

definition csiv_get_identity_script_hex :: "chain_source_t \<Rightarrow> identity_chain_view_t" where
  "csiv_get_identity_script_hex src genesis_txid vo =
     res_bind (get_raw_tx src genesis_txid) (\<lambda>raw.
     case raw of
       None \<Rightarrow> Inl BNS_ENET
     | Some raw \<Rightarrow>
         res_bind (tx_deserialize raw) (\<lambda>tx.
         if unat vo \<ge> length (outputs tx) then Inl BNS_ENOTFOUND
         else case hex_encode (script (outputs tx ! unat vo)) of
             None \<Rightarrow> Inl BNS_ENOMEM
           | Some hex \<Rightarrow> Inr (Some hex)))"

definition IDVIEW_REASON_MISMATCH :: string where
  "IDVIEW_REASON_MISMATCH =
     ''on-chain locking script does not match the expected script (charter/param mismatch)''"

definition IDVIEW_REASON_UNREACHABLE_PREFIX :: string where
  "IDVIEW_REASON_UNREACHABLE_PREFIX = ''chain unreachable (fail-closed): ''"

text \<open>The caller's buffer of \<open>sz\<close> characters, the last one for the terminator.\<close>

definition copy_reason :: "nat \<Rightarrow> string \<Rightarrow> string" where
  "copy_reason sz src = take (sz - 1) src"

fun idview_message :: "bonsai_err_t \<Rightarrow> string" where
  "idview_message BNS_ENOTFOUND = ''identity output not found''"
| "idview_message BNS_ENET = ''chain read failed''"
| "idview_message BNS_EPARSE = ''malformed transaction''"
| "idview_message BNS_ENOMEM = ''out of memory''"
| "idview_message BNS_EINVAL = ''invalid argument''"
| "idview_message e = bns_err_name e"

text \<open>A view that yields \<^verbatim>\<open>NULL\<close> with \<^verbatim>\<open>BNS_OK\<close> is reported under that code's name.\<close>

definition verify_identity_script_on_chain ::
  "identity_chain_view_t \<Rightarrow> string \<Rightarrow> u32 \<Rightarrow> string \<Rightarrow> nat \<Rightarrow> bool \<times> string" where
  "verify_identity_script_on_chain view identity_id vo expected reason_sz =
     (case view identity_id vo of
        Inr (Some on_chain) \<Rightarrow>
          if map tolower on_chain \<noteq> map tolower expected
          then (False, copy_reason reason_sz IDVIEW_REASON_MISMATCH)
          else (True, '''')
      | Inr None \<Rightarrow> (False, copy_reason reason_sz
          (IDVIEW_REASON_UNREACHABLE_PREFIX @ idview_message BNS_OK))
      | Inl e \<Rightarrow> (False, copy_reason reason_sz (IDVIEW_REASON_UNREACHABLE_PREFIX @ idview_message e)))"

section \<open>The ledger a source reports\<close>

text \<open>
  What is true of the chain at some moment, for the identity output index: which transaction
  spends that output of a transaction, and the raw form of a transaction. The ledger only
  grows; an honest source either fails or tells the truth about it.
\<close>

record ledger =
  spent_by :: "string \<Rightarrow> string option"
  raw_of :: "string \<Rightarrow> string option"

definition grows :: "ledger \<Rightarrow> ledger \<Rightarrow> bool" where
  "grows L L' \<longleftrightarrow> spent_by L \<subseteq>\<^sub>m spent_by L' \<and> raw_of L \<subseteq>\<^sub>m raw_of L'"

definition honest :: "chain_source_t \<Rightarrow> u32 \<Rightarrow> ledger \<Rightarrow> bool" where
  "honest src vo L \<longleftrightarrow>
     (\<forall>t x. get_spending_txid src t vo = Inr x \<longrightarrow> x = spent_by L t) \<and>
     (\<forall>t r. get_raw_tx src t = Inr (Some r) \<longrightarrow> raw_of L t = Some r)"

text \<open>A source that always answers.\<close>

definition answers :: "chain_source_t \<Rightarrow> u32 \<Rightarrow> ledger \<Rightarrow> bool" where
  "answers src vo L \<longleftrightarrow> (\<forall>t. get_spending_txid src t vo = Inr (spent_by L t)) \<and>
     (\<forall>t r. raw_of L t = Some r \<longrightarrow> get_raw_tx src t = Inr (Some r))"

text \<open>The identity moves on: its output is spent by a transaction that recreates it.\<close>

inductive continues :: "ledger \<Rightarrow> string \<Rightarrow> string \<Rightarrow> bool" for L where
  stay: "continues L t t"
| move: "spent_by L t = Some s \<Longrightarrow> raw_of L s = Some r \<Longrightarrow> \<not> is_terminal_spend r \<Longrightarrow>
    continues L s t' \<Longrightarrow> continues L t t'"

text \<open>The identity is dissolved: some recreation of it was spent by a terminal transaction.\<close>

definition dissolved :: "ledger \<Rightarrow> string \<Rightarrow> bool" where
  "dissolved L g \<longleftrightarrow> (\<exists>t s r. continues L g t \<and> spent_by L t = Some s \<and> raw_of L s = Some r \<and> is_terminal_spend r)"

lemma continues_trans: "continues L a b \<Longrightarrow> continues L b c \<Longrightarrow> continues L a c"
  by (induction rule: continues.induct) (auto intro: continues.intros)

lemma continues_mono: "continues L a b \<Longrightarrow> grows L L' \<Longrightarrow> continues L' a b"
  by (induction rule: continues.induct)
    (auto simp: grows_def map_le_def dom_def intro: continues.intros)

lemma dissolved_mono: "dissolved L g \<Longrightarrow> grows L L' \<Longrightarrow> dissolved L' g"
proof -
  assume a: "dissolved L g" "grows L L'"
  then obtain t s r where t: "continues L g t" "spent_by L t = Some s" "raw_of L s = Some r" "is_terminal_spend r"
    by (auto simp: dissolved_def)
  moreover have "spent_by L' t = Some s" "raw_of L' s = Some r"
    using t a(2) by (auto simp: grows_def map_le_def dom_def)
  ultimately show ?thesis using continues_mono[OF t(1) a(2)] by (auto simp: dissolved_def)
qed

text \<open>Walks do not branch.\<close>

lemma continues_det:
  "continues L g t \<Longrightarrow> continues L g t' \<Longrightarrow> continues L t t' \<or> continues L t' t"
proof (induction rule: continues.induct)
  case (move t s r u)
  from move.prems show ?case
  proof cases
    case stay
    then show ?thesis using move.hyps by (blast intro: continues.intros)
  next
    case (move s' r')
    then show ?thesis using \<open>spent_by L t = Some s\<close> \<open>continues L s t' \<Longrightarrow> _\<close> by simp
  qed
qed simp

lemma continues_unspent: "continues L t t' \<Longrightarrow> spent_by L t = None \<Longrightarrow> t' = t"
  by (induction rule: continues.induct) auto

lemma live_not_dissolved:
  assumes "continues L g t" "spent_by L t = None"
  shows "\<not> dissolved L g"
proof
  assume "dissolved L g"
  then obtain u s r where u: "continues L g u" "spent_by L u = Some s" "raw_of L s = Some r" "is_terminal_spend r"
    by (auto simp: dissolved_def)
  from continues_det[OF assms(1) u(1)] show False
  proof
    assume "continues L t u"
    then show False using continues_unspent[of L t u] assms(2) u(2) by simp
  next
    assume "continues L u t"
    then show False
    proof cases
      case stay
      then show ?thesis using assms(2) u(2) by simp
    next
      case (move s' r')
      then show ?thesis using u by simp
    qed
  qed
qed

lemma dissolved_continues: "continues L g t \<Longrightarrow> dissolved L t \<Longrightarrow> dissolved L g"
  unfolding dissolved_def using continues_trans by blast

lemma walk_sound:
  assumes "honest src vo L"
  shows "revocation_walk h src vo t = Inr w \<Longrightarrow>
    (case w of Live_at t' \<Rightarrow> continues L t t' \<and> spent_by L t' = None | Terminal \<Rightarrow> dissolved L t)"
proof (induction h arbitrary: t)
  case (Suc h)
  obtain x where x: "get_spending_txid src t vo = Inr x" "spent_by L t = x"
    using Suc.prems assms by (auto simp: res_bind_Inr_iff honest_def)
  show ?case
  proof (cases x)
    case None
    then show ?thesis using Suc.prems x by (auto intro: continues.intros)
  next
    case (Some s)
    with Suc.prems x obtain r where r: "get_raw_tx src s = Inr (Some r)"
      and w: "if is_terminal_spend r then w = Terminal else revocation_walk h src vo s = Inr w"
      by (auto simp: res_bind_Inr_iff split: option.splits if_splits)
    have r': "raw_of L s = Some r" using assms r by (auto simp: honest_def)
    have s: "spent_by L t = Some s" using x Some by simp
    show ?thesis
    proof (cases "is_terminal_spend r")
      case True
      then show ?thesis using w r' s by (auto simp: dissolved_def intro: continues.intros)
    next
      case False
      then have c: "continues L t s" using continues.move[OF s r' False] continues.stay by simp
      from False Suc.IH[of s] w show ?thesis using c continues_trans[OF c] dissolved_continues[OF c]
        by (auto split: walk_end.splits)
    qed
  qed
qed simp

section \<open>Oracle invariant\<close>

definition oracle_inv :: "ledger \<Rightarrow> chain_revocation_oracle_t \<Rightarrow> bool" where
  "oracle_inv L ora \<longleftrightarrow> (\<forall>g \<in> set (revoked ora). dissolved L g) \<and>
     (\<forall>(g, tip) \<in> set (live_tips ora). continues L g tip)"

lemma oracle_inv_mono: "oracle_inv L ora \<Longrightarrow> grows L L' \<Longrightarrow> oracle_inv L' ora"
  by (auto simp: oracle_inv_def intro: continues_mono dissolved_mono)

lemma oracle_inv_new: "chain_revocation_oracle_new src v h = Inr ora \<Longrightarrow> oracle_inv L ora"
  by (auto simp: chain_revocation_oracle_new_def oracle_inv_def split: if_splits)

lemma live_tip_set_inv:
  assumes "oracle_inv L ora" "continues L g tip"
  shows "oracle_inv L (live_tip_set ora g tip)"
proof (cases "live_tip_find ora g")
  case None
  then show ?thesis using assms by (auto simp: live_tip_set_def oracle_inv_def)
next
  case (Some i)
  then have "fst (live_tips ora ! i) = g" by (auto simp: live_tip_find_def dest: find_idx_Some)
  then show ?thesis using Some assms
    by (auto simp: live_tip_set_def oracle_inv_def dest!: set_update_subset_insert[THEN subsetD])
qed

lemma live_tip_delete_inv: "oracle_inv L ora \<Longrightarrow> oracle_inv L (live_tip_delete ora g)"
proof (cases "live_tip_find ora g")
  case (Some i)
  assume inv: "oracle_inv L ora"
  have "live_tips ora \<noteq> []" using Some by (auto simp: live_tip_find_def)
  then have "set (butlast ((live_tips ora)[i := last (live_tips ora)])) \<subseteq> set (live_tips ora)"
    by (auto dest!: in_set_butlastD set_update_subset_insert[THEN subsetD])
  then show ?thesis using Some inv by (auto simp: live_tip_delete_def oracle_inv_def)
qed (simp add: live_tip_delete_def)

lemma revoked_add_inv: "oracle_inv L ora \<Longrightarrow> dissolved L g \<Longrightarrow> oracle_inv L (revoked_add ora g)"
  by (auto simp: revoked_add_def oracle_inv_def)

lemma resume_continues:
  assumes "oracle_inv L ora"
  shows "continues L g (case live_tip_find ora g of Some i \<Rightarrow> snd (live_tips ora ! i) | None \<Rightarrow> g)"
proof (cases "live_tip_find ora g")
  case None
  then show ?thesis by (simp add: continues.stay)
next
  case (Some i)
  then have i: "i < length (live_tips ora)" "fst (live_tips ora ! i) = g"
    by (auto simp: live_tip_find_def dest: find_idx_Some)
  then have "(g, snd (live_tips ora ! i)) \<in> set (live_tips ora)" by (metis nth_mem prod.collapse)
  then show ?thesis using assms Some by (auto simp: oracle_inv_def)
qed

lemma is_revoked_sound:
  assumes "oracle_inv L ora" "honest src (identity_vout ora) L"
    and "chain_revocation_oracle_is_revoked src ora g = (ora', res)"
  shows "oracle_inv L ora' \<and> identity_vout ora' = identity_vout ora \<and> max_hops ora' = max_hops ora \<and>
    (case res of Inl e \<Rightarrow> ora' = ora | Inr b \<Rightarrow> b \<longleftrightarrow> dissolved L g)"
proof (cases "revoked_has ora g")
  case True
  then have "dissolved L g" using assms(1) by (auto simp: revoked_has_def oracle_inv_def list_ex_iff)
  then show ?thesis using True assms by (auto simp: chain_revocation_oracle_is_revoked_def)
next
  case False
  define t where "t = (case live_tip_find ora g of Some i \<Rightarrow> snd (live_tips ora ! i) | None \<Rightarrow> g)"
  have c: "continues L g t" unfolding t_def by (rule resume_continues[OF assms(1)])
  have e: "(ora', res) = (case revocation_walk (max_hops ora) src (identity_vout ora) t of
      Inl e \<Rightarrow> (ora, Inl e) | Inr (Live_at tip) \<Rightarrow> (live_tip_set ora g tip, Inr False)
    | Inr Terminal \<Rightarrow> (live_tip_delete (revoked_add ora g) g, Inr True))"
    using assms(3) False by (simp add: chain_revocation_oracle_is_revoked_def t_def)
  have keep: "identity_vout (live_tip_set ora g tip) = identity_vout ora"
    "max_hops (live_tip_set ora g tip) = max_hops ora"
    "identity_vout (live_tip_delete (revoked_add ora g) g) = identity_vout ora"
    "max_hops (live_tip_delete (revoked_add ora g) g) = max_hops ora" for tip
    by (auto simp: live_tip_set_def live_tip_delete_def revoked_add_def split: option.splits)
  show ?thesis
  proof (cases "revocation_walk (max_hops ora) src (identity_vout ora) t")
    case (Inl er)
    then show ?thesis using e assms(1) by simp
  next
    case (Inr w)
    note ws = walk_sound[OF assms(2) Inr]
    show ?thesis
    proof (cases w)
      case (Live_at tip)
      then have l: "continues L g tip" "spent_by L tip = None" using ws continues_trans[OF c] by auto
      then show ?thesis using e Inr Live_at keep live_tip_set_inv[OF assms(1) l(1)] live_not_dissolved[OF l]
        by simp
    next
      case Terminal
      then have d: "dissolved L g" using ws dissolved_continues[OF c] by simp
      then show ?thesis using e Inr Terminal keep live_tip_delete_inv revoked_add_inv[OF assms(1) d] by simp
    qed
  qed
qed

text \<open>The states an oracle goes through while the ledger grows and sources may fail.\<close>

inductive oracle_reach :: "ledger \<Rightarrow> chain_revocation_oracle_t \<Rightarrow> bool" where
  new: "chain_revocation_oracle_new src v h = Inr ora \<Longrightarrow> oracle_reach L ora"
| query: "oracle_reach L ora \<Longrightarrow> grows L L' \<Longrightarrow> honest src (identity_vout ora) L' \<Longrightarrow>
    oracle_reach L' (fst (chain_revocation_oracle_is_revoked src ora g))"

lemma oracle_reach_inv: "oracle_reach L ora \<Longrightarrow> oracle_inv L ora"
proof (induction rule: oracle_reach.induct)
  case (new src v h ora L)
  then show ?case by (rule oracle_inv_new)
next
  case (query L ora L' src g)
  then show ?case
    using is_revoked_sound[OF oracle_inv_mono query.hyps(3), of L]
    by (metis prod.collapse)
qed

text \<open>The identity's history fits in \<open>h\<close> hops.\<close>

inductive ends_within :: "ledger \<Rightarrow> string \<Rightarrow> nat \<Rightarrow> bool" for L where
  unspent: "spent_by L t = None \<Longrightarrow> ends_within L t (Suc n)"
| final: "spent_by L t = Some s \<Longrightarrow> raw_of L s = Some r \<Longrightarrow> is_terminal_spend r \<Longrightarrow> ends_within L t (Suc n)"
| hop: "spent_by L t = Some s \<Longrightarrow> raw_of L s = Some r \<Longrightarrow> ends_within L s n \<Longrightarrow> ends_within L t (Suc n)"

lemma walk_total:
  "ends_within L t h \<Longrightarrow> answers src vo L \<Longrightarrow> \<exists>w. revocation_walk h src vo t = Inr w"
  by (induction rule: ends_within.induct) (auto simp: answers_def)

lemma ends_within_Suc: "ends_within L t h \<Longrightarrow> ends_within L t (Suc h)"
  by (induction rule: ends_within.induct) (auto intro: ends_within.intros)

lemma ends_within_continues: "continues L g t \<Longrightarrow> ends_within L g h \<Longrightarrow> ends_within L t h"
proof (induction arbitrary: h rule: continues.induct)
  case (move t s r t')
  from move.prems show ?case
  proof cases
    case (hop s' r' n)
    then show ?thesis using move ends_within_Suc by simp
  qed (use move in auto)
qed

section \<open>The interface to the broker\<close>

locale revocation_oracle =
  fixes is_revoked :: "'o \<Rightarrow> string \<Rightarrow> 'o \<times> bool res"
    and inv :: "'o \<Rightarrow> bool"
    and gone :: "string \<Rightarrow> bool"
  assumes answer: "inv ora \<Longrightarrow> is_revoked ora g = (ora', Inr b) \<Longrightarrow> b \<longleftrightarrow> gone g"
    and keeps: "inv ora \<Longrightarrow> inv (fst (is_revoked ora g))"

definition oracle_trusts :: "chain_source_t \<Rightarrow> ledger \<Rightarrow> chain_revocation_oracle_t \<Rightarrow> bool" where
  "oracle_trusts src L ora \<longleftrightarrow> oracle_inv L ora \<and> honest src (identity_vout ora) L"

interpretation cro: revocation_oracle
  "chain_revocation_oracle_is_revoked src" "oracle_trusts src L" "dissolved L" for src L
proof
  fix ora g ora' b
  assume "oracle_trusts src L ora" "chain_revocation_oracle_is_revoked src ora g = (ora', Inr b)"
  then show "b \<longleftrightarrow> dissolved L g"
    using is_revoked_sound[of L ora src g ora' "Inr b"] by (simp add: oracle_trusts_def)
next
  fix ora g
  assume "oracle_trusts src L ora"
  then show "oracle_trusts src L (fst (chain_revocation_oracle_is_revoked src ora g))"
    using is_revoked_sound[of L ora src g "fst (chain_revocation_oracle_is_revoked src ora g)"
        "snd (chain_revocation_oracle_is_revoked src ora g)"] by (simp add: oracle_trusts_def)
qed

section \<open>Properties\<close>

text \<open>
  C6. Every answer of the oracle is the truth about the chain, caches and resumed walks
  included: in any state reached by queries against a growing ledger through sources that
  either fail or report truthfully, a query that does not fail answers whether the identity
  has been dissolved by a terminal spend; a query that fails changes nothing.
\<close>

theorem revocation_answers_true:
  assumes "oracle_reach L ora" "honest src (identity_vout ora) L"
  shows "case chain_revocation_oracle_is_revoked src ora g of
      (ora', Inl e) \<Rightarrow> ora' = ora
    | (ora', Inr b) \<Rightarrow> b \<longleftrightarrow> dissolved L g"
  using is_revoked_sound[OF oracle_reach_inv[OF assms(1)] assms(2), of g]
  by (cases "chain_revocation_oracle_is_revoked src ora g") (auto split: sum.splits)

text \<open>
  The oracle decides: when the source answers and the identity's history is shorter than
  the hop limit, a query returns, from any reachable state, and the answer is the truth.
\<close>

theorem revocation_decides:
  assumes "oracle_reach L ora" "honest src (identity_vout ora) L" "answers src (identity_vout ora) L"
    and "ends_within L g (max_hops ora)"
  shows "snd (chain_revocation_oracle_is_revoked src ora g) = Inr (dissolved L g)"
proof -
  let ?t = "case live_tip_find ora g of Some i \<Rightarrow> snd (live_tips ora ! i) | None \<Rightarrow> g"
  have "ends_within L ?t (max_hops ora)"
    using ends_within_continues[OF resume_continues[OF oracle_reach_inv[OF assms(1)]] assms(4)] .
  then obtain w where "revocation_walk (max_hops ora) src (identity_vout ora) ?t = Inr w"
    using walk_total assms(3) by blast
  then have "\<exists>b. snd (chain_revocation_oracle_is_revoked src ora g) = Inr b"
    by (cases "revoked_has ora g"; cases w) (simp_all add: chain_revocation_oracle_is_revoked_def Let_def, blast+)
  then show ?thesis
    using is_revoked_sound[OF oracle_reach_inv[OF assms(1)] assms(2), of g]
    by (cases "chain_revocation_oracle_is_revoked src ora g") auto
qed

text \<open>A source over a two-transaction chain: the genesis is spent by a transaction with no outputs.\<close>

definition end_tx :: string where
  "end_tx = ''02000000000000000000''"

definition demo_source :: chain_source_t where
  "demo_source = \<lparr>get_raw_tx = (\<lambda>t. if t = ''b'' then Inr (Some end_tx) else Inl BNS_ENOTFOUND),
     get_time = (\<lambda>_. Inl BNS_ENET), has_spend_index = True,
     get_spending_txid = (\<lambda>t _. Inr (if t = ''a'' then Some ''b'' else None))\<rparr>"

definition demo_ledger :: ledger where
  "demo_ledger = \<lparr>spent_by = (\<lambda>t. if t = ''a'' then Some ''b'' else None),
     raw_of = (\<lambda>t. if t = ''b'' then Some end_tx else None)\<rparr>"

definition demo_oracle :: chain_revocation_oracle_t where
  "demo_oracle = \<lparr>identity_vout = 0, max_hops = 3, revoked = [], live_tips = []\<rparr>"

lemma demo_oracle_facts:
  "oracle_reach demo_ledger demo_oracle" "honest demo_source (identity_vout demo_oracle) demo_ledger"
  "answers demo_source (identity_vout demo_oracle) demo_ledger" "is_terminal_spend end_tx"
proof -
  have "chain_revocation_oracle_new demo_source None (Some 3) = Inr demo_oracle"
    by (simp add: chain_revocation_oracle_new_def demo_source_def demo_oracle_def)
  then show "oracle_reach demo_ledger demo_oracle" by (rule oracle_reach.new)
  show "honest demo_source (identity_vout demo_oracle) demo_ledger"
    by (auto simp: honest_def demo_source_def demo_ledger_def split: if_splits)
  show "answers demo_source (identity_vout demo_oracle) demo_ledger"
    by (auto simp: answers_def demo_source_def demo_ledger_def split: if_splits)
  show "is_terminal_spend end_tx" by code_simp
qed

theorem revocation_answers_true_witness:
  "dissolved demo_ledger ''a'' \<and>
   chain_revocation_oracle_is_revoked demo_source demo_oracle ''a'' =
     (demo_oracle\<lparr>revoked := [''a'']\<rparr>, Inr True)"
proof -
  have "chain_revocation_oracle_is_revoked demo_source demo_oracle ''a'' =
      (demo_oracle\<lparr>revoked := [''a'']\<rparr>, Inr True)" by code_simp
  then show ?thesis
    using revocation_answers_true[OF demo_oracle_facts(1,2), of "''a''"] by simp
qed

theorem revocation_decides_witness:
  "snd (chain_revocation_oracle_is_revoked demo_source demo_oracle ''b'') = Inr (dissolved demo_ledger ''b'')"
proof -
  have "ends_within demo_ledger ''b'' (Suc 2)" by (rule ends_within.unspent) (simp add: demo_ledger_def)
  then have "ends_within demo_ledger ''b'' (max_hops demo_oracle)" by (simp add: demo_oracle_def)
  then show ?thesis using revocation_decides[OF demo_oracle_facts(1-3)] by simp
qed

lemma find_idx_map_of:
  "map_of xs g = map_option (\<lambda>i. snd (xs ! i)) (find_idx (\<lambda>e. fst e = g) xs)"
  by (induction xs) (auto simp: option.map_comp comp_def)

lemma map_of_update_first:
  "find_idx (\<lambda>e. fst e = g) xs = Some i \<Longrightarrow> map_of (xs[i := (fst (xs ! i), t)]) = (map_of xs)(g \<mapsto> t)"
  by (induction xs arbitrary: i) (auto split: if_splits)

lemma live_tip_set_map:
  "map_of (live_tips (live_tip_set ora g t)) = (map_of (live_tips ora))(g \<mapsto> t)"
proof (cases "live_tip_find ora g")
  case None
  then have "g \<notin> dom (map_of (live_tips ora))"
    by (simp add: live_tip_find_def find_idx_map_of domIff)
  then show ?thesis using None by (simp add: live_tip_set_def map_add_upd_left map_add_comm)
next
  case (Some i)
  then show ?thesis using map_of_update_first[of g "live_tips ora" i t] by (simp add: live_tip_set_def live_tip_find_def)
qed

lemma live_tip_set_revoked: "revoked (live_tip_set ora g t) = revoked ora"
  by (simp add: live_tip_set_def split: option.splits)

lemma live_tip_delete_revoked: "revoked (live_tip_delete ora g) = revoked ora"
  by (simp add: live_tip_delete_def split: option.splits)

text \<open>
  C40. The spend of an identity's last known tip decides. Ask any source about an identity that is
  not yet known to be dissolved: if its tip, remembered or the genesis, is spent by a
  transaction \<open>sp\<close> whose own identity output is unspent, then the identity is dissolved for good
  exactly when the source's text for \<open>sp\<close> parses as a transaction with no outputs or
  with a P2PKH script in the first one. In every other case it is answered to be live and
  \<open>sp\<close> becomes its tip; that includes every text that does not parse, which the walk
  takes for a recreation instead of failing.
\<close>

theorem last_spend_decides:
  assumes "genesis \<notin> set (revoked ora)" "2 \<le> max_hops ora"
    and "tip = (case map_of (live_tips ora) genesis of Some t \<Rightarrow> t | None \<Rightarrow> genesis)"
    and "get_spending_txid src tip (identity_vout ora) = Inr (Some sp)" "get_raw_tx src sp = Inr (Some raw)"
    and "get_spending_txid src sp (identity_vout ora) = Inr None"
  shows "case chain_revocation_oracle_is_revoked src ora genesis of (ora', answer) \<Rightarrow>
    (if \<exists>tx. tx_deserialize raw = Inr tx \<and>
         (outputs tx = [] \<or> (\<exists>h. length h = 20 \<and> script (hd (outputs tx)) = build_p2pkh_script h))
     then answer = Inr True \<and> set (revoked ora') = insert genesis (set (revoked ora))
     else answer = Inr False \<and> revoked ora' = revoked ora \<and>
       map_of (live_tips ora') = (map_of (live_tips ora))(genesis \<mapsto> sp))"
proof -
  have ends: "is_terminal_spend raw \<longleftrightarrow> (\<exists>tx. tx_deserialize raw = Inr tx \<and>
      (outputs tx = [] \<or> (\<exists>h. length h = 20 \<and> script (hd (outputs tx)) = build_p2pkh_script h)))"
    using is_p2pkh_out_iff
    by (auto simp: is_terminal_spend_def split: sum.splits list.splits)
  obtain n where n: "max_hops ora = Suc (Suc n)" using assms(2) by (metis add_2_eq_Suc le_Suc_ex)
  have nr: "\<not> revoked_has ora genesis" using assms(1) by (auto simp: revoked_has_def list_ex_iff)
  have tip: "(case live_tip_find ora genesis of Some i \<Rightarrow> snd (live_tips ora ! i) | None \<Rightarrow> genesis) = tip"
    unfolding assms(3) find_idx_map_of live_tip_find_def by (cases "find_idx (\<lambda>e. fst e = genesis) (live_tips ora)") simp_all
  have w: "revocation_walk (max_hops ora) src (identity_vout ora) tip =
      Inr (if is_terminal_spend raw then Terminal else Live_at sp)"
    using assms(4-6) by (simp add: n)
  show ?thesis unfolding ends[symmetric] chain_revocation_oracle_is_revoked_def Let_def tip w
    using nr by (simp add: live_tip_set_map live_tip_set_revoked live_tip_delete_revoked revoked_add_def)
qed

theorem last_spend_decides_witness:
  "snd (chain_revocation_oracle_is_revoked (demo_source\<lparr>get_raw_tx := (\<lambda>_. Inr (Some ''junk''))\<rparr>) demo_oracle ''a'') = Inr False \<and>
   snd (chain_revocation_oracle_is_revoked demo_source demo_oracle ''a'') = Inr True"
proof -
  have junk: "tx_deserialize ''junk'' = Inl BNS_EPARSE" by code_simp
  obtain tx where tx: "tx_deserialize end_tx = Inr tx" "outputs tx = []"
  proof -
    have "case tx_deserialize end_tx of Inl _ \<Rightarrow> False | Inr tx \<Rightarrow> outputs tx = []" by code_simp
    then show thesis using that by (auto split: sum.splits)
  qed
  note main = last_spend_decides[of "''a''" demo_oracle "''a''" _ "''b''"]
  have "snd (chain_revocation_oracle_is_revoked (demo_source\<lparr>get_raw_tx := (\<lambda>_. Inr (Some ''junk''))\<rparr>) demo_oracle ''a'') = Inr False"
    using main[of "demo_source\<lparr>get_raw_tx := (\<lambda>_. Inr (Some ''junk''))\<rparr>" "''junk''"] junk
    by (simp add: demo_oracle_def demo_source_def split: prod.splits)
  moreover have "snd (chain_revocation_oracle_is_revoked demo_source demo_oracle ''a'') = Inr True"
    using main[of demo_source end_tx] tx by (simp add: demo_oracle_def demo_source_def split: prod.splits)
  ultimately show ?thesis by blast
qed

lemma tolower_hex: "map tolower (hex_encode_loop b) = hex_encode_loop b"
proof -
  have "\<forall>c \<in> set HEX_LC. tolower c = c" by code_simp
  moreover have "HEX_LC ! n \<in> set HEX_LC" if "n < 16" for n
    using that by (intro nth_mem) (simp add: HEX_LC_def)
  ultimately have "tolower (HEX_LC ! n) = HEX_LC ! n" if "n < 16" for n using that by blast
  then show ?thesis by (induction b) simp_all
qed

lemma hex_encode_tolower: "hex_encode b = Some h \<Longrightarrow> map tolower h = h"
  using tolower_hex hex_encode_SomeD by metis

lemma tolower_idem: "tolower (tolower c) = tolower c"
  by (auto simp: tolower_def Let_def)

lemma verified_script:
  "fst (verify_identity_script_on_chain (csiv_get_identity_script_hex src) i vo expected sz) \<longleftrightarrow>
    (\<exists>raw tx. get_raw_tx src i = Inr (Some raw) \<and> tx_deserialize raw = Inr tx \<and>
      unat vo < length (outputs tx) \<and>
      hex_encode (script (outputs tx ! unat vo)) = Some (map tolower expected))"
  by (auto simp: verify_identity_script_on_chain_def csiv_get_identity_script_hex_def res_bind_Inr_iff
      res_bind_Inl_iff tolower_idem split: sum.splits option.splits if_splits)
   (metis hex_encode_tolower)

text \<open>
  Binding to the chain is exact: against a chain source, verification succeeds exactly
  when the source returns a parsable transaction for the identity that has the given output
  and the script of that output, as lower-case hex, is the expected text up to letter case.
  Everything else is a refusal.
\<close>

theorem verify_identity_iff:
  "fst (verify_identity_script_on_chain (csiv_get_identity_script_hex src) i vo expected sz) \<longleftrightarrow>
    (\<exists>raw tx. get_raw_tx src i = Inr (Some raw) \<and> tx_deserialize raw = Inr tx \<and>
      unat vo < length (outputs tx) \<and>
      hex_encode (script (outputs tx ! unat vo)) = Some (map tolower expected))"
  by (rule verified_script)

end
