(* ===== verification/Envelope.thy ===== *)
theory Envelope
  imports Prelude
begin

text \<open>
  The authorization envelope and the spending meter of
  \<^verbatim>\<open>src/broker/authorization_envelope.c\<close>. An \<^verbatim>\<open>int64_t\<close> is an \<open>int\<close> in
  range (\<open>i64\<close>); the \<^verbatim>\<open>__int128\<close> intermediates are exact, and the final cast back to
  \<^verbatim>\<open>int64_t\<close> is written out as truncation and shown to change nothing. The borrowed
  envelope pointer of the accountant is the envelope itself: nothing in the sources writes
  through it after the key is stored.
\<close>

section \<open>Model\<close>

definition to_i64 :: "int \<Rightarrow> int" where
  "to_i64 n = (n + 2 ^ 63) mod 2 ^ 64 - 2 ^ 63"

definition i64 :: "int \<Rightarrow> bool" where
  "i64 n \<longleftrightarrow> - (2 ^ 63) \<le> n \<and> n < 2 ^ 63"

record identity_params_t =
  per_tx_limit :: int
  daily_limit :: int
  window_duration_p :: int

record authorization_envelope_t =
  per_call :: int
  per_window :: int
  window_duration :: int
  scopes :: "string list"

record charge_result_t =
  ch_allowed :: bool
  ch_reason :: "string option"
  ch_spent_in_window :: int
  ch_window_start :: int

record window_accountant_t =
  acc_envelope :: authorization_envelope_t
  spent_in_window :: int
  window_start :: int
  started :: bool

definition envelope_from_identity :: "identity_params_t \<Rightarrow> string list \<Rightarrow> authorization_envelope_t" where
  "envelope_from_identity params scs =
     \<lparr>per_call = per_tx_limit params, per_window = daily_limit params,
      window_duration = window_duration_p params, scopes = scs\<rparr>"

definition window_accountant_init :: "authorization_envelope_t \<Rightarrow> window_accountant_t" where
  "window_accountant_init env =
     \<lparr>acc_envelope = env, spent_in_window = 0, window_start = 0, started = False\<rparr>"

definition accountant_deny :: "window_accountant_t \<Rightarrow> string \<Rightarrow> int \<Rightarrow> charge_result_t" where
  "accountant_deny acc reason now =
     \<lparr>ch_allowed = False, ch_reason = Some reason, ch_spent_in_window = spent_in_window acc,
      ch_window_start = (if started acc then window_start acc else now)\<rparr>"

definition window_accountant_charge ::
  "window_accountant_t \<Rightarrow> int \<Rightarrow> int \<Rightarrow> window_accountant_t \<times> charge_result_t" where
  "window_accountant_charge acc amount now =
     (let env = acc_envelope acc in
      if amount \<le> 0 then (acc, accountant_deny acc ''amount must be positive'' now)
      else if amount > per_call env then (acc, accountant_deny acc ''exceeds per-call limit'' now)
      else
        let roll = (\<not> started acc \<or> now - window_start acc \<ge> window_duration env);
            ws = (if roll then now else window_start acc);
            spent = (if roll then 0 else spent_in_window acc);
            next = spent + amount in
        if next > per_window env then
          (acc, \<lparr>ch_allowed = False, ch_reason = Some ''exceeds rolling window limit'',
                 ch_spent_in_window = spent, ch_window_start = ws\<rparr>)
        else
          (acc\<lparr>spent_in_window := to_i64 next, window_start := ws, started := True\<rparr>,
           \<lparr>ch_allowed = True, ch_reason = None,
            ch_spent_in_window = to_i64 next, ch_window_start = ws\<rparr>))"

definition window_accountant_snapshot :: "window_accountant_t \<Rightarrow> int \<times> int" where
  "window_accountant_snapshot acc = (spent_in_window acc, window_start acc)"

section \<open>Invariant\<close>

lemma to_i64_id: "i64 n \<Longrightarrow> to_i64 n = n"
  by (simp add: to_i64_def i64_def)

definition env_ok :: "authorization_envelope_t \<Rightarrow> bool" where
  "env_ok env \<longleftrightarrow> i64 (per_call env) \<and> i64 (per_window env) \<and> i64 (window_duration env)"

definition acc_inv :: "window_accountant_t \<Rightarrow> bool" where
  "acc_inv acc \<longleftrightarrow> env_ok (acc_envelope acc) \<and> 0 \<le> spent_in_window acc \<and> i64 (window_start acc) \<and>
     (if started acc then spent_in_window acc \<le> per_window (acc_envelope acc)
      else spent_in_window acc = 0)"

lemma acc_inv_init: "env_ok env \<Longrightarrow> acc_inv (window_accountant_init env)"
  by (simp add: acc_inv_def window_accountant_init_def i64_def)

text \<open>The charge, without the representation details.\<close>

definition rolls :: "window_accountant_t \<Rightarrow> int \<Rightarrow> bool" where
  "rolls acc now \<longleftrightarrow> \<not> started acc \<or> window_start acc + window_duration (acc_envelope acc) \<le> now"

definition base_spent :: "window_accountant_t \<Rightarrow> int \<Rightarrow> int" where
  "base_spent acc now = (if rolls acc now then 0 else spent_in_window acc)"

definition charge_ok :: "window_accountant_t \<Rightarrow> int \<Rightarrow> int \<Rightarrow> bool" where
  "charge_ok acc amount now \<longleftrightarrow> 0 < amount \<and> amount \<le> per_call (acc_envelope acc) \<and>
     base_spent acc now + amount \<le> per_window (acc_envelope acc)"

lemma charge_spec:
  assumes "acc_inv acc"
  shows "window_accountant_charge acc amount now =
    (if charge_ok acc amount now then
       (acc\<lparr>spent_in_window := base_spent acc now + amount,
            window_start := (if rolls acc now then now else window_start acc), started := True\<rparr>,
        \<lparr>ch_allowed = True, ch_reason = None, ch_spent_in_window = base_spent acc now + amount,
         ch_window_start = (if rolls acc now then now else window_start acc)\<rparr>)
     else (acc, snd (window_accountant_charge acc amount now)))"
proof -
  have r: "(now - window_start acc \<ge> window_duration (acc_envelope acc)) =
      (window_start acc + window_duration (acc_envelope acc) \<le> now)" by auto
  have i: "to_i64 (base_spent acc now + amount) = base_spent acc now + amount" if "charge_ok acc amount now"
    using assms that by (intro to_i64_id)
      (auto simp: acc_inv_def env_ok_def i64_def charge_ok_def base_spent_def)
  show ?thesis
    using i unfolding window_accountant_charge_def Let_def r
    by (auto simp: charge_ok_def base_spent_def rolls_def)
qed

lemma charge_allowed_iff: "acc_inv acc \<Longrightarrow> ch_allowed (snd (window_accountant_charge acc amount now)) \<longleftrightarrow> charge_ok acc amount now"
proof -
  assume a: "acc_inv acc"
  have "\<not> ch_allowed (snd (window_accountant_charge acc amount now))" if "\<not> charge_ok acc amount now"
    using that by (auto simp: window_accountant_charge_def Let_def accountant_deny_def charge_ok_def
        base_spent_def rolls_def)
  then show ?thesis using charge_spec[OF a, of amount now] by (auto split: if_splits)
qed

lemma charge_envelope [simp]: "acc_envelope (fst (window_accountant_charge acc a n)) = acc_envelope acc"
  by (simp add: window_accountant_charge_def Let_def)

lemma acc_inv_charge:
  assumes "acc_inv acc" "i64 now"
  shows "acc_inv (fst (window_accountant_charge acc amount now))"
proof (cases "charge_ok acc amount now")
  case True
  then show ?thesis using assms
    by (subst charge_spec[OF assms(1)]) (auto simp: acc_inv_def charge_ok_def base_spent_def split: if_splits)
next
  case False
  then show ?thesis using assms by (subst charge_spec[OF assms(1)]) simp
qed

lemma charge_denied_unchanged:
  "\<not> ch_allowed (snd (window_accountant_charge acc amount now)) \<Longrightarrow>
   fst (window_accountant_charge acc amount now) = acc"
  by (auto simp: window_accountant_charge_def Let_def split: if_splits)

section \<open>Runs\<close>

fun charges :: "window_accountant_t \<Rightarrow> (int \<times> int) list \<Rightarrow> window_accountant_t" where
  "charges acc [] = acc"
| "charges acc ((amount, now) # rs) = charges (fst (window_accountant_charge acc amount now)) rs"

text \<open>The total amount a run lets through.\<close>

fun granted :: "window_accountant_t \<Rightarrow> (int \<times> int) list \<Rightarrow> int" where
  "granted acc [] = 0"
| "granted acc ((amount, now) # rs) =
     (let (acc', r) = window_accountant_charge acc amount now in
      (if ch_allowed r then amount else 0) + granted acc' rs)"

lemma granted_nonneg: "0 \<le> granted acc rs"
proof (induction acc rs rule: granted.induct)
  case (2 acc amount now rs)
  obtain acc' r where c: "window_accountant_charge acc amount now = (acc', r)" by fastforce
  have "ch_allowed r \<Longrightarrow> 0 < amount"
    using c by (auto simp: window_accountant_charge_def Let_def accountant_deny_def split: if_splits)
  then show ?case using "2"[OF c[symmetric] refl] c by (auto simp: Let_def)
qed simp

text \<open>
  For a clock that does not run backwards, what a run grants on top of what the open window
  has already granted is bounded by the number of windows that can begin before \<open>t\<close>.
\<close>

lemma granted_bound:
  assumes "acc_inv acc" "0 < window_duration (acc_envelope acc)" "0 \<le> per_window (acc_envelope acc)"
    and "sorted (t0 # map snd rs)" "list_all i64 (map snd rs)" "list_all (\<lambda>s. s \<le> t) (map snd rs)"
    and "started acc \<Longrightarrow> window_start acc \<le> t0"
    and "ws = (if started acc then window_start acc else t0)" "t0 \<le> t"
  shows "granted acc rs + (if started acc then spent_in_window acc else 0) \<le>
    per_window (acc_envelope acc) * ((t - ws) div window_duration (acc_envelope acc) + 1)"
  using assms
proof (induction rs arbitrary: acc t0 ws)
  case Nil
  let ?P = "per_window (acc_envelope acc)" and ?D = "window_duration (acc_envelope acc)"
  have "0 \<le> (t - ws) div ?D" using Nil.prems by (auto intro!: pos_imp_zdiv_nonneg_iff[THEN iffD2])
  then have "?P * 1 \<le> ?P * ((t - ws) div ?D + 1)" using Nil.prems(3) by (intro mult_left_mono) auto
  then show ?case using Nil.prems by (auto simp: acc_inv_def)
next
  case (Cons q rs)
  obtain a n where q: "q = (a, n)" by (cases q)
  let ?P = "per_window (acc_envelope acc)" and ?D = "window_duration (acc_envelope acc)"
  let ?acc = "fst (window_accountant_charge acc a n)" and ?r = "snd (window_accountant_charge acc a n)"
  have g: "granted acc (q # rs) = (if ch_allowed ?r then a else 0) + granted ?acc rs"
    by (simp add: q Let_def case_prod_beta)
  have n: "t0 \<le> n" "n \<le> t" "i64 n" "sorted (n # map snd rs)" using Cons.prems by (auto simp: q)
  have inv: "acc_inv ?acc" using acc_inv_charge[OF Cons.prems(1) n(3)] .
  show ?case
  proof (cases "charge_ok acc a n")
    case False
    then have e: "?acc = acc" "\<not> ch_allowed ?r"
      using charge_denied_unchanged[of acc a n] charge_allowed_iff[OF Cons.prems(1), of a n] by auto
    have b: "granted acc rs + (if started acc then spent_in_window acc else 0) \<le>
        ?P * ((t - (if started acc then window_start acc else n)) div ?D + 1)"
      using Cons.prems n by (intro Cons.IH[where ?t0.0 = n]) (auto simp: q)
    have "(t - (if started acc then window_start acc else n)) div ?D \<le> (t - ws) div ?D"
      using Cons.prems(2,8) n by (intro zdiv_mono1) auto
    then have "?P * ((t - (if started acc then window_start acc else n)) div ?D + 1) \<le> ?P * ((t - ws) div ?D + 1)"
      using Cons.prems(3) by (intro mult_left_mono) auto
    then show ?thesis using b e g by simp
  next
    case True
    have s: "?acc = acc\<lparr>spent_in_window := base_spent acc n + a,
        window_start := (if rolls acc n then n else window_start acc), started := True\<rparr>" "ch_allowed ?r"
      using charge_spec[OF Cons.prems(1), of a n] True by auto
    let ?w = "if rolls acc n then n else window_start acc"
    have wn: "?w \<le> n" using Cons.prems(7) n by (auto simp: rolls_def)
    have IH: "granted ?acc rs + (base_spent acc n + a) \<le> ?P * ((t - ?w) div ?D + 1)"
    proof -
      have st: "started ?acc" "window_start ?acc = ?w" "spent_in_window ?acc = base_spent acc n + a"
        by (simp_all add: s(1))
      have "granted ?acc rs + (if started ?acc then spent_in_window ?acc else 0) \<le>
          per_window (acc_envelope ?acc) * ((t - ?w) div window_duration (acc_envelope ?acc) + 1)"
      proof (rule Cons.IH[OF inv, of n])
        show "list_all i64 (map snd rs)" "list_all (\<lambda>s. s \<le> t) (map snd rs)" using Cons.prems(5,6) by simp_all
      qed (use st wn n Cons.prems(2,3) in simp_all)
      then show ?thesis using st by simp
    qed
    show ?thesis
    proof (cases "rolls acc n \<and> started acc")
      case False
      then have "base_spent acc n = (if started acc then spent_in_window acc else 0)"
        by (auto simp: base_spent_def rolls_def)
      moreover have "(t - ?w) div ?D \<le> (t - ws) div ?D"
        using False Cons.prems(2,8) n by (intro zdiv_mono1) (auto simp: rolls_def)
      then have "?P * ((t - ?w) div ?D + 1) \<le> ?P * ((t - ws) div ?D + 1)"
        using Cons.prems(3) by (intro mult_left_mono) auto
      ultimately show ?thesis using IH g s by simp
    next
      case rolled: True
      then have w: "ws + ?D \<le> n" "base_spent acc n = 0" "spent_in_window acc \<le> ?P"
        using Cons.prems(1,8) by (auto simp: rolls_def base_spent_def acc_inv_def)
      have "(t - n) div ?D + 1 = (t - n + ?D) div ?D" using Cons.prems(2) by (intro div_add_self2[symmetric]) simp
      also have "\<dots> \<le> (t - ws) div ?D" using w Cons.prems(2) by (intro zdiv_mono1) auto
      finally have "?P * ((t - n) div ?D + 1) \<le> ?P * ((t - ws) div ?D)"
        using Cons.prems(3) by (intro mult_left_mono) auto
      then have "granted ?acc rs + a + spent_in_window acc \<le> ?P * ((t - ws) div ?D) + ?P"
        using IH rolled w by simp
      then show ?thesis using g s rolled by (simp add: algebra_simps)
    qed
  qed
qed

section \<open>Properties\<close>

text \<open>
  The meter enforces the window cap: starting fresh, with a clock that never runs
  backwards and all requests between times \<open>t0\<close> and \<open>t\<close>, the total amount allowed is at
  most the per-window cap times the number of windows of the envelope's duration that can
  begin in that span, whatever amounts are requested and in whatever order.
\<close>

theorem window_cap_enforced:
  assumes "env_ok env" "0 < window_duration env" "0 \<le> per_window env"
    and "sorted (t0 # map snd rs)" "list_all i64 (map snd rs)" "list_all (\<lambda>s. s \<le> t) (map snd rs)" "t0 \<le> t"
  shows "granted (window_accountant_init env) rs \<le> per_window env * ((t - t0) div window_duration env + 1)"
  using granted_bound[of "window_accountant_init env" t0 rs t t0] assms acc_inv_init[OF assms(1)]
  by (simp add: window_accountant_init_def)

definition demo_env :: authorization_envelope_t where
  "demo_env = \<lparr>per_call = 60, per_window = 100, window_duration = 10, scopes = [''read'']\<rparr>"

theorem window_cap_enforced_witness:
  "granted (window_accountant_init demo_env) [(60, 5), (60, 6), (40, 7), (60, 15), (40, 16)] = 200 \<and>
   granted (window_accountant_init demo_env) [(60, 5), (60, 6), (40, 7), (60, 15), (40, 16)] \<le> 100 * ((16 - 5) div 10 + 1)"
proof
  show "granted (window_accountant_init demo_env) [(60, 5), (60, 6), (40, 7), (60, 15), (40, 16)] = 200"
    by code_simp
  show "granted (window_accountant_init demo_env) [(60, 5), (60, 6), (40, 7), (60, 15), (40, 16)] \<le> 100 * ((16 - 5) div 10 + 1)"
    using window_cap_enforced[of demo_env 5 "[(60, 5), (60, 6), (40, 7), (60, 15), (40, 16)]" 16]
    by (simp add: demo_env_def env_ok_def i64_def)
qed

text \<open>
  The counters always stay within the envelope: after any sequence of charges the meter
  satisfies its invariant (the spend of an open window is between zero and the cap, and no
  64-bit truncation has occurred), the caps are unchanged, and a charge is allowed exactly
  when it is positive, within the per-call cap and within what the current window has left;
  a denied charge changes nothing.
\<close>

theorem accountant_correct:
  assumes "env_ok env" "list_all i64 (map snd rs)"
  shows "let acc = charges (window_accountant_init env) rs; (acc', r) = window_accountant_charge acc amount now in
    acc_inv acc \<and> acc_envelope acc = env \<and>
    (if charge_ok acc amount now then ch_allowed r \<and> spent_in_window acc' = base_spent acc now + amount
     else \<not> ch_allowed r \<and> acc' = acc)"
proof -
  have run: "acc_inv (charges acc rs) \<and> acc_envelope (charges acc rs) = acc_envelope acc"
    if "acc_inv acc" "list_all i64 (map snd rs)" for acc
    using that by (induction acc rs rule: charges.induct) (auto simp: acc_inv_charge)
  let ?acc = "charges (window_accountant_init env) rs"
  have i: "acc_inv ?acc" "acc_envelope ?acc = env"
    using run[OF acc_inv_init[OF assms(1)] assms(2)] by (auto simp: window_accountant_init_def)
  moreover have "if charge_ok ?acc amount now
     then ch_allowed (snd (window_accountant_charge ?acc amount now)) \<and>
       spent_in_window (fst (window_accountant_charge ?acc amount now)) = base_spent ?acc now + amount
     else \<not> ch_allowed (snd (window_accountant_charge ?acc amount now)) \<and>
       fst (window_accountant_charge ?acc amount now) = ?acc"
    using charge_allowed_iff[OF i(1), of amount now] charge_denied_unchanged[of ?acc amount now]
      charge_spec[OF i(1), of amount now] by auto
  ultimately show ?thesis by (simp add: Let_def case_prod_beta)
qed

theorem accountant_correct_witness:
  "acc_inv (charges (window_accountant_init demo_env) [(60, 5), (60, 6)]) \<and>
   \<not> ch_allowed (snd (window_accountant_charge (charges (window_accountant_init demo_env) [(60, 5), (60, 6)]) 41 7))"
proof -
  have e: "env_ok demo_env" "list_all i64 (map snd [(60 :: int, 5 :: int), (60, 6)])"
    by (simp_all add: demo_env_def env_ok_def i64_def)
  have c: "\<not> charge_ok (charges (window_accountant_init demo_env) [(60, 5), (60, 6)]) 41 7" by code_simp
  show ?thesis using accountant_correct[OF e, of 41 7] c by (simp add: Let_def case_prod_beta)
qed

text \<open>
  The window does not slide: two full caps can be granted within one window duration,
  on either side of a roll.
\<close>

theorem window_is_tumbling:
  "granted (window_accountant_init demo_env) [(1, 0), (49, 9), (50, 9), (50, 10), (50, 11)] = 2 * per_window demo_env \<and>
   granted (fst (window_accountant_charge (window_accountant_init demo_env) 1 0)) [(49, 9), (50, 9), (50, 10), (50, 11)] =
     2 * per_window demo_env - 1 \<and> 11 - 9 < window_duration demo_env"
  by code_simp

end
