(* ===== verification/KeyBroker.thy ===== *)
theory KeyBroker
  imports Oracle Envelope
begin

text \<open>
  The key broker of \<^verbatim>\<open>src/broker/key_broker.c\<close>: it issues opaque API keys bound to an
  on-chain identity and authorizes metered requests against them. The broker holds the
  oracle's state (\<open>'o\<close>) and receives the oracle's query function, the clock reading and
  the random bytes as arguments; SHA-256 is the parameter \<open>sha\<close>. The array of owned
  pointers is a list, a borrowed pointer into it an index.
\<close>

section \<open>Data\<close>

record issued_key_t =
  key_id :: string
  agent_pub_key :: string
  ricardian_hash :: string
  identity_id :: string
  envelope :: authorization_envelope_t
  created_at :: int

record stored_key_t =
  pub :: issued_key_t
  secret_hash :: bytes
  secret_hash_hex :: string
  accountant :: window_accountant_t
  revoked_locally :: bool

record 'o key_broker_t =
  oracle_of :: 'o
  keys :: "stored_key_t list"
  scope_reason :: string

type_synonym 'o oracle_fn = "'o \<Rightarrow> string \<Rightarrow> 'o \<times> bool res"

record authorization_request_t =
  secret :: "string option"
  scope :: "string option"
  amount :: int

record authorization_decision_t =
  allowed :: bool
  reason :: "string option"
  decision_key_id :: "string option"
  charge :: "charge_result_t option"

record key_broker_issue_args_t =
  arg_agent_pub_key :: string
  arg_ricardian_hash :: string
  arg_identity_id :: string
  arg_envelope :: authorization_envelope_t

record key_broker_issue_from_chain_args_t =
  ifc_identity_id :: string
  ifc_identity_vout :: u32
  expected_locking_script_hex :: string
  ifc_agent_pub_key :: string
  ifc_ricardian_hash :: string
  ifc_params :: identity_params_t
  ifc_scopes :: "string list"

section \<open>Helpers\<close>

definition sha256_str :: "(bytes \<Rightarrow> bytes) \<Rightarrow> string \<Rightarrow> bytes" where
  "sha256_str sha s = sha (str_bytes s)"

definition find_by_key_id :: "'o key_broker_t \<Rightarrow> string \<Rightarrow> nat option" where
  "find_by_key_id broker kid = find_idx (\<lambda>k. key_id (pub k) = kid) (keys broker)"

definition lookup_by_secret :: "(bytes \<Rightarrow> bytes) \<Rightarrow> 'o key_broker_t \<Rightarrow> string option \<Rightarrow> nat option" where
  "lookup_by_secret sha broker sec =
     (case sec of None \<Rightarrow> None
      | Some s \<Rightarrow>
          let h = sha256_str sha s in
          case hex_encode_to h 65 of
            Inl _ \<Rightarrow> None
          | Inr h_hex \<Rightarrow>
              (case find_idx (\<lambda>k. secret_hash_hex k = h_hex) (keys broker) of
                 None \<Rightarrow> None
               | Some i \<Rightarrow> if secret_hash (keys broker ! i) \<noteq> h then None else Some i))"

definition envelope_copy :: "authorization_envelope_t \<Rightarrow> authorization_envelope_t" where
  "envelope_copy src =
     envelope_from_identity \<lparr>per_tx_limit = per_call src, daily_limit = per_window src,
       window_duration_p = window_duration src\<rparr> (scopes src)"

definition issued_key_build ::
  "string \<Rightarrow> string \<Rightarrow> string \<Rightarrow> string \<Rightarrow> authorization_envelope_t \<Rightarrow> int \<Rightarrow> issued_key_t" where
  "issued_key_build kid apk rh iid env at =
     \<lparr>key_id = take 32 kid, agent_pub_key = apk, ricardian_hash = rh, identity_id = iid,
      envelope = envelope_copy env, created_at = at\<rparr>"

definition key_broker_new :: "'o \<Rightarrow> 'o key_broker_t" where
  "key_broker_new ora = \<lparr>oracle_of = ora, keys = [], scope_reason = ''''\<rparr>"

definition broker_store :: "'o key_broker_t \<Rightarrow> stored_key_t \<Rightarrow> 'o key_broker_t" where
  "broker_store broker sk = broker\<lparr>keys := keys broker @ [sk]\<rparr>"

section \<open>Issuing\<close>

text \<open>
  \<open>id_raw\<close> and \<open>sec_raw\<close> are what the two calls of the random generator return: 16 and
  24 bytes, or an error.
\<close>

definition key_broker_issue ::
  "(bytes \<Rightarrow> bytes) \<Rightarrow> bytes res \<Rightarrow> bytes res \<Rightarrow> int \<Rightarrow> 'o key_broker_t \<Rightarrow> key_broker_issue_args_t \<Rightarrow>
   'o key_broker_t \<times> (issued_key_t \<times> string) res" where
  "key_broker_issue sha id_raw sec_raw now broker args =
     (case id_raw of Inl _ \<Rightarrow> (broker, Inl BNS_ECRYPTO) | Inr idb \<Rightarrow>
     (case hex_encode_to idb 33 of Inl _ \<Rightarrow> (broker, Inl BNS_ECRYPTO) | Inr kid \<Rightarrow>
     (case sec_raw of Inl _ \<Rightarrow> (broker, Inl BNS_ECRYPTO) | Inr secb \<Rightarrow>
     (case hex_encode_to secb 49 of Inl _ \<Rightarrow> (broker, Inl BNS_ECRYPTO) | Inr sec_hex \<Rightarrow>
     (let sec = ''pk_'' @ sec_hex; sh = sha256_str sha sec in
      case hex_encode_to sh 65 of Inl _ \<Rightarrow> (broker, Inl BNS_ECRYPTO) | Inr sh_hex \<Rightarrow>
        let k = issued_key_build kid (arg_agent_pub_key args) (arg_ricardian_hash args)
                  (arg_identity_id args) (arg_envelope args) now;
            sk = \<lparr>pub = k, secret_hash = sh, secret_hash_hex = sh_hex,
                  accountant = window_accountant_init (envelope k), revoked_locally = False\<rparr> in
        (broker_store broker sk, Inr (k, sec)))))))"

text \<open>\<^verbatim>\<open>strstr(hay, needle) != NULL\<close>\<close>

fun strstr :: "string \<Rightarrow> string \<Rightarrow> bool" where
  "strstr [] needle = (needle = [])"
| "strstr (c # cs) needle = (take (length needle) (c # cs) = needle \<or> strstr cs needle)"

text \<open>The refusal detail, as written into the caller's buffer.\<close>

definition binding_fail :: "nat \<Rightarrow> string \<Rightarrow> string" where
  "binding_fail reason_sz detail = take (reason_sz - 1) detail"

definition key_broker_issue_from_chain ::
  "(bytes \<Rightarrow> bytes) \<Rightarrow> 'o oracle_fn \<Rightarrow> identity_chain_view_t \<Rightarrow> bytes res \<Rightarrow> bytes res \<Rightarrow> int \<Rightarrow> nat \<Rightarrow>
   'o key_broker_t \<Rightarrow> key_broker_issue_from_chain_args_t \<Rightarrow>
   'o key_broker_t \<times> (issued_key_t \<times> string) res \<times> string" where
  "key_broker_issue_from_chain sha is_revoked view id_raw sec_raw now reason_sz broker args =
     (let (ok, vreason) = verify_identity_script_on_chain view (ifc_identity_id args)
            (ifc_identity_vout args) (expected_locking_script_hex args) 256;
          fail = (\<lambda>b detail. (b, Inl BNS_EBINDING, binding_fail reason_sz detail)) in
      if \<not> ok then fail broker vreason
      else if \<not> is_sha256_hex (ifc_ricardian_hash args) then
        fail broker ''ricardianHash is malformed (expected 64 hex chars / 32 bytes)''
      else if \<not> is_pubkey_hex (ifc_agent_pub_key args) then
        fail broker ''agentPubKey is malformed (expected a 33-byte compressed pubkey: 66 hex chars, 02/03 prefix)''
      else
        let script_lc = hex_to_lower (expected_locking_script_hex args);
            rh_lc = hex_to_lower (ifc_ricardian_hash args);
            pk_lc = hex_to_lower (ifc_agent_pub_key args) in
        if \<not> strstr script_lc rh_lc then
          fail broker ''ricardianHash is not present in the verified identity script''
        else if \<not> strstr script_lc pk_lc then
          fail broker ''agentPubKey is not present in the verified identity script''
        else
          let (ora', orc) = is_revoked (oracle_of broker) (ifc_identity_id args);
              broker' = broker\<lparr>oracle_of := ora'\<rparr> in
          case orc of
            Inl e \<Rightarrow> fail broker' (take 255 (''revocation state unavailable (fail-closed): '' @ bns_err_name e))
          | Inr True \<Rightarrow> fail broker' ''identity is revoked/dissolved on-chain''
          | Inr False \<Rightarrow>
              let env = envelope_from_identity (ifc_params args) (ifc_scopes args);
                  iargs = \<lparr>arg_agent_pub_key = ifc_agent_pub_key args,
                    arg_ricardian_hash = ifc_ricardian_hash args,
                    arg_identity_id = ifc_identity_id args, arg_envelope = env\<rparr>;
                  (broker'', r) = key_broker_issue sha id_raw sec_raw now broker' iargs in
              (broker'', r, ''''))"

section \<open>Authorizing\<close>

definition decision_deny :: "string \<Rightarrow> stored_key_t option \<Rightarrow> authorization_decision_t" where
  "decision_deny why sk =
     \<lparr>allowed = False, reason = Some why,
      decision_key_id = map_option (\<lambda>k. key_id (pub k)) sk, charge = None\<rparr>"

definition key_broker_authorize ::
  "(bytes \<Rightarrow> bytes) \<Rightarrow> 'o oracle_fn \<Rightarrow> int \<Rightarrow> 'o key_broker_t \<Rightarrow> authorization_request_t \<Rightarrow>
   'o key_broker_t \<times> authorization_decision_t" where
  "key_broker_authorize sha is_revoked now broker req =
     (case lookup_by_secret sha broker (secret req) of
        None \<Rightarrow> (broker, decision_deny ''unknown or invalid key'' None)
      | Some i \<Rightarrow>
          let sk = keys broker ! i in
          if revoked_locally sk then (broker, decision_deny ''key revoked'' (Some sk))
          else
            let (ora', orc) = is_revoked (oracle_of broker) (identity_id (pub sk));
                broker' = broker\<lparr>oracle_of := ora'\<rparr> in
            case orc of
              Inl _ \<Rightarrow>
                (broker', decision_deny ''on-chain revocation state unavailable (fail-closed)'' (Some sk))
            | Inr True \<Rightarrow>
                (broker'\<lparr>keys := (keys broker)[i := sk\<lparr>revoked_locally := True\<rparr>]\<rparr>,
                 decision_deny ''identity revoked on-chain'' (Some sk))
            | Inr False \<Rightarrow>
                (let in_scope = (case scope req of None \<Rightarrow> False
                       | Some s \<Rightarrow> list_ex (\<lambda>x. x = s) (scopes (envelope (pub sk)))) in
                 if \<not> in_scope then
                   let why = take 511 (''scope not authorised: '' @
                         (case scope req of None \<Rightarrow> '''' | Some s \<Rightarrow> s)) in
                   (broker'\<lparr>scope_reason := why\<rparr>, decision_deny why (Some sk))
                 else
                   let (acc', c) = window_accountant_charge (accountant sk) (amount req) now;
                       broker'' = broker'\<lparr>keys := (keys broker)[i := sk\<lparr>accountant := acc'\<rparr>]\<rparr> in
                   (broker'', \<lparr>allowed = ch_allowed c, reason = (if ch_allowed c then None else ch_reason c),
                               decision_key_id = Some (key_id (pub sk)), charge = Some c\<rparr>)))"

section \<open>Local revocation and lookup\<close>

definition key_broker_revoke_locally :: "'o key_broker_t \<Rightarrow> string \<Rightarrow> 'o key_broker_t \<times> bool" where
  "key_broker_revoke_locally broker kid =
     (case find_by_key_id broker kid of
        None \<Rightarrow> (broker, False)
      | Some i \<Rightarrow> (broker\<lparr>keys := (keys broker)[i := (keys broker ! i)\<lparr>revoked_locally := True\<rparr>]\<rparr>, True))"

definition key_broker_get_key :: "'o key_broker_t \<Rightarrow> string \<Rightarrow> issued_key_t option" where
  "key_broker_get_key broker kid =
     (case find_by_key_id broker kid of
        None \<Rightarrow> None
      | Some i \<Rightarrow> let k = pub (keys broker ! i) in
          Some (issued_key_build (key_id k) (agent_pub_key k) (ricardian_hash k) (identity_id k)
                  (envelope k) (created_at k)))"

section \<open>Invariant\<close>

definition key_ok :: "stored_key_t \<Rightarrow> bool" where
  "key_ok k \<longleftrightarrow> secret_hash_hex k = hex_encode_loop (secret_hash k) \<and> acc_inv (accountant k) \<and>
     acc_envelope (accountant k) = envelope (pub k)"

definition broker_inv :: "'o key_broker_t \<Rightarrow> bool" where
  "broker_inv b \<longleftrightarrow> list_all key_ok (keys b)"

lemma broker_inv_nth: "broker_inv b \<Longrightarrow> i < length (keys b) \<Longrightarrow> key_ok (keys b ! i)"
  by (simp add: broker_inv_def list_all_length)

lemma broker_inv_update:
  "broker_inv b \<Longrightarrow> key_ok k \<Longrightarrow> broker_inv (b\<lparr>keys := (keys b)[i := k]\<rparr>)"
  by (auto simp: broker_inv_def list_all_iff dest!: set_update_subset_insert[THEN subsetD])

lemma hex_encode_to_65: "hex_encode_to h 65 = (if length h \<le> 32 then Inr (hex_encode_loop h) else Inl BNS_EINVAL)"
  by (simp add: hex_encode_to_def SIZE_MAX_def)

text \<open>The two-stage lookup finds the first key with the secret's hash.\<close>

lemma lookup_by_secret_eq:
  assumes "broker_inv b" "length (sha256_str sha s) = 32"
  shows "lookup_by_secret sha b (Some s) = find_idx (\<lambda>k. secret_hash k = sha256_str sha s) (keys b)"
proof -
  let ?h = "sha256_str sha s"
  have "find_idx (\<lambda>k. secret_hash_hex k = hex_encode_loop ?h) ks = find_idx (\<lambda>k. secret_hash k = ?h) ks"
    if "list_all key_ok ks" for ks
    using that by (induction ks) (auto simp: key_ok_def)
  then show ?thesis using assms find_idx_Some[of "\<lambda>k. secret_hash k = ?h" "keys b"]
    by (auto simp: lookup_by_secret_def hex_encode_to_65 broker_inv_def Let_def split: option.splits)
qed

lemma lookup_by_secret_Some:
  "lookup_by_secret sha b sec = Some i \<Longrightarrow>
     i < length (keys b) \<and> (\<exists>s. sec = Some s \<and> secret_hash (keys b ! i) = sha256_str sha s)"
  by (auto simp: lookup_by_secret_def Let_def split: option.splits sum.splits if_splits dest: find_idx_Some)

section \<open>Authorization decisions\<close>

definition scope_granted :: "stored_key_t \<Rightarrow> string option \<Rightarrow> bool" where
  "scope_granted sk sc \<longleftrightarrow> (\<exists>s. sc = Some s \<and> s \<in> set (scopes (envelope (pub sk))))"

lemma scope_test:
  "(case sc of None \<Rightarrow> False | Some s \<Rightarrow> list_ex (\<lambda>x. x = s) (scopes (envelope (pub sk)))) = scope_granted sk sc"
  by (auto simp: scope_granted_def list_ex_iff split: option.splits)

lemma authorize_cases:
  fixes b :: "'o key_broker_t" and req :: authorization_request_t and now :: int
    and orc :: "'o oracle_fn" and sha :: "bytes \<Rightarrow> bytes"
  defines "out \<equiv> key_broker_authorize sha orc now b req"
  obtains (unknown) "lookup_by_secret sha b (secret req) = None" "out = (b, decision_deny ''unknown or invalid key'' None)"
  | (latched) i where "lookup_by_secret sha b (secret req) = Some i" "revoked_locally (keys b ! i)"
      "out = (b, decision_deny ''key revoked'' (Some (keys b ! i)))"
  | (failed) i o' e where "lookup_by_secret sha b (secret req) = Some i" "\<not> revoked_locally (keys b ! i)"
      "orc (oracle_of b) (identity_id (pub (keys b ! i))) = (o', Inl e)" "fst out = b\<lparr>oracle_of := o'\<rparr>" "\<not> allowed (snd out)"
  | (revoked) i o' where "lookup_by_secret sha b (secret req) = Some i" "\<not> revoked_locally (keys b ! i)"
      "orc (oracle_of b) (identity_id (pub (keys b ! i))) = (o', Inr True)"
      "fst out = b\<lparr>oracle_of := o', keys := (keys b)[i := (keys b ! i)\<lparr>revoked_locally := True\<rparr>]\<rparr>" "\<not> allowed (snd out)"
  | (scope) i o' w where "lookup_by_secret sha b (secret req) = Some i" "\<not> revoked_locally (keys b ! i)"
      "orc (oracle_of b) (identity_id (pub (keys b ! i))) = (o', Inr False)" "\<not> scope_granted (keys b ! i) (scope req)"
      "fst out = b\<lparr>oracle_of := o', scope_reason := w\<rparr>" "\<not> allowed (snd out)"
  | (metered) i o' acc' c where "lookup_by_secret sha b (secret req) = Some i" "\<not> revoked_locally (keys b ! i)"
      "orc (oracle_of b) (identity_id (pub (keys b ! i))) = (o', Inr False)" "scope_granted (keys b ! i) (scope req)"
      "window_accountant_charge (accountant (keys b ! i)) (amount req) now = (acc', c)"
      "fst out = b\<lparr>oracle_of := o', keys := (keys b)[i := (keys b ! i)\<lparr>accountant := acc'\<rparr>]\<rparr>"
      "allowed (snd out) \<longleftrightarrow> ch_allowed c"
proof (cases "lookup_by_secret sha b (secret req)")
  case None
  then show thesis using unknown by (simp add: out_def key_broker_authorize_def Let_def)
next
  case (Some i)
  show thesis
  proof (cases "revoked_locally (keys b ! i)")
    case True
    then show thesis using Some latched by (simp add: out_def key_broker_authorize_def Let_def)
  next
    case nr: False
    obtain o' r where o: "orc (oracle_of b) (identity_id (pub (keys b ! i))) = (o', r)" by fastforce
    show thesis
    proof (cases r)
      case (Inl e)
      then show thesis using Some nr o
        by (intro failed) (simp_all add: out_def key_broker_authorize_def decision_deny_def Let_def)
    next
      case (Inr rev)
      show thesis
      proof (cases rev)
        case True
        then show thesis using Some nr o Inr
          by (intro revoked) (simp_all add: out_def key_broker_authorize_def decision_deny_def Let_def)
      next
        case False
        obtain acc' c where ch: "window_accountant_charge (accountant (keys b ! i)) (amount req) now = (acc', c)"
          by fastforce
        note e = out_def key_broker_authorize_def scope_test Let_def decision_deny_def
        show thesis
        proof (cases "scope_granted (keys b ! i) (scope req)")
          case True
          then show thesis using Some nr o Inr False ch by (intro metered) (simp_all add: e)
        next
          case ns: False
          then show thesis using Some nr o Inr False
            by (intro scope[where w = "take 511 (''scope not authorised: '' @
                  (case scope req of None \<Rightarrow> '''' | Some s \<Rightarrow> s))"]) (simp_all add: e)
        qed
      qed
    qed
  qed
qed

section \<open>Steps of the broker\<close>

lemma envelope_copy_id [simp]: "envelope_copy env = env"
  by (cases env) (simp add: envelope_copy_def envelope_from_identity_def)

lemma issue_cases:
  obtains (err) "key_broker_issue sha idr secr now b args = (b, Inl BNS_ECRYPTO)"
  | (ok) idb secb sk where "idr = Inr idb" "secr = Inr secb"
      "sk = \<lparr>pub = issued_key_build (hex_encode_loop idb) (arg_agent_pub_key args) (arg_ricardian_hash args)
              (arg_identity_id args) (arg_envelope args) now,
             secret_hash = sha256_str sha (''pk_'' @ hex_encode_loop secb),
             secret_hash_hex = hex_encode_loop (sha256_str sha (''pk_'' @ hex_encode_loop secb)),
             accountant = window_accountant_init (arg_envelope args), revoked_locally = False\<rparr>"
      "key_broker_issue sha idr secr now b args =
        (b\<lparr>keys := keys b @ [sk]\<rparr>, Inr (pub sk, ''pk_'' @ hex_encode_loop secb))"
proof (cases "\<exists>idb secb kid sec_hex. idr = Inr idb \<and> secr = Inr secb \<and> hex_encode_to idb 33 = Inr kid \<and>
    hex_encode_to secb 49 = Inr sec_hex \<and> length (sha256_str sha (''pk_'' @ sec_hex)) \<le> 32")
  case True
  then obtain idb secb where e: "idr = Inr idb" "secr = Inr secb" "hex_encode_to idb 33 = Inr (hex_encode_loop idb)"
      "hex_encode_to secb 49 = Inr (hex_encode_loop secb)"
      "length (sha256_str sha (''pk_'' @ hex_encode_loop secb)) \<le> 32"
    by (metis hex_encode_to_InrD)
  have env: "envelope (issued_key_build k a r i en n) = en" for k a r i en n by (simp add: issued_key_build_def)
  show thesis using e
    by (intro ok[OF e(1,2) refl])
      (simp add: key_broker_issue_def hex_encode_to_65 Let_def broker_store_def env)
next
  case False
  have "key_broker_issue sha idr secr now b args = (b, Inl BNS_ECRYPTO)"
    using False by (auto simp: key_broker_issue_def hex_encode_to_65 Let_def split: sum.splits)
  then show thesis by (rule err)
qed

definition chain_checks ::
  "'o oracle_fn \<Rightarrow> identity_chain_view_t \<Rightarrow> 'o key_broker_t \<Rightarrow> key_broker_issue_from_chain_args_t \<Rightarrow> bool" where
  "chain_checks orc view b a \<longleftrightarrow>
     fst (verify_identity_script_on_chain view (ifc_identity_id a) (ifc_identity_vout a)
            (expected_locking_script_hex a) 256) \<and>
     is_sha256_hex (ifc_ricardian_hash a) \<and> is_pubkey_hex (ifc_agent_pub_key a) \<and>
     strstr (hex_to_lower (expected_locking_script_hex a)) (hex_to_lower (ifc_ricardian_hash a)) \<and>
     strstr (hex_to_lower (expected_locking_script_hex a)) (hex_to_lower (ifc_agent_pub_key a)) \<and>
     snd (orc (oracle_of b) (ifc_identity_id a)) = Inr False"

definition chain_issue_args :: "key_broker_issue_from_chain_args_t \<Rightarrow> key_broker_issue_args_t" where
  "chain_issue_args a = \<lparr>arg_agent_pub_key = ifc_agent_pub_key a,
     arg_ricardian_hash = ifc_ricardian_hash a, arg_identity_id = ifc_identity_id a,
     arg_envelope = envelope_from_identity (ifc_params a) (ifc_scopes a)\<rparr>"

lemma issue_from_chain_ok:
  assumes "chain_checks orc view b a"
  shows "key_broker_issue_from_chain sha orc view idr secr now rsz b a =
    (let (b', r) = key_broker_issue sha idr secr now
           (b\<lparr>oracle_of := fst (orc (oracle_of b) (ifc_identity_id a))\<rparr>) (chain_issue_args a) in (b', r, ''''))"
  using assms
  by (simp add: chain_checks_def key_broker_issue_from_chain_def chain_issue_args_def Let_def case_prod_beta)

lemma issue_from_chain_refused:
  assumes "\<not> chain_checks orc view b a"
  shows "\<exists>ora' why. key_broker_issue_from_chain sha orc view idr secr now rsz b a =
    (b\<lparr>oracle_of := ora'\<rparr>, Inl BNS_EBINDING, why)"
proof -
  have self: "b\<lparr>oracle_of := oracle_of b\<rparr> = b" by simp
  obtain o' r where o: "orc (oracle_of b) (ifc_identity_id a) = (o', r)" by fastforce
  show ?thesis
  proof (cases "r = Inr False")
    case True
    then have "\<exists>why. key_broker_issue_from_chain sha orc view idr secr now rsz b a = (b, Inl BNS_EBINDING, why)"
      using assms o by (auto simp: chain_checks_def key_broker_issue_from_chain_def Let_def case_prod_beta)
    then show ?thesis using self by metis
  next
    case False
    have "\<exists>bb why. key_broker_issue_from_chain sha orc view idr secr now rsz b a = (bb, Inl BNS_EBINDING, why)
        \<and> (bb = b \<or> bb = b\<lparr>oracle_of := o'\<rparr>)"
      using False o
      by (auto simp: key_broker_issue_from_chain_def Let_def case_prod_beta split: sum.splits bool.splits)
    then show ?thesis using self by metis
  qed
qed

inductive broker_step :: "(bytes \<Rightarrow> bytes) \<Rightarrow> 'o key_broker_t \<Rightarrow> 'o key_broker_t \<Rightarrow> bool" for sha where
  issue: "env_ok (arg_envelope args) \<Longrightarrow> broker_step sha b (fst (key_broker_issue sha idr secr now b args))"
| issue_from_chain: "env_ok (envelope_from_identity (ifc_params a) (ifc_scopes a)) \<Longrightarrow>
    broker_step sha b (fst (key_broker_issue_from_chain sha orc view idr secr now rsz b a))"
| authorize: "i64 now \<Longrightarrow> broker_step sha b (fst (key_broker_authorize sha orc now b req))"
| revoke: "broker_step sha b (fst (key_broker_revoke_locally b kid))"

text \<open>
  What every step keeps of the stored keys: none disappears or moves, its public part and its
  hash are fixed, and the revocation latch is never cleared.
\<close>

definition keys_kept :: "'o key_broker_t \<Rightarrow> 'o key_broker_t \<Rightarrow> bool" where
  "keys_kept b b' \<longleftrightarrow> length (keys b) \<le> length (keys b') \<and>
     (\<forall>i < length (keys b). pub (keys b' ! i) = pub (keys b ! i) \<and>
        secret_hash (keys b' ! i) = secret_hash (keys b ! i) \<and>
        secret_hash_hex (keys b' ! i) = secret_hash_hex (keys b ! i) \<and>
        (revoked_locally (keys b ! i) \<longrightarrow> revoked_locally (keys b' ! i)))"

lemma keys_kept_refl [simp]: "keys_kept b b"
  by (simp add: keys_kept_def)

lemma keys_kept_trans: "keys_kept a b \<Longrightarrow> keys_kept b c \<Longrightarrow> keys_kept a c"
  by (auto simp: keys_kept_def)

lemma keys_kept_update:
  assumes "keys b' = (keys b)[i := k]" "pub k = pub (keys b ! i)" "secret_hash k = secret_hash (keys b ! i)"
    "secret_hash_hex k = secret_hash_hex (keys b ! i)" "revoked_locally (keys b ! i) \<longrightarrow> revoked_locally k"
  shows "keys_kept b b'"
proof -
  have e: "(keys b)[i := k] ! j = (if j = i then k else keys b ! j)" if "j < length (keys b)" for j
    using that by (cases "j = i") auto
  show ?thesis unfolding keys_kept_def assms(1)
  proof (intro conjI allI impI)
    fix j assume "j < length (keys b)"
    note e[OF this]
    then show "pub ((keys b)[i := k] ! j) = pub (keys b ! j)"
      "secret_hash ((keys b)[i := k] ! j) = secret_hash (keys b ! j)"
      "secret_hash_hex ((keys b)[i := k] ! j) = secret_hash_hex (keys b ! j)"
      "revoked_locally (keys b ! j) \<Longrightarrow> revoked_locally ((keys b)[i := k] ! j)"
      using assms(2-) by auto
  qed simp
qed

lemma authorize_kept: "keys_kept b (fst (key_broker_authorize sha orc now b req))"
proof (cases rule: authorize_cases[of sha b req orc now])
  case (revoked i o')
  then show ?thesis
    by (intro keys_kept_update[where i = i and k = "(keys b ! i)\<lparr>revoked_locally := True\<rparr>"]) auto
next
  case (metered i o' acc' c)
  then show ?thesis
    by (intro keys_kept_update[where i = i and k = "(keys b ! i)\<lparr>accountant := acc'\<rparr>"]) auto
qed (auto simp: keys_kept_def)

lemma authorize_inv:
  assumes "broker_inv b" "i64 now"
  shows "broker_inv (fst (key_broker_authorize sha orc now b req))"
proof -
  have k: "key_ok (keys b ! i)" if "lookup_by_secret sha b (secret req) = Some i" for i
    using broker_inv_nth[OF assms(1)] lookup_by_secret_Some[OF that] by blast
  show ?thesis
  proof (cases rule: authorize_cases[of sha b req orc now])
    case (revoked i o')
    have "broker_inv (b\<lparr>keys := (keys b)[i := (keys b ! i)\<lparr>revoked_locally := True\<rparr>]\<rparr>)"
      using k[OF revoked(1)] assms(1) by (intro broker_inv_update) (simp_all add: key_ok_def)
    then show ?thesis using revoked(4) by (simp add: broker_inv_def)
  next
    case (metered i o' acc' c)
    have "acc_inv acc'" "acc_envelope acc' = acc_envelope (accountant (keys b ! i))"
      using acc_inv_charge[of "accountant (keys b ! i)" now "amount req"] k[OF metered(1)] assms(2) metered(5)
        charge_envelope[of "accountant (keys b ! i)" "amount req" now] by (auto simp: key_ok_def)
    then have "broker_inv (b\<lparr>keys := (keys b)[i := (keys b ! i)\<lparr>accountant := acc'\<rparr>]\<rparr>)"
      using k[OF metered(1)] assms(1) by (intro broker_inv_update) (simp_all add: key_ok_def)
    then show ?thesis using metered(6) by (simp add: broker_inv_def)
  qed (use assms in \<open>auto simp: broker_inv_def\<close>)
qed

lemma issue_step:
  assumes "env_ok (arg_envelope args)"
  shows "keys_kept b (fst (key_broker_issue sha idr secr now b args))"
    and "broker_inv b \<Longrightarrow> broker_inv (fst (key_broker_issue sha idr secr now b args))"
proof -
  show "keys_kept b (fst (key_broker_issue sha idr secr now b args))"
    by (cases rule: issue_cases[of sha idr secr now b args]) (auto simp: keys_kept_def nth_append)
  show "broker_inv (fst (key_broker_issue sha idr secr now b args))" if "broker_inv b"
  proof (cases rule: issue_cases[of sha idr secr now b args])
    case err
    then show ?thesis using that by simp
  next
    case (ok idb secb sk)
    have "key_ok sk" using ok(3) acc_inv_init[OF assms]
      by (simp add: key_ok_def issued_key_build_def window_accountant_init_def)
    then show ?thesis using ok(4) that by (simp add: broker_inv_def)
  qed
qed

lemma issue_from_chain_step:
  assumes "env_ok (envelope_from_identity (ifc_params a) (ifc_scopes a))"
  shows "keys_kept b (fst (key_broker_issue_from_chain sha orc view idr secr now rsz b a)) \<and>
    (broker_inv b \<longrightarrow> broker_inv (fst (key_broker_issue_from_chain sha orc view idr secr now rsz b a)))"
proof (cases "chain_checks orc view b a")
  case True
  let ?b = "b\<lparr>oracle_of := fst (orc (oracle_of b) (ifc_identity_id a))\<rparr>"
  have e: "env_ok (arg_envelope (chain_issue_args a))" using assms by (simp add: chain_issue_args_def)
  have f: "fst (key_broker_issue_from_chain sha orc view idr secr now rsz b a) =
      fst (key_broker_issue sha idr secr now ?b (chain_issue_args a))"
    by (simp add: issue_from_chain_ok[OF True] case_prod_beta)
  have "keys_kept b ?b" "broker_inv b \<Longrightarrow> broker_inv ?b" by (simp_all add: keys_kept_def broker_inv_def)
  then show ?thesis unfolding f using issue_step[OF e, where b = ?b] keys_kept_trans by blast
next
  case False
  then show ?thesis using issue_from_chain_refused[OF False, of sha idr secr now rsz]
    by (auto simp: keys_kept_def broker_inv_def)
qed

lemma revoke_step:
  "keys_kept b (fst (key_broker_revoke_locally b kid))"
  "broker_inv b \<Longrightarrow> broker_inv (fst (key_broker_revoke_locally b kid))"
proof -
  show "keys_kept b (fst (key_broker_revoke_locally b kid))"
  proof (cases "find_by_key_id b kid")
    case (Some i)
    then show ?thesis 
      by (intro keys_kept_update[where i = i and k = "(keys b ! i)\<lparr>revoked_locally := True\<rparr>"])
        (auto simp: key_broker_revoke_locally_def)
  qed (simp add: key_broker_revoke_locally_def)
  assume inv: "broker_inv b"
  show "broker_inv (fst (key_broker_revoke_locally b kid))"
  proof (cases "find_by_key_id b kid")
    case (Some i)
    then have "key_ok (keys b ! i)"
      using inv broker_inv_nth by (auto simp: find_by_key_id_def dest: find_idx_Some)
    then show ?thesis using Some inv broker_inv_update[OF inv, of "(keys b ! i)\<lparr>revoked_locally := True\<rparr>" i]
      by (simp add: key_broker_revoke_locally_def key_ok_def)
  qed (use inv in \<open>simp add: key_broker_revoke_locally_def\<close>)
qed

lemma step_keeps: "broker_step sha b b' \<Longrightarrow> keys_kept b b' \<and> (broker_inv b \<longrightarrow> broker_inv b')"
  by (induction rule: broker_step.induct)
    (auto simp: issue_step issue_from_chain_step authorize_kept authorize_inv revoke_step)

lemma steps_keep: "(broker_step sha)\<^sup>*\<^sup>* b b' \<Longrightarrow> keys_kept b b' \<and> (broker_inv b \<longrightarrow> broker_inv b')"
  by (induction rule: rtranclp_induct) (auto dest: step_keeps intro: keys_kept_trans)

text \<open>A secret that resolves to a key resolves to it for ever.\<close>

lemma find_idx_stable:
  assumes "find_idx P xs = Some i" "length xs \<le> length ys" "\<And>j. j < length xs \<Longrightarrow> P (ys ! j) = P (xs ! j)"
  shows "find_idx P ys = Some i"
  using assms
proof (induction xs arbitrary: ys i)
  case (Cons x xs)
  then obtain y ys' where y: "ys = y # ys'" by (cases ys) auto
  have p: "P y = P x" using Cons.prems(3)[of 0] y by simp
  have "P (ys' ! j) = P (xs ! j)" if "j < length xs" for j using Cons.prems(3)[of "Suc j"] that y by simp
  then show ?case using Cons.IH[of _ ys'] Cons.prems(1,2) p y by (auto split: if_splits)
qed simp

lemma lookup_stable:
  assumes "keys_kept b b'" "lookup_by_secret sha b sec = Some i"
  shows "lookup_by_secret sha b' sec = Some i"
proof -
  obtain s hx where s: "sec = Some s" "hex_encode_to (sha256_str sha s) 65 = Inr hx"
      "find_idx (\<lambda>k. secret_hash_hex k = hx) (keys b) = Some i" "secret_hash (keys b ! i) = sha256_str sha s"
    using assms(2) by (auto simp: lookup_by_secret_def Let_def split: option.splits sum.splits if_splits)
  have i: "i < length (keys b)" using find_idx_Some[OF s(3)] by simp
  have "find_idx (\<lambda>k. secret_hash_hex k = hx) (keys b') = Some i"
    using assms(1) by (intro find_idx_stable[OF s(3)]) (auto simp: keys_kept_def)
  moreover have "secret_hash (keys b' ! i) = sha256_str sha s" using assms(1) s(4) i by (auto simp: keys_kept_def)
  ultimately show ?thesis using s by (simp add: lookup_by_secret_def)
qed

section \<open>The broker relies on the oracle\<close>

context revocation_oracle begin

lemma allowed_not_gone:
  assumes "inv (oracle_of b)" "allowed (snd (key_broker_authorize sha is_revoked now b req))"
    and "lookup_by_secret sha b (secret req) = Some i"
  shows "\<not> gone (identity_id (pub (keys b ! i)))"
  using assms answer
  by (cases rule: authorize_cases[of sha b req is_revoked now]) (auto simp: decision_deny_def)

lemma gone_denied_or_latched:
  assumes "inv (oracle_of b)" "lookup_by_secret sha b (secret req) = Some i"
    and "gone (identity_id (pub (keys b ! i)))"
  shows "\<not> allowed (snd (key_broker_authorize sha is_revoked now b req))"
  using allowed_not_gone[OF assms(1) _ assms(2)] assms(3) by blast

lemma issue_not_gone:
  assumes "inv (oracle_of b)" "chain_checks is_revoked view b a"
  shows "\<not> gone (ifc_identity_id a)"
  using assms answer[of "oracle_of b" "ifc_identity_id a" "fst (is_revoked (oracle_of b) (ifc_identity_id a))" False]
  by (simp add: chain_checks_def prod_eq_iff)

end

section \<open>Properties\<close>

lemma authorize_decides:
  assumes "broker_inv b"
  shows "allowed (snd (key_broker_authorize sha orc now b req)) \<longleftrightarrow>
    (\<exists>i. lookup_by_secret sha b (secret req) = Some i \<and> \<not> revoked_locally (keys b ! i) \<and>
      snd (orc (oracle_of b) (identity_id (pub (keys b ! i)))) = Inr False \<and>
      scope_granted (keys b ! i) (scope req) \<and> charge_ok (accountant (keys b ! i)) (amount req) now)"
proof (cases rule: authorize_cases[of sha b req orc now])
  case (metered i o' acc' c)
  have "acc_inv (accountant (keys b ! i))"
    using broker_inv_nth[OF assms] lookup_by_secret_Some[OF metered(1)] by (simp add: key_ok_def)
  from charge_allowed_iff[OF this, of "amount req" now] show ?thesis using metered by simp
qed (auto simp: decision_deny_def)

lemma lookup_decides:
  assumes "broker_inv b" "lookup_by_secret sha b (secret req) = Some i"
  shows "allowed (snd (key_broker_authorize sha orc now b req)) \<longleftrightarrow> \<not> revoked_locally (keys b ! i) \<and>
      snd (orc (oracle_of b) (identity_id (pub (keys b ! i)))) = Inr False \<and>
      scope_granted (keys b ! i) (scope req) \<and> charge_ok (accountant (keys b ! i)) (amount req) now"
  using authorize_decides[OF assms(1)] assms(2) by simp

text \<open>
  C1. Authorization is decided exactly: a request is allowed if and only if its secret
  resolves to a stored key that is not locally revoked, the oracle answers, without error, that
  the key's identity is not revoked, the scope is one of the key's scopes, and the amount is
  positive, within the per-call cap and within what the current window has left.
\<close>

theorem authorize_allowed_iff:
  assumes "broker_inv b"
  shows "allowed (snd (key_broker_authorize sha orc now b req)) \<longleftrightarrow>
    (\<exists>i. lookup_by_secret sha b (secret req) = Some i \<and> \<not> revoked_locally (keys b ! i) \<and>
      snd (orc (oracle_of b) (identity_id (pub (keys b ! i)))) = Inr False \<and>
      scope_granted (keys b ! i) (scope req) \<and> charge_ok (accountant (keys b ! i)) (amount req) now)"
  using assms by (rule authorize_decides)

definition demo_key :: stored_key_t where
  "demo_key = \<lparr>pub = \<lparr>key_id = ''k'', agent_pub_key = '''', ricardian_hash = '''', identity_id = ''c'',
       envelope = demo_env, created_at = 0\<rparr>, secret_hash = [7], secret_hash_hex = ''07'',
     accountant = window_accountant_init demo_env, revoked_locally = False\<rparr>"

definition demo_broker :: "chain_revocation_oracle_t key_broker_t" where
  "demo_broker = \<lparr>oracle_of = demo_oracle, keys = [demo_key], scope_reason = ''''\<rparr>"

definition demo_req :: "string \<Rightarrow> int \<Rightarrow> authorization_request_t" where
  "demo_req sc n = \<lparr>secret = Some ''s'', scope = Some sc, amount = n\<rparr>"

lemma demo_broker_inv: "broker_inv demo_broker"
proof -
  have "env_ok demo_env" by (simp add: demo_env_def env_ok_def i64_def)
  moreover have "hex_encode_loop [7] = ''07''" by code_simp
  ultimately show ?thesis
    using acc_inv_init[of demo_env]
    by (simp add: broker_inv_def demo_broker_def demo_key_def key_ok_def window_accountant_init_def)
qed

lemma demo_lookup:
  "lookup_by_secret (\<lambda>_. [7]) demo_broker (Some ''s'') = Some 0"
  "lookup_by_secret (\<lambda>_. [7]) (fst (key_broker_revoke_locally demo_broker ''k'')) (Some ''s'') = Some 0"
  "revoked_locally (keys (fst (key_broker_revoke_locally demo_broker ''k'')) ! 0)"
proof -
  have "hex_encode_loop [7] = ''07''" by code_simp
  then show "lookup_by_secret (\<lambda>_. [7]) demo_broker (Some ''s'') = Some 0"
    "lookup_by_secret (\<lambda>_. [7]) (fst (key_broker_revoke_locally demo_broker ''k'')) (Some ''s'') = Some 0"
    "revoked_locally (keys (fst (key_broker_revoke_locally demo_broker ''k'')) ! 0)"
    by (simp_all add: lookup_by_secret_def sha256_str_def hex_encode_to_65 demo_broker_def demo_key_def
        key_broker_revoke_locally_def find_by_key_id_def)
qed

lemma demo_answers:
  "snd (chain_revocation_oracle_is_revoked demo_source demo_oracle ''c'') = Inr False"
  "charge_ok (window_accountant_init demo_env) 60 5"
  by code_simp+

lemma demo_allowed:
  "allowed (snd (key_broker_authorize (\<lambda>_. [7]) (chain_revocation_oracle_is_revoked demo_source) 5
     demo_broker (demo_req ''read'' 60)))"
proof (cases rule: authorize_cases[of "\<lambda>_. [7]" demo_broker "demo_req ''read'' 60"
      "chain_revocation_oracle_is_revoked demo_source" 5])
  case (metered i o' acc' c)
  then have "i = 0" using demo_lookup(1) by (simp add: demo_req_def)
  moreover have "acc_inv (window_accountant_init demo_env)"
    by (rule acc_inv_init) (simp add: demo_env_def env_ok_def i64_def)
  ultimately show ?thesis using metered(5,7) demo_answers(2) charge_allowed_iff[of "window_accountant_init demo_env" 60 5]
    by (simp add: demo_broker_def demo_key_def demo_req_def)
qed (use demo_lookup demo_answers in
  \<open>auto simp: demo_req_def demo_broker_def demo_key_def scope_granted_def demo_env_def\<close>)

theorem authorize_allowed_iff_witness:
  "scope_granted demo_key (Some ''read'') \<and>
   \<not> allowed (snd (key_broker_authorize (\<lambda>_. [7]) (chain_revocation_oracle_is_revoked demo_source) 5
     demo_broker (demo_req ''write'' 60)))"
proof
  show "scope_granted demo_key (Some ''read'')"
    by (simp add: scope_granted_def demo_key_def demo_env_def)
  have "\<not> scope_granted demo_key (Some ''write'')"
    by (simp add: scope_granted_def demo_key_def demo_env_def)
  then show "\<not> allowed (snd (key_broker_authorize (\<lambda>_. [7]) (chain_revocation_oracle_is_revoked demo_source) 5
     demo_broker (demo_req ''write'' 60)))"
    using authorize_allowed_iff[OF demo_broker_inv, of "\<lambda>_. [7]"
        "chain_revocation_oracle_is_revoked demo_source" 5 "demo_req ''write'' 60"] demo_lookup(1)
    by (simp add: demo_req_def demo_broker_def)
qed

text \<open>
  C4. No key of a dissolved identity authorizes anything: when the broker's oracle is the
  chain oracle in a state that is sound for the ledger and the source is honest about it, an
  allowed request's identity has not been dissolved on that ledger.
\<close>

theorem authorize_respects_chain:
  assumes "oracle_inv L (oracle_of b)" "honest src (identity_vout (oracle_of b)) L"
    and "lookup_by_secret sha b (secret req) = Some i"
    and "allowed (snd (key_broker_authorize sha (chain_revocation_oracle_is_revoked src) now b req))"
  shows "\<not> dissolved L (identity_id (pub (keys b ! i)))"
proof -
  have "oracle_trusts src L (oracle_of b)" using assms(1,2) by (simp add: oracle_trusts_def)
  from cro.allowed_not_gone[OF this assms(4,3)] show ?thesis .
qed

theorem authorize_respects_chain_witness:
  "\<not> dissolved demo_ledger (identity_id (pub demo_key))"
proof -
  have "lookup_by_secret (\<lambda>_. [7]) demo_broker (secret (demo_req ''read'' 60)) = Some 0"
    using demo_lookup(1) by (simp add: demo_req_def)
  moreover note demo_allowed
  moreover have "oracle_inv demo_ledger (oracle_of demo_broker)"
    "honest demo_source (identity_vout (oracle_of demo_broker)) demo_ledger"
    using oracle_reach_inv[OF demo_oracle_facts(1)] demo_oracle_facts(2) by (simp_all add: demo_broker_def)
  ultimately show ?thesis
    using authorize_respects_chain[of demo_ledger demo_broker demo_source "\<lambda>_. [7]" "demo_req ''read'' 60" 0 5]
    by (simp add: demo_broker_def)
qed

text \<open>
  C5. Revocation is final: once a key is latched as revoked, in every state the broker
  reaches by any sequence of operations, every request with a secret that resolved to that key
  is refused as revoked, without consulting the oracle and without changing the broker.
\<close>

theorem revocation_is_final:
  assumes "lookup_by_secret sha b sec = Some i" "revoked_locally (keys b ! i)" "(broker_step sha)\<^sup>*\<^sup>* b b'"
    and "secret req = sec"
  shows "key_broker_authorize sha orc now b' req = (b', decision_deny ''key revoked'' (Some (keys b' ! i))) \<and>
    pub (keys b' ! i) = pub (keys b ! i)"
proof -
  have k: "keys_kept b b'" using steps_keep[OF assms(3)] by blast
  have i: "i < length (keys b)" using lookup_by_secret_Some[OF assms(1)] by blast
  have "lookup_by_secret sha b' (secret req) = Some i" using lookup_stable[OF k assms(1)] assms(4) by simp
  moreover have "revoked_locally (keys b' ! i)" "pub (keys b' ! i) = pub (keys b ! i)"
    using k i assms(2) by (auto simp: keys_kept_def)
  ultimately show ?thesis by (simp add: key_broker_authorize_def)
qed

theorem revocation_is_final_witness:
  "\<not> allowed (snd (key_broker_authorize (\<lambda>_. [7]) (chain_revocation_oracle_is_revoked demo_source) 5
     (fst (key_broker_revoke_locally demo_broker ''k'')) (demo_req ''read'' 60)))"
proof -
  let ?b = "fst (key_broker_revoke_locally demo_broker ''k'')"
  from revocation_is_final[OF demo_lookup(2,3) rtranclp.rtrancl_refl, of "demo_req ''read'' 60"
      "chain_revocation_oracle_is_revoked demo_source" 5]
  show ?thesis by (simp add: demo_req_def decision_deny_def)
qed

lemma issue_ok:
  assumes "length idb \<le> 16" "length secb \<le> 24" "length (sha256_str sha (''pk_'' @ hex_encode_loop secb)) \<le> 32"
  shows "\<exists>sk. key_broker_issue sha (Inr idb) (Inr secb) now b args =
      (b\<lparr>keys := keys b @ [sk]\<rparr>, Inr (pub sk, ''pk_'' @ hex_encode_loop secb)) \<and>
    pub sk = issued_key_build (hex_encode_loop idb) (arg_agent_pub_key args) (arg_ricardian_hash args)
              (arg_identity_id args) (arg_envelope args) now \<and>
    secret_hash sk = sha256_str sha (''pk_'' @ hex_encode_loop secb) \<and>
    accountant sk = window_accountant_init (arg_envelope args) \<and> \<not> revoked_locally sk \<and>
    secret_hash_hex sk = hex_encode_loop (secret_hash sk)"
proof -
  have "hex_encode_to idb 33 = Inr (hex_encode_loop idb)" "hex_encode_to secb 49 = Inr (hex_encode_loop secb)"
    using assms by (auto simp: hex_encode_to_def SIZE_MAX_def)
  moreover have "envelope (issued_key_build k a r i en n) = en" for k a r i en n by (simp add: issued_key_build_def)
  ultimately show ?thesis using assms(3)
    by (auto simp: key_broker_issue_def hex_encode_to_65 Let_def broker_store_def)
qed

text \<open>
  C3. A key is issued only for what the chain shows: if issuing from the chain returns a key,
  then the identity's transaction was fetched and parsed, the named output's script is exactly
  the expected one, the script contains the well-formed charter hash and agent key, the
  identity is not dissolved on the ledger, and the stored key carries the chain's caps and the
  given scopes, unspent and not revoked. If it does not return a key, no key is stored.
\<close>

theorem issue_from_chain_bound:
  assumes "oracle_inv L (oracle_of b)" "honest src (identity_vout (oracle_of b)) L"
  shows "case key_broker_issue_from_chain sha (chain_revocation_oracle_is_revoked src)
        (csiv_get_identity_script_hex src) idr secr now rsz b a of
      (b', Inl e, why) \<Rightarrow> keys b' = keys b
    | (b', Inr (k, sec), why) \<Rightarrow>
        (\<exists>raw tx. get_raw_tx src (ifc_identity_id a) = Inr (Some raw) \<and> tx_deserialize raw = Inr tx \<and>
          unat (ifc_identity_vout a) < length (outputs tx) \<and>
          hex_encode (script (outputs tx ! unat (ifc_identity_vout a))) =
            Some (map tolower (expected_locking_script_hex a))) \<and>
        is_sha256_hex (ifc_ricardian_hash a) \<and> is_pubkey_hex (ifc_agent_pub_key a) \<and>
        strstr (hex_to_lower (expected_locking_script_hex a)) (hex_to_lower (ifc_ricardian_hash a)) \<and>
        strstr (hex_to_lower (expected_locking_script_hex a)) (hex_to_lower (ifc_agent_pub_key a)) \<and>
        \<not> dissolved L (ifc_identity_id a) \<and>
        (\<exists>sk. keys b' = keys b @ [sk] \<and> pub sk = k \<and> \<not> revoked_locally sk \<and>
          envelope k = envelope_from_identity (ifc_params a) (ifc_scopes a) \<and>
          identity_id k = ifc_identity_id a \<and> accountant sk = window_accountant_init (envelope k))"
proof (cases "chain_checks (chain_revocation_oracle_is_revoked src) (csiv_get_identity_script_hex src) b a")
  case False
  from issue_from_chain_refused[OF False, of sha idr secr now rsz] show ?thesis by auto
next
  case True
  let ?orc = "chain_revocation_oracle_is_revoked src"
  let ?b = "b\<lparr>oracle_of := fst (?orc (oracle_of b) (ifc_identity_id a))\<rparr>"
  have nd: "\<not> dissolved L (ifc_identity_id a)"
    using cro.issue_not_gone[OF _ True] assms by (simp add: oracle_trusts_def)
  show ?thesis
  proof (cases rule: issue_cases[of sha idr secr now ?b "chain_issue_args a"])
    case err
    then show ?thesis by (simp add: issue_from_chain_ok[OF True])
  next
    case (ok idb secb sk)
    have "identity_id (pub sk) = ifc_identity_id a"
      "envelope (pub sk) = envelope_from_identity (ifc_params a) (ifc_scopes a)"
      "accountant sk = window_accountant_init (envelope (pub sk))" "\<not> revoked_locally sk"
      using ok(3) by (simp_all add: issued_key_build_def chain_issue_args_def)
    moreover have "fst (verify_identity_script_on_chain (csiv_get_identity_script_hex src) (ifc_identity_id a)
        (ifc_identity_vout a) (expected_locking_script_hex a) 256)" using True by (simp add: chain_checks_def)
    ultimately show ?thesis
      using ok(4) nd True verified_script[of src "ifc_identity_id a" "ifc_identity_vout a"]
      by (simp add: issue_from_chain_ok[OF True] chain_checks_def)
  qed
qed

definition demo_script_hex :: string where
  "demo_script_hex = replicate 64 (CHR ''a'') @ ''02'' @ replicate 64 (CHR ''b'')"

definition demo_chain :: chain_source_t where
  "demo_chain = \<lparr>get_raw_tx = (\<lambda>t. if t = ''g'' then
       Inr (Some (''010000000001010000000000000041'' @ demo_script_hex @ ''00000000'')) else Inl BNS_ENOTFOUND),
     get_time = (\<lambda>_. Inl BNS_ENET), has_spend_index = True, get_spending_txid = (\<lambda>_ _. Inr None)\<rparr>"

definition demo_chain_args :: key_broker_issue_from_chain_args_t where
  "demo_chain_args = \<lparr>ifc_identity_id = ''g'', ifc_identity_vout = 0,
     expected_locking_script_hex = demo_script_hex,
     ifc_agent_pub_key = ''02'' @ replicate 64 (CHR ''b''), ifc_ricardian_hash = replicate 64 (CHR ''a''),
     ifc_params = \<lparr>per_tx_limit = 60, daily_limit = 100, window_duration_p = 10\<rparr>, ifc_scopes = [''read'']\<rparr>"

definition demo_chain_ledger :: ledger where
  "demo_chain_ledger = \<lparr>spent_by = (\<lambda>_. None), raw_of = (\<lambda>t. if t = ''g'' then
     Some (''010000000001010000000000000041'' @ demo_script_hex @ ''00000000'') else None)\<rparr>"

lemma demo_chain_checks:
  "chain_checks (chain_revocation_oracle_is_revoked demo_chain) (csiv_get_identity_script_hex demo_chain)
     (key_broker_new demo_oracle) demo_chain_args"
proof -
  let ?s = "replicate 32 0xaa @ [2] @ replicate 32 0xbb :: bytes"
  have t: "tx_deserialize (''010000000001010000000000000041'' @ demo_script_hex @ ''00000000'') =
      Inr \<lparr>version = 1, inputs = [], outputs = [\<lparr>satoshis = 1, script = ?s\<rparr>], locktime = 0\<rparr>"
    by code_simp
  have h: "hex_encode_loop ?s = map tolower demo_script_hex" by code_simp
  have "hex_encode ?s = Some (map tolower demo_script_hex)"
    using hex_encode_small[of ?s] h by (simp add: SIZE_MAX_def)
  then have "fst (verify_identity_script_on_chain (csiv_get_identity_script_hex demo_chain) ''g'' 0 demo_script_hex 256)"
    using t unfolding verified_script by (simp add: demo_chain_def)
  moreover have "is_sha256_hex (ifc_ricardian_hash demo_chain_args)" "is_pubkey_hex (ifc_agent_pub_key demo_chain_args)"
    "strstr (hex_to_lower (expected_locking_script_hex demo_chain_args)) (hex_to_lower (ifc_ricardian_hash demo_chain_args))"
    "strstr (hex_to_lower (expected_locking_script_hex demo_chain_args)) (hex_to_lower (ifc_agent_pub_key demo_chain_args))"
    "snd (chain_revocation_oracle_is_revoked demo_chain (oracle_of (key_broker_new demo_oracle)) (ifc_identity_id demo_chain_args)) = Inr False"
    by code_simp+
  ultimately show ?thesis by (simp add: chain_checks_def demo_chain_args_def)
qed

theorem issue_from_chain_bound_witness:
  "\<exists>b' k sec. key_broker_issue_from_chain (\<lambda>_. []) (chain_revocation_oracle_is_revoked demo_chain)
      (csiv_get_identity_script_hex demo_chain) (Inr []) (Inr []) 9 64 (key_broker_new demo_oracle) demo_chain_args =
      (b', Inr (k, sec), '''') \<and> envelope k = demo_env \<and> \<not> dissolved demo_chain_ledger ''g''"
proof -
  have h: "oracle_inv demo_chain_ledger (oracle_of (key_broker_new demo_oracle :: chain_revocation_oracle_t key_broker_t))"
    "honest demo_chain (identity_vout (oracle_of (key_broker_new demo_oracle))) demo_chain_ledger"
    by (auto simp: oracle_inv_def key_broker_new_def demo_oracle_def honest_def demo_chain_def demo_chain_ledger_def
        split: if_splits)
  let ?ora = "fst (chain_revocation_oracle_is_revoked demo_chain (oracle_of (key_broker_new demo_oracle)) (ifc_identity_id demo_chain_args))"
  have "length (sha256_str (\<lambda>_. []) (''pk_'' @ hex_encode_loop [])) \<le> 32" by (simp add: sha256_str_def)
  then obtain sk where sk: "key_broker_issue (\<lambda>_. []) (Inr []) (Inr []) 9
      ((key_broker_new demo_oracle)\<lparr>oracle_of := ?ora\<rparr>) (chain_issue_args demo_chain_args) =
      ((key_broker_new demo_oracle)\<lparr>oracle_of := ?ora, keys := keys ((key_broker_new demo_oracle)\<lparr>oracle_of := ?ora\<rparr>) @ [sk]\<rparr>,
       Inr (pub sk, ''pk_'' @ hex_encode_loop []))"
    using issue_ok[of "[]" "[]" "\<lambda>_. []" 9 "(key_broker_new demo_oracle)\<lparr>oracle_of := ?ora\<rparr>" "chain_issue_args demo_chain_args"]
    by auto
  have r: "\<exists>b' k sec. key_broker_issue_from_chain (\<lambda>_. []) (chain_revocation_oracle_is_revoked demo_chain)
      (csiv_get_identity_script_hex demo_chain) (Inr []) (Inr []) 9 64 (key_broker_new demo_oracle) demo_chain_args =
      (b', Inr (k, sec), '''')"
    unfolding issue_from_chain_ok[OF demo_chain_checks] sk by simp
  have "envelope_from_identity (ifc_params demo_chain_args) (ifc_scopes demo_chain_args) = demo_env"
    "ifc_identity_id demo_chain_args = ''g''"
    by (simp_all add: demo_chain_args_def envelope_from_identity_def demo_env_def)
  then show ?thesis
    using issue_from_chain_bound[OF h, where sha = "\<lambda>_. []" and idr = "Inr []" and secr = "Inr []" and now = 9
        and rsz = 64 and a = demo_chain_args] r by auto
qed

text \<open>
  The returned secret works: after a successful issue, unless an earlier key already has
  the secret's hash, the secret resolves to the new key, and a request with it is allowed
  exactly when the oracle says the identity is live, the scope is granted and the amount is
  within both caps.
\<close>

theorem issued_secret_authorizes:
  assumes "broker_inv b" "env_ok (arg_envelope args)" "\<forall>x. length (sha x) = 32"
    and "key_broker_issue sha idr secr now b args = (b', Inr (k, sec))"
    and "\<forall>k' \<in> set (keys b). secret_hash k' \<noteq> sha256_str sha sec"
    and "secret req = Some sec"
  shows "allowed (snd (key_broker_authorize sha orc t b' req)) \<longleftrightarrow>
    snd (orc (oracle_of b) (arg_identity_id args)) = Inr False \<and>
    (\<exists>s. scope req = Some s \<and> s \<in> set (scopes (arg_envelope args))) \<and>
    0 < amount req \<and> amount req \<le> per_call (arg_envelope args) \<and> amount req \<le> per_window (arg_envelope args)"
proof (cases rule: issue_cases[of sha idr secr now b args])
  case err
  then show ?thesis using assms(4) by simp
next
  case (ok idb secb sk)
  have b': "b' = b\<lparr>keys := keys b @ [sk]\<rparr>" and sec: "sec = ''pk_'' @ hex_encode_loop secb"
    using ok(4) assms(4) by auto
  have inv: "broker_inv b'" using issue_step(2)[OF assms(2,1), of sha idr secr now] assms(4) by simp
  have hit: "find_idx P (xs @ [x]) = Some (length xs)" if "\<forall>y \<in> set xs. \<not> P y" "P x" for P and xs :: "'z list" and x
    using that by (induction xs) auto
  have "lookup_by_secret sha b' (Some sec) = Some (length (keys b))"
    using lookup_by_secret_eq[OF inv, of sha sec] assms(3,5) hit[of "keys b" "\<lambda>k. secret_hash k = sha256_str sha sec" sk]
      ok(3) sec b' by (simp add: sha256_str_def)
  moreover have "keys b' ! length (keys b) = sk" "oracle_of b' = oracle_of b" by (simp_all add: b')
  moreover have "scope_granted sk sc \<longleftrightarrow> (\<exists>s. sc = Some s \<and> s \<in> set (scopes (arg_envelope args)))" for sc
    using ok(3) by (simp add: scope_granted_def issued_key_build_def)
  moreover have "charge_ok (accountant sk) n t \<longleftrightarrow> 0 < n \<and> n \<le> per_call (arg_envelope args) \<and> n \<le> per_window (arg_envelope args)" for n
    using ok(3) by (simp add: charge_ok_def base_spent_def rolls_def window_accountant_init_def)
  ultimately show ?thesis
    using lookup_decides[OF inv, of sha req] assms(6) ok(3) by (simp add: issued_key_build_def)
qed

theorem issued_secret_authorizes_witness:
  "\<exists>b' k sec. key_broker_issue (\<lambda>_. replicate 32 1) (Inr [1]) (Inr [2]) 0 (key_broker_new ())
      \<lparr>arg_agent_pub_key = '''', arg_ricardian_hash = '''', arg_identity_id = ''i'', arg_envelope = demo_env\<rparr> =
      (b', Inr (k, sec)) \<and>
    allowed (snd (key_broker_authorize (\<lambda>_. replicate 32 1) (\<lambda>_ _. ((), Inr False)) 5 b'
      \<lparr>secret = Some sec, scope = Some ''read'', amount = 60\<rparr>))"
proof -
  let ?sha = "\<lambda>_ :: bytes. replicate 32 (1 :: byte)"
  let ?a = "\<lparr>arg_agent_pub_key = '''', arg_ricardian_hash = '''', arg_identity_id = ''i'', arg_envelope = demo_env\<rparr>"
  have inv: "broker_inv (key_broker_new ())" by (simp add: broker_inv_def key_broker_new_def)
  have env: "env_ok (arg_envelope ?a)" by (simp add: demo_env_def env_ok_def i64_def)
  have l: "\<forall>x. length (?sha x) = 32" by simp
  obtain b' k sec where r: "key_broker_issue ?sha (Inr [1]) (Inr [2]) 0 (key_broker_new ()) ?a = (b', Inr (k, sec))"
    using issue_ok[of "[1]" "[2]" ?sha 0 "key_broker_new ()" ?a] by (auto simp: sha256_str_def)
  have "\<forall>k' \<in> set (keys (key_broker_new ())). secret_hash k' \<noteq> sha256_str ?sha sec"
    by (simp add: key_broker_new_def)
  from issued_secret_authorizes[OF inv env l r this, of "\<lparr>secret = Some sec, scope = Some ''read'', amount = 60\<rparr>"
      "\<lambda>_ _. ((), Inr False)" 5] r
  show ?thesis by (auto simp: demo_env_def)
qed

section \<open>Spending through the broker\<close>

text \<open>A run of authorization requests, each with the oracle's answers and the clock reading it met.\<close>

type_synonym 'o auth_call = "'o oracle_fn \<times> int \<times> authorization_request_t"

text \<open>What the run grants to the requests whose secret has the hash \<open>h\<close>.\<close>

definition uses_hash :: "(bytes \<Rightarrow> bytes) \<Rightarrow> bytes \<Rightarrow> authorization_request_t \<Rightarrow> bool" where
  "uses_hash sha h req \<longleftrightarrow> (\<exists>s. secret req = Some s \<and> sha256_str sha s = h)"

fun run_granted :: "(bytes \<Rightarrow> bytes) \<Rightarrow> bytes \<Rightarrow> 'o key_broker_t \<Rightarrow> 'o auth_call list \<Rightarrow> int" where
  "run_granted sha h b [] = 0"
| "run_granted sha h b ((orc, now, req) # cs) =
     (let (b', d) = key_broker_authorize sha orc now b req in
      (if allowed d \<and> uses_hash sha h req then amount req else 0) + run_granted sha h b' cs)"

lemma lookup_uses_hash:
  assumes "lookup_by_secret sha b (Some s0) = Some i" "lookup_by_secret sha b (secret req) = Some j"
  shows "uses_hash sha (sha256_str sha s0) req \<longleftrightarrow> j = i"
proof
  assume "uses_hash sha (sha256_str sha s0) req"
  then have "lookup_by_secret sha b (secret req) = lookup_by_secret sha b (Some s0)"
    by (auto simp: uses_hash_def lookup_by_secret_def)
  then show "j = i" using assms by simp
next
  assume "j = i"
  then show "uses_hash sha (sha256_str sha s0) req"
    using lookup_by_secret_Some[OF assms(1)] lookup_by_secret_Some[OF assms(2)] by (auto simp: uses_hash_def)
qed

text \<open>The meter of the key sees a charge per request: the amount, or nothing when it was not reached.\<close>

lemma charge_zero: "window_accountant_charge acc 0 now = (acc, accountant_deny acc ''amount must be positive'' now)"
  by (simp add: window_accountant_charge_def)

lemma authorize_meters:
  assumes "lookup_by_secret sha b (Some s0) = Some i"
  shows "\<exists>a. (let r = window_accountant_charge (accountant (keys b ! i)) a now;
                  out = key_broker_authorize sha orc now b req in
     accountant (keys (fst out) ! i) = fst r \<and>
     (if allowed (snd out) \<and> uses_hash sha (sha256_str sha s0) req then amount req else 0) =
     (if ch_allowed (snd r) then a else 0))"
proof (cases rule: authorize_cases[of sha b req orc now])
  case (metered j o' acc' c)
  have j: "j < length (keys b)" "i < length (keys b)"
    using lookup_by_secret_Some[OF metered(1)] lookup_by_secret_Some[OF assms] by auto
  show ?thesis
  proof (cases "j = i")
    case True
    then show ?thesis using metered j lookup_uses_hash[OF assms metered(1)]
      by (intro exI[of _ "amount req"]) (simp add: Let_def)
  next
    case False
    then show ?thesis using metered j lookup_uses_hash[OF assms metered(1)]
      by (intro exI[of _ 0]) (simp add: Let_def charge_zero accountant_deny_def)
  qed
next
  case (revoked j o')
  have "j < length (keys b)" using lookup_by_secret_Some[OF revoked(1)] by auto
  then have "accountant (keys (fst (key_broker_authorize sha orc now b req)) ! i) = accountant (keys b ! i)"
    using revoked(4) by (cases "j = i") auto
  then show ?thesis using revoked by (intro exI[of _ 0]) (simp add: Let_def charge_zero accountant_deny_def)
qed (intro exI[of _ 0]; simp add: Let_def charge_zero accountant_deny_def decision_deny_def)+

lemma run_granted_metered:
  assumes "lookup_by_secret sha b (Some s0) = Some i"
  shows "\<exists>rs. map snd rs = map (\<lambda>(orc, now, req). now) cs \<and>
    run_granted sha (sha256_str sha s0) b cs = granted (accountant (keys b ! i)) rs"
  using assms
proof (induction cs arbitrary: b)
  case (Cons c cs)
  obtain orc now req where c: "c = (orc, now, req)" by (cases c)
  let ?out = "key_broker_authorize sha orc now b req"
  obtain a where a: "accountant (keys (fst ?out) ! i) = fst (window_accountant_charge (accountant (keys b ! i)) a now)"
    "(if allowed (snd ?out) \<and> uses_hash sha (sha256_str sha s0) req then amount req else 0) =
     (if ch_allowed (snd (window_accountant_charge (accountant (keys b ! i)) a now)) then a else 0)"
    using authorize_meters[OF Cons.prems, of now orc req] by (auto simp: Let_def)
  have "lookup_by_secret sha (fst ?out) (Some s0) = Some i"
    using lookup_stable[OF authorize_kept Cons.prems] .
  from Cons.IH[OF this] obtain rs where rs: "map snd rs = map (\<lambda>(orc, now, req). now) cs"
    "run_granted sha (sha256_str sha s0) (fst ?out) cs = granted (accountant (keys (fst ?out) ! i)) rs" by blast
  show ?case using a rs c by (intro exI[of _ "(a, now) # rs"]) (simp add: case_prod_beta Let_def)
qed simp

text \<open>
  C2. A key never grants more than its envelope: through any run of authorization requests
  against the broker, for this key and for others, with any scopes, amounts and oracle answers
  and a clock that does not run backwards, the total granted to the holders of a freshly issued
  key's secret between times \<open>t0\<close> and \<open>t\<close> is at most the per-window cap times the number
  of windows that can begin in that span.
\<close>

theorem broker_window_cap:
  assumes "lookup_by_secret sha b (Some s0) = Some i"
    and "accountant (keys b ! i) = window_accountant_init env"
    and "env_ok env" "0 < window_duration env" "0 \<le> per_window env"
    and "ts = map (\<lambda>(orc, now, req). now) cs" "sorted (t0 # ts)" "list_all i64 ts"
      "list_all (\<lambda>s. s \<le> t) ts" "t0 \<le> t"
  shows "run_granted sha (sha256_str sha s0) b cs \<le>
    per_window env * ((t - t0) div window_duration env + 1)"
proof -
  obtain rs where rs: "map snd rs = ts" "run_granted sha (sha256_str sha s0) b cs = granted (window_accountant_init env) rs"
    using run_granted_metered[OF assms(1), of cs] assms(2,6) by auto
  have "granted (window_accountant_init env) rs +
      (if started (window_accountant_init env) then spent_in_window (window_accountant_init env) else 0) \<le>
      per_window (acc_envelope (window_accountant_init env)) *
      ((t - t0) div window_duration (acc_envelope (window_accountant_init env)) + 1)"
    using assms(3-10) rs(1)
    by (intro granted_bound[where ?t0.0 = t0] acc_inv_init) (simp_all add: window_accountant_init_def)
  then show ?thesis using rs(2) by (simp add: window_accountant_init_def)
qed

theorem broker_window_cap_witness:
  "run_granted (\<lambda>_. [7]) [7] demo_broker
     [(chain_revocation_oracle_is_revoked demo_source, 5, demo_req ''read'' 60),
      (chain_revocation_oracle_is_revoked demo_source, 6, demo_req ''read'' 60)] \<le> 100"
proof -
  have "accountant (keys demo_broker ! 0) = window_accountant_init demo_env" by (simp add: demo_broker_def demo_key_def)
  from broker_window_cap[OF demo_lookup(1) this, where ?t0.0 = 5 and t = 6 and ts = "[5, 6]" and cs =
      "[(chain_revocation_oracle_is_revoked demo_source, 5, demo_req ''read'' 60),
        (chain_revocation_oracle_is_revoked demo_source, 6, demo_req ''read'' 60)]"]
  show ?thesis by (simp add: demo_env_def env_ok_def i64_def sha256_str_def)
qed

end
