(* ===== verification/Utf8.thy ===== *)
theory Utf8
  imports Prelude
begin

text \<open>
  The byte helpers of \<^verbatim>\<open>src/common/utf8.c\<close>: the well-formedness test, shown to accept
  exactly the encodings of sequences of Unicode scalar values in the sense of RFC 3629.
\<close>

section \<open>The validator\<close>

text \<open>
  The loop of the C function keeps an index into the buffer; here it recurses on the rest of
  the buffer at that index, so the test \<^verbatim>\<open>i + k >= len\<close> is a rest that is too short.
\<close>

fun utf8_loop :: "bytes \<Rightarrow> bool" where
  "utf8_loop [] = True"
| "utf8_loop (c # r) =
    (if c \<le> 0x7f then utf8_loop r
     else if c AND 0xe0 = 0xc0 then
       (if c < 0xc2 then False
        else case r of
          c1 # r1 \<Rightarrow> if c1 AND 0xc0 \<noteq> 0x80 then False else utf8_loop r1
        | _ \<Rightarrow> False)
     else if c AND 0xf0 = 0xe0 then
       (case r of
          c1 # c2 # r2 \<Rightarrow>
            if c1 AND 0xc0 \<noteq> 0x80 \<or> c2 AND 0xc0 \<noteq> 0x80 then False
            else if c = 0xe0 \<and> c1 < 0xa0 then False
            else if c = 0xed \<and> c1 \<ge> 0xa0 then False
            else utf8_loop r2
        | _ \<Rightarrow> False)
     else if c AND 0xf8 = 0xf0 then
       (if c > 0xf4 then False
        else case r of
          c1 # c2 # c3 # r3 \<Rightarrow>
            if c1 AND 0xc0 \<noteq> 0x80 \<or> c2 AND 0xc0 \<noteq> 0x80 \<or> c3 AND 0xc0 \<noteq> 0x80 then False
            else if c = 0xf0 \<and> c1 < 0x90 then False
            else if c = 0xf4 \<and> c1 \<ge> 0x90 then False
            else utf8_loop r3
        | _ \<Rightarrow> False)
     else False)"

text \<open>The pointer is \<open>None\<close> for NULL; its length argument is then only compared with zero.\<close>

definition utf8_is_valid :: "bytes option \<Rightarrow> nat \<Rightarrow> bool" where
  "utf8_is_valid s len = (case s of None \<Rightarrow> len = 0 | Some p \<Rightarrow> utf8_loop (take len p))"

text \<open>\<^verbatim>\<open>strlen\<close> of a string held as its bytes up to the terminator.\<close>

definition utf8_byte_len :: "bytes option \<Rightarrow> nat" where
  "utf8_byte_len s = (case s of None \<Rightarrow> 0 | Some p \<Rightarrow> length p)"

section \<open>The encoding of RFC 3629\<close>

text \<open>
  A scalar value is a code point outside the surrogate range; its encoding is written in the
  arithmetic of the standard's table, with no reference to the bit masks of the validator.
\<close>

definition scalar :: "nat \<Rightarrow> bool" where
  "scalar n \<longleftrightarrow> n < 0x110000 \<and> \<not> (0xd800 \<le> n \<and> n < 0xe000)"

definition utf8_enc :: "nat \<Rightarrow> bytes" where
  "utf8_enc n =
    (if n < 0x80 then [of_nat n]
     else if n < 0x800 then [of_nat (0xc0 + n div 64), of_nat (0x80 + n mod 64)]
     else if n < 0x10000 then
       [of_nat (0xe0 + n div 4096), of_nat (0x80 + n div 64 mod 64), of_nat (0x80 + n mod 64)]
     else
       [of_nat (0xf0 + n div 262144), of_nat (0x80 + n div 4096 mod 64),
        of_nat (0x80 + n div 64 mod 64), of_nat (0x80 + n mod 64)])"

definition utf8_encode :: "nat list \<Rightarrow> bytes" where
  "utf8_encode ns = concat (map utf8_enc ns)"

section \<open>Masks as ranges\<close>

lemma byte_masks_all:
  "\<forall>n \<in> set [0..<256]. let c = (of_nat n :: byte) in
     (c AND 0xe0 = 0xc0 \<longleftrightarrow> 0xc0 \<le> n \<and> n < 0xe0) \<and>
     (c AND 0xf0 = 0xe0 \<longleftrightarrow> 0xe0 \<le> n \<and> n < 0xf0) \<and>
     (c AND 0xf8 = 0xf0 \<longleftrightarrow> 0xf0 \<le> n \<and> n < 0xf8) \<and>
     (c AND 0xc0 = 0x80 \<longleftrightarrow> 0x80 \<le> n \<and> n < 0xc0)"
  by code_simp

lemma byte_masks:
  fixes c :: byte
  shows "c AND 0xe0 = 0xc0 \<longleftrightarrow> 0xc0 \<le> unat c \<and> unat c < 0xe0"
    and "c AND 0xf0 = 0xe0 \<longleftrightarrow> 0xe0 \<le> unat c \<and> unat c < 0xf0"
    and "c AND 0xf8 = 0xf0 \<longleftrightarrow> 0xf0 \<le> unat c \<and> unat c < 0xf8"
    and "c AND 0xc0 = 0x80 \<longleftrightarrow> 0x80 \<le> unat c \<and> unat c < 0xc0"
proof -
  have "unat c \<in> set [0..<256]" using unsigned_less[of c] by simp
  from byte_masks_all[rule_format, OF this] show
    "c AND 0xe0 = 0xc0 \<longleftrightarrow> 0xc0 \<le> unat c \<and> unat c < 0xe0"
    "c AND 0xf0 = 0xe0 \<longleftrightarrow> 0xe0 \<le> unat c \<and> unat c < 0xf0"
    "c AND 0xf8 = 0xf0 \<longleftrightarrow> 0xf0 \<le> unat c \<and> unat c < 0xf8"
    "c AND 0xc0 = 0x80 \<longleftrightarrow> 0x80 \<le> unat c \<and> unat c < 0xc0"
    by (simp_all add: Let_def)
qed

lemma byte_eq_of_nat: "n < 256 \<Longrightarrow> (c :: byte) = of_nat n \<longleftrightarrow> unat c = n"
  by (auto simp: unat_of_nat word_unat_eq_iff)

lemma byte_consts:
  "(c :: byte) = 0xe0 \<and> P \<longleftrightarrow> unat c = 0xe0 \<and> P" "c = 0xed \<and> P \<longleftrightarrow> unat c = 0xed \<and> P"
  "c = 0xf0 \<and> P \<longleftrightarrow> unat c = 0xf0 \<and> P" "c = 0xf4 \<and> P \<longleftrightarrow> unat c = 0xf4 \<and> P"
  by (simp_all add: word_unat_eq_iff)

lemmas byte_ranges = byte_masks word_le_nat_alt word_less_nat_alt

lemma byte_bound: "unat (c :: byte) < 256"
  using unsigned_less[of c] by simp

section \<open>Each shape of the validator is a range of scalar values\<close>

lemma enc1_iff: "(c :: byte) \<le> 0x7f \<longleftrightarrow> (\<exists>n < 0x80. [c] = utf8_enc n)"
proof
  assume "c \<le> 0x7f"
  then show "\<exists>n < 0x80. [c] = utf8_enc n"
    by (intro exI[of _ "unat c"]) (simp add: utf8_enc_def word_le_nat_alt)
qed (auto simp: utf8_enc_def word_le_nat_alt unat_of_nat)

lemma digit_div_mod: "(b :: nat) < k \<Longrightarrow> (a * k + b) div k = a" "b < k \<Longrightarrow> (a * k + b) mod k = b"
  by (simp_all add: div_nat_eqI mult.commute add.commute)

lemma digits64_2: "b < 64 \<Longrightarrow> (a * 64 + b) div 64 = a" "b < 64 \<Longrightarrow> (a * 64 + b) mod 64 = (b :: nat)"
  by (rule digit_div_mod; simp)+

lemma digits64_3:
  fixes a b c :: nat
  assumes "b < 64" "c < 64"
  shows "(a * 4096 + (b * 64 + c)) div 4096 = a" and "(a * 4096 + (b * 64 + c)) div 64 mod 64 = b"
    and "(a * 4096 + (b * 64 + c)) mod 64 = c"
proof -
  have e: "a * 4096 + (b * 64 + c) = (a * 64 + b) * 64 + c" by simp
  show "(a * 4096 + (b * 64 + c)) div 4096 = a" using assms by (intro digit_div_mod) simp
  show "(a * 4096 + (b * 64 + c)) div 64 mod 64 = b" "(a * 4096 + (b * 64 + c)) mod 64 = c"
    unfolding e digits64_2[OF assms(2)] digits64_2[OF assms(1)] by (rule refl)+
qed

lemma digits64_4:
  fixes a b c d :: nat
  assumes "b < 64" "c < 64" "d < 64"
  shows "(a * 262144 + (b * 4096 + (c * 64 + d))) div 262144 = a"
    and "(a * 262144 + (b * 4096 + (c * 64 + d))) div 4096 mod 64 = b"
    and "(a * 262144 + (b * 4096 + (c * 64 + d))) div 64 mod 64 = c"
    and "(a * 262144 + (b * 4096 + (c * 64 + d))) mod 64 = d"
proof -
  have e: "a * 262144 + (b * 4096 + (c * 64 + d)) = (a * 64 + b) * 4096 + (c * 64 + d)" by simp
  show "(a * 262144 + (b * 4096 + (c * 64 + d))) div 262144 = a" using assms by (intro digit_div_mod) simp
  show "(a * 262144 + (b * 4096 + (c * 64 + d))) div 4096 mod 64 = b"
    "(a * 262144 + (b * 4096 + (c * 64 + d))) div 64 mod 64 = c"
    "(a * 262144 + (b * 4096 + (c * 64 + d))) mod 64 = d"
    unfolding e digits64_3[OF assms(2,3)] digits64_2[OF assms(1)] by (rule refl)+
qed

lemma split64_3: "n = n div 4096 * 4096 + (n div 64 mod 64 * 64 + n mod (64 :: nat))"
proof -
  have "n div 4096 = n div 64 div 64" using div_mult2_eq[of n 64 64] by simp
  moreover have "n = n div 64 * 64 + n mod 64" by simp
  moreover have "n div 64 = n div 64 div 64 * 64 + n div 64 mod 64" by simp
  ultimately show ?thesis by linarith
qed

lemma split64_4: "n div 4096 = n div 262144 * 64 + n div 4096 mod (64 :: nat)"
  using div_mult2_eq[of n 4096 64] div_mult_mod_eq[of "n div 4096" 64] by simp

lemma utf8_enc_2:
  "0x80 \<le> n \<Longrightarrow> n < 0x800 \<Longrightarrow>
   [c, c1] = utf8_enc n \<longleftrightarrow> unat c = 0xc0 + n div 64 \<and> unat c1 = 0x80 + n mod 64"
  by (simp add: utf8_enc_def byte_eq_of_nat del: of_nat_add of_nat_numeral)

lemma utf8_enc_3:
  "0x800 \<le> n \<Longrightarrow> n < 0x10000 \<Longrightarrow> [c, c1, c2] = utf8_enc n \<longleftrightarrow>
   unat c = 0xe0 + n div 4096 \<and> unat c1 = 0x80 + n div 64 mod 64 \<and> unat c2 = 0x80 + n mod 64"
  by (simp add: utf8_enc_def byte_eq_of_nat del: of_nat_add of_nat_numeral)

lemma utf8_enc_4:
  "0x10000 \<le> n \<Longrightarrow> n < 0x110000 \<Longrightarrow> [c, c1, c2, c3] = utf8_enc n \<longleftrightarrow>
   unat c = 0xf0 + n div 262144 \<and> unat c1 = 0x80 + n div 4096 mod 64 \<and>
   unat c2 = 0x80 + n div 64 mod 64 \<and> unat c3 = 0x80 + n mod 64"
  by (simp add: utf8_enc_def byte_eq_of_nat del: of_nat_add of_nat_numeral)

lemma enc2_iff:
  "c AND 0xe0 = 0xc0 \<and> \<not> c < 0xc2 \<and> c1 AND 0xc0 = 0x80 \<longleftrightarrow>
   (\<exists>n. 0x80 \<le> n \<and> n < 0x800 \<and> [c, c1] = utf8_enc n)" (is "?l \<longleftrightarrow> ?r")
proof
  assume ?l
  then have "0xc0 \<le> unat c" "0xc2 \<le> unat c" "unat c < 0xe0" "0x80 \<le> unat c1" "unat c1 < 0xc0"
    by (simp_all add: byte_ranges)
  then obtain a b where ab: "unat c = 0xc0 + a" "unat c1 = 0x80 + b" "2 \<le> a" "a < 32" "b < 64"
    by (intro that[of "unat c - 0xc0" "unat c1 - 0x80"]) linarith+
  then have "0x80 \<le> a * 64 + b" "a * 64 + b < 0x800" by linarith+
  then show ?r using utf8_enc_2 ab(1,2) digits64_2[OF ab(5), of a] by metis
next
  assume ?r
  then obtain n where n: "0x80 \<le> n" "n < 0x800" "[c, c1] = utf8_enc n" by blast
  have "2 \<le> n div 64" "n div 64 < 32" using n(1,2) by (simp_all add: less_eq_div_iff_mult_less_eq div_less_iff_less_mult)
  then show ?l using n(3)[unfolded utf8_enc_2[OF n(1,2)]] by (simp add: byte_ranges)
qed

lemma enc3_iff:
  "c AND 0xf0 = 0xe0 \<and> c1 AND 0xc0 = 0x80 \<and> c2 AND 0xc0 = 0x80 \<and>
     \<not> (c = 0xe0 \<and> c1 < 0xa0) \<and> \<not> (c = 0xed \<and> c1 \<ge> 0xa0) \<longleftrightarrow>
   (\<exists>n. 0x800 \<le> n \<and> n < 0x10000 \<and> scalar n \<and> [c, c1, c2] = utf8_enc n)" (is "?l \<longleftrightarrow> ?r")
proof
  assume ?l
  then have "0xe0 \<le> unat c" "unat c < 0xf0" "0x80 \<le> unat c1" "unat c1 < 0xc0"
      "0x80 \<le> unat c2" "unat c2 < 0xc0"
      "\<not> (unat c = 0xe0 \<and> unat c1 < 0xa0)" "\<not> (unat c = 0xed \<and> 0xa0 \<le> unat c1)"
    unfolding byte_masks byte_consts by (simp_all add: byte_ranges)
  then obtain a b d where ab: "unat c = 0xe0 + a" "unat c1 = 0x80 + b" "unat c2 = 0x80 + d"
    "a < 16" "b < 64" "d < 64" "a = 0 \<longrightarrow> 32 \<le> b" "a = 13 \<longrightarrow> b < 32"
    by (intro that[of "unat c - 0xe0" "unat c1 - 0x80" "unat c2 - 0x80"]) linarith+
  let ?n = "a * 4096 + (b * 64 + d)"
  have "0x800 \<le> ?n" using ab(7) by (cases "a = 0") linarith+
  moreover have "?n < 0x10000" using ab by linarith
  moreover have "?n < 0xd800 \<or> 0xe000 \<le> ?n"
  proof (cases "a = 13")
    case False
    then have "a \<le> 12 \<or> 14 \<le> a" by linarith
    then show ?thesis using ab(5,6) by linarith
  qed (use ab in linarith)
  ultimately show ?r using utf8_enc_3 ab(1-3) digits64_3[OF ab(5,6), of a]
    unfolding scalar_def by (intro exI[of _ ?n]) auto
next
  assume ?r
  then obtain n where n: "0x800 \<le> n" "n < 0x10000" "scalar n" "[c, c1, c2] = utf8_enc n" by blast
  note e = n(4)[unfolded utf8_enc_3[OF n(1,2)]] and s = split64_3[of n]
  have "n mod 64 < 64" by simp
  moreover have "n div 64 mod 64 < 64" by simp
  ultimately have "n div 4096 < 16" "n div 4096 = 0 \<longrightarrow> 32 \<le> n div 64 mod 64"
    "n div 4096 = 13 \<longrightarrow> n div 64 mod 64 < 32"
    using n(1-3) s unfolding scalar_def by linarith+
  then show ?l using e unfolding byte_masks byte_consts by (auto simp: byte_ranges)
qed

lemma enc4_iff:
  "c AND 0xf8 = 0xf0 \<and> \<not> c > 0xf4 \<and> c1 AND 0xc0 = 0x80 \<and> c2 AND 0xc0 = 0x80 \<and> c3 AND 0xc0 = 0x80 \<and>
     \<not> (c = 0xf0 \<and> c1 < 0x90) \<and> \<not> (c = 0xf4 \<and> c1 \<ge> 0x90) \<longleftrightarrow>
   (\<exists>n. 0x10000 \<le> n \<and> scalar n \<and> [c, c1, c2, c3] = utf8_enc n)" (is "?l \<longleftrightarrow> ?r")
proof
  assume ?l
  then have "0xf0 \<le> unat c" "unat c \<le> 0xf4" "0x80 \<le> unat c1" "unat c1 < 0xc0"
      "0x80 \<le> unat c2" "unat c2 < 0xc0" "0x80 \<le> unat c3" "unat c3 < 0xc0"
      "\<not> (unat c = 0xf0 \<and> unat c1 < 0x90)" "\<not> (unat c = 0xf4 \<and> 0x90 \<le> unat c1)"
    unfolding byte_masks byte_consts by (simp_all add: byte_ranges)
  then obtain a b d e where ab: "unat c = 0xf0 + a" "unat c1 = 0x80 + b" "unat c2 = 0x80 + d"
    "unat c3 = 0x80 + e" "a \<le> 4" "b < 64" "d < 64" "e < 64" "a = 0 \<longrightarrow> 16 \<le> b" "a = 4 \<longrightarrow> b < 16"
    by (intro that[of "unat c - 0xf0" "unat c1 - 0x80" "unat c2 - 0x80" "unat c3 - 0x80"]) linarith+
  let ?n = "a * 262144 + (b * 4096 + (d * 64 + e))"
  have "0x10000 \<le> ?n" using ab(9) by (cases "a = 0") linarith+
  moreover have "?n < 0x110000" using ab(5-8,10) by (cases "a = 4") linarith+
  ultimately show ?r using utf8_enc_4 ab(1-4) digits64_4[OF ab(6-8), of a]
    unfolding scalar_def by (intro exI[of _ ?n]) auto
next
  assume ?r
  then obtain n where n: "0x10000 \<le> n" "n < 0x110000" "[c, c1, c2, c3] = utf8_enc n"
    by (auto simp: scalar_def)
  note e = n(3)[unfolded utf8_enc_4[OF n(1,2)]] and s = split64_4[of n]
  have "16 \<le> n div 4096" "n div 4096 < 272" using n(1,2) by (simp_all add: less_eq_div_iff_mult_less_eq div_less_iff_less_mult)
  moreover have "n div 4096 mod 64 < 64" by simp
  ultimately have "n div 262144 \<le> 4" "n div 262144 = 0 \<longrightarrow> 16 \<le> n div 4096 mod 64"
    "n div 262144 = 4 \<longrightarrow> n div 4096 mod 64 < 16"
    using s by linarith+
  then show ?l using e unfolding byte_masks byte_consts by (auto simp: byte_ranges)
qed

section \<open>Decoding one scalar value\<close>

text \<open>The lead byte fixes the length, so an encoding is recovered from any longer buffer.\<close>

fun utf8_get :: "bytes \<Rightarrow> nat \<times> bytes" where
  "utf8_get [] = (0, [])"
| "utf8_get (c # r) =
    (if unat c < 0x80 then (unat c, r)
     else if unat c < 0xe0 then ((unat c - 0xc0) * 64 + (unat (r ! 0) - 0x80), drop 1 r)
     else if unat c < 0xf0 then
       ((unat c - 0xe0) * 4096 + ((unat (r ! 0) - 0x80) * 64 + (unat (r ! 1) - 0x80)), drop 2 r)
     else
       ((unat c - 0xf0) * 262144 + ((unat (r ! 0) - 0x80) * 4096 + ((unat (r ! 1) - 0x80) * 64 +
         (unat (r ! 2) - 0x80))), drop 3 r))"

lemma utf8_enc_cases:
  assumes "scalar n"
  obtains (one) c where "n < 0x80" "utf8_enc n = [c]" "unat c = n"
  | (two) c c1 where "0x80 \<le> n" "n < 0x800" "utf8_enc n = [c, c1]"
  | (three) c c1 c2 where "0x800 \<le> n" "n < 0x10000" "utf8_enc n = [c, c1, c2]"
  | (four) c c1 c2 c3 where "0x10000 \<le> n" "n < 0x110000" "utf8_enc n = [c, c1, c2, c3]"
proof -
  consider "n < 0x80" | "0x80 \<le> n" "n < 0x800" | "0x800 \<le> n" "n < 0x10000" | "0x10000 \<le> n"
    by linarith
  then show thesis
  proof cases
    case 1 then show thesis by (intro one) (auto simp: utf8_enc_def unat_of_nat)
  next
    case 2 then show thesis by (intro two) (auto simp: utf8_enc_def)
  next
    case 3 then show thesis by (intro three) (auto simp: utf8_enc_def)
  next
    case 4 then show thesis using assms by (intro four) (auto simp: utf8_enc_def scalar_def)
  qed
qed

lemma utf8_get_enc: "scalar n \<Longrightarrow> utf8_get (utf8_enc n @ r) = (n, r)"
proof (erule utf8_enc_cases)
  fix c assume "utf8_enc n = [c]" "unat c = n" "n < 0x80"
  then show ?thesis by simp
next
  fix c c1 assume a: "utf8_enc n = [c, c1]" "0x80 \<le> n" "n < 0x800"
  have "n div 64 < 32" using a(3) by (simp add: div_less_iff_less_mult)
  then show ?thesis using utf8_enc_2[OF a(2,3), of c c1] a(1) by simp
next
  fix c c1 c2 assume a: "utf8_enc n = [c, c1, c2]" "0x800 \<le> n" "n < 0x10000"
  have "n div 4096 < 16" using a(3) by (simp add: div_less_iff_less_mult)
  then show ?thesis using utf8_enc_3[OF a(2,3), of c c1 c2] a(1) split64_3[of n] by simp
next
  fix c c1 c2 c3 assume a: "utf8_enc n = [c, c1, c2, c3]" "0x10000 \<le> n" "n < 0x110000"
  then show ?thesis
    using utf8_enc_4[OF a(2,3), of c c1 c2 c3] a(1) split64_3[of n] split64_4[of n] by simp
qed

lemma utf8_enc_neq_Nil: "utf8_enc n \<noteq> []"
  by (simp add: utf8_enc_def)

lemma utf8_encode_inj:
  "list_all scalar ms \<Longrightarrow> list_all scalar ns \<Longrightarrow> utf8_encode ms = utf8_encode ns \<Longrightarrow> ms = ns"
proof (induction ms arbitrary: ns)
  case Nil
  then show ?case using utf8_enc_neq_Nil by (cases ns) (auto simp: utf8_encode_def)
next
  case (Cons m ms)
  from Cons.prems obtain n ns' where ns: "ns = n # ns'"
    using utf8_enc_neq_Nil by (cases ns) (auto simp: utf8_encode_def)
  have "(m, utf8_encode ms) = utf8_get (utf8_encode (m # ms))"
    using Cons.prems(1) utf8_get_enc[of m] by (simp only: utf8_encode_def list.map concat.simps list.pred_inject)
  also have "\<dots> = (n, utf8_encode ns')"
    using Cons.prems(2,3) utf8_get_enc[of n] ns
    by (simp only: utf8_encode_def list.map concat.simps list.pred_inject)
  finally show ?case using Cons.IH[of ns'] Cons.prems ns by simp
qed

section \<open>The validator accepts exactly the encodings\<close>

lemma utf8_loop_enc:
  assumes s: "scalar n"
  shows "utf8_loop (utf8_enc n @ r) = utf8_loop r"
  using s
proof (rule utf8_enc_cases)
  fix c assume "utf8_enc n = [c]" "unat c = n" "n < 0x80"
  then show ?thesis by (simp add: word_le_nat_alt)
next
  fix c c1 assume a: "0x80 \<le> n" "n < 0x800" "utf8_enc n = [c, c1]"
  then have "c AND 0xe0 = 0xc0 \<and> \<not> c < 0xc2 \<and> c1 AND 0xc0 = 0x80" using enc2_iff[of c c1] by metis
  then show ?thesis using a(3) by (simp add: byte_ranges)
next
  fix c c1 c2 assume a: "0x800 \<le> n" "n < 0x10000" "utf8_enc n = [c, c1, c2]"
  with s have "c AND 0xf0 = 0xe0 \<and> c1 AND 0xc0 = 0x80 \<and> c2 AND 0xc0 = 0x80 \<and>
     \<not> (c = 0xe0 \<and> c1 < 0xa0) \<and> \<not> (c = 0xed \<and> c1 \<ge> 0xa0)" using enc3_iff[of c c1 c2] by metis
  then show ?thesis using a(3) by (auto simp: byte_ranges)
next
  fix c c1 c2 c3 assume a: "0x10000 \<le> n" "utf8_enc n = [c, c1, c2, c3]"
  with s have "c AND 0xf8 = 0xf0 \<and> \<not> c > 0xf4 \<and> c1 AND 0xc0 = 0x80 \<and> c2 AND 0xc0 = 0x80 \<and> c3 AND 0xc0 = 0x80 \<and>
     \<not> (c = 0xf0 \<and> c1 < 0x90) \<and> \<not> (c = 0xf4 \<and> c1 \<ge> 0x90)" using enc4_iff[of c c1 c2 c3] by metis
  then show ?thesis using a(2) by (auto simp: byte_ranges)
qed

lemma utf8_loop_step:
  assumes "utf8_loop bs" "bs \<noteq> []"
  obtains n r where "scalar n" "bs = utf8_enc n @ r" "utf8_loop r"
proof -
  obtain c r where bs: "bs = c # r" using assms(2) by (cases bs) auto
  consider "c \<le> 0x7f" "utf8_loop r"
    | c1 r1 where "r = c1 # r1" "c AND 0xe0 = 0xc0 \<and> \<not> c < 0xc2 \<and> c1 AND 0xc0 = 0x80" "utf8_loop r1"
    | c1 c2 r2 where "r = c1 # c2 # r2" "c AND 0xf0 = 0xe0 \<and> c1 AND 0xc0 = 0x80 \<and> c2 AND 0xc0 = 0x80 \<and>
        \<not> (c = 0xe0 \<and> c1 < 0xa0) \<and> \<not> (c = 0xed \<and> c1 \<ge> 0xa0)" "utf8_loop r2"
    | c1 c2 c3 r3 where "r = c1 # c2 # c3 # r3" "c AND 0xf8 = 0xf0 \<and> \<not> c > 0xf4 \<and> c1 AND 0xc0 = 0x80 \<and>
        c2 AND 0xc0 = 0x80 \<and> c3 AND 0xc0 = 0x80 \<and> \<not> (c = 0xf0 \<and> c1 < 0x90) \<and> \<not> (c = 0xf4 \<and> c1 \<ge> 0x90)"
        "utf8_loop r3"
    using assms(1) unfolding bs utf8_loop.simps
    by (simp only: split: if_splits list.splits) blast+
  then show thesis
  proof cases
    case 1
    then obtain n where "n < 0x80" "[c] = utf8_enc n" using enc1_iff[of c] by blast
    then show thesis using 1 bs by (intro that[of n r]) (auto simp: scalar_def)
  next
    case 2
    then obtain n where "n < 0x800" "[c, c1] = utf8_enc n" using enc2_iff[of c c1] by blast
    then show thesis using 2 bs by (intro that[of n r1]) (auto simp: scalar_def)
  next
    case 3
    then obtain n where "scalar n" "[c, c1, c2] = utf8_enc n" using enc3_iff[of c c1 c2] by blast
    then show thesis using 3 bs by (intro that[of n r2]) auto
  next
    case 4
    then obtain n where "scalar n" "[c, c1, c2, c3] = utf8_enc n" using enc4_iff[of c c1 c2 c3] by blast
    then show thesis using 4 bs by (intro that[of n r3]) auto
  qed
qed

lemma utf8_loop_encode: "list_all scalar ns \<Longrightarrow> utf8_loop (utf8_encode ns)"
  by (induction ns) (simp_all add: utf8_encode_def utf8_loop_enc)

lemma utf8_loop_complete: "utf8_loop bs \<Longrightarrow> \<exists>ns. list_all scalar ns \<and> bs = utf8_encode ns"
proof (induction bs rule: length_induct)
  case (1 bs)
  show ?case
  proof (cases "bs = []")
    case False
    from utf8_loop_step[OF "1.prems" False] obtain n r
      where n: "scalar n" "bs = utf8_enc n @ r" "utf8_loop r" .
    then have "length r < length bs" using utf8_enc_neq_Nil[of n] by simp
    with "1.IH" n(3) obtain ns where "list_all scalar ns" "r = utf8_encode ns" by blast
    with n show ?thesis by (intro exI[of _ "n # ns"]) (simp add: utf8_encode_def)
  qed (auto simp: utf8_encode_def intro!: exI[of _ "[]"])
qed

text \<open>
  C36. The validator accepts a buffer exactly when it is the UTF-8 encoding of a sequence of
  Unicode scalar values, and that sequence is then unique: shortest form only, no surrogates,
  nothing above U+10FFFF, no truncated or stray byte.
\<close>

theorem utf8_is_valid_iff:
  "utf8_is_valid (Some bs) (length bs) \<longleftrightarrow> (\<exists>!ns. list_all scalar ns \<and> bs = utf8_encode ns)"
  unfolding utf8_is_valid_def
  using utf8_loop_encode utf8_loop_complete[of bs] utf8_encode_inj by (auto simp: Ex1_def)

end
