(* ===== verification/Spv.thy ===== *)
theory Spv
  imports Sighash Num2bin
begin

text \<open>
  Simplified payment verification: \<^verbatim>\<open>src/lib/merkle_path.c\<close> and
  \<^verbatim>\<open>src/lib/blockchain.c\<close>. A proof is checked against a reference Merkle tree, and the
  compact difficulty encoding against the number it stands for.
\<close>

section \<open>Merkle paths\<close>

datatype merkle_pos_t = MERKLE_INVALID_NODE | MERKLE_LEFT_NODE | MERKLE_RIGHT_NODE

record merkle_node_t =
  node_hash :: bytes
  pos :: merkle_pos_t

definition BONSAI_MERKLE_PROOF_DEPTH :: nat where
  "BONSAI_MERKLE_PROOF_DEPTH = 32"

text \<open>The 64 bytes hashed at one level.\<close>

definition merkle_concat :: "merkle_node_t \<Rightarrow> bytes \<Rightarrow> bytes" where
  "merkle_concat node root =
     (if pos node = MERKLE_LEFT_NODE then node_hash node @ root else root @ node_hash node)"

fun merkle_loop :: "(bytes \<Rightarrow> bytes) \<Rightarrow> bytes \<Rightarrow> merkle_node_t list \<Rightarrow> bytes" where
  "merkle_loop sha root [] = root"
| "merkle_loop sha root (node # nodes) =
     (if pos node = MERKLE_INVALID_NODE then merkle_loop sha root nodes
      else merkle_loop sha (sha256d sha (merkle_concat node root)) nodes)"

definition calc_merkle_root :: "(bytes \<Rightarrow> bytes) \<Rightarrow> bytes \<Rightarrow> merkle_node_t list \<Rightarrow> nat \<Rightarrow> bytes res" where
  "calc_merkle_root sha leaf nodes depth =
     (if depth > BONSAI_MERKLE_PROOF_DEPTH then Inl BNS_EINVAL
      else Inr (merkle_loop sha leaf (take depth nodes)))"

section \<open>Block headers\<close>

record block_header_t =
  hdr_version :: bytes
  prev_block_hash :: bytes
  merkle_root :: bytes
  hdr_time :: u64
  bits :: bytes
  nonce :: u64

definition BONSAI_BLOCK_HEADER_LEN :: nat where
  "BONSAI_BLOCK_HEADER_LEN = 80"

definition append_le4 :: "u64 \<Rightarrow> bytes" where
  "append_le4 v = [ucast (v AND 0xff), ucast (drop_bit 8 v AND 0xff),
     ucast (drop_bit 16 v AND 0xff), ucast (drop_bit 24 v AND 0xff)]"

definition block_header_serialize :: "block_header_t \<Rightarrow> bytes" where
  "block_header_serialize header =
     hdr_version header @ prev_block_hash header @ merkle_root header @
     append_le4 (hdr_time header) @ bits header @ append_le4 (nonce header)"

definition block_header_hash :: "(bytes \<Rightarrow> bytes) \<Rightarrow> block_header_t \<Rightarrow> bytes" where
  "block_header_hash sha header = sha256d sha (block_header_serialize header)"

text \<open>
  The two byte-to-number conversions of the bignum library are a parameter, with their
  documented meaning as a hypothesis: unsigned little-endian and unsigned big-endian.
\<close>

record bn_in =
  BN_lebin2bn :: "bytes \<Rightarrow> int"
  BN_bin2bn :: "bytes \<Rightarrow> int"

definition bn_in_ok :: "bn_in \<Rightarrow> bool" where
  "bn_in_ok L \<longleftrightarrow> (\<forall>b. BN_lebin2bn L b = int (le_nat b)) \<and> (\<forall>b. BN_bin2bn L b = int (le_nat (rev b)))"

definition block_header_hash_as_int :: "bn_in \<Rightarrow> (bytes \<Rightarrow> bytes) \<Rightarrow> block_header_t \<Rightarrow> bn_t" where
  "block_header_hash_as_int L sha header = BN_lebin2bn L (block_header_hash sha header)"

definition be4 :: "u32 \<Rightarrow> bytes" where
  "be4 v = [ucast (drop_bit 24 v AND 0xff), ucast (drop_bit 16 v AND 0xff),
     ucast (drop_bit 8 v AND 0xff), ucast (v AND 0xff)]"

text \<open>\<^verbatim>\<open>n\<close> is a signed C integer; \<^verbatim>\<open>n / 8\<close> and \<^verbatim>\<open>n % 8\<close> are taken where it is not negative.\<close>

definition bits2target :: "bn_in \<Rightarrow> bytes \<Rightarrow> bn_t" where
  "bits2target L bs =
     (let exponent = uint (bs ! 3);
          coefficient = (ucast (bs ! 0) OR push_bit 8 (ucast (bs ! 1)) OR push_bit 16 (ucast (bs ! 2)) :: u32);
          n = 8 * (exponent - 3) in
      if n \<ge> 0 then
        let coef = BN_bin2bn L (be4 coefficient);
            byte_from_lsb = nat (n div 8);
            bit_in_byte = nat (n mod 8);
            total_bytes = byte_from_lsb + 1;
            pbuf = (replicate total_bytes 0)[total_bytes - 1 - byte_from_lsb := push_bit bit_in_byte 1];
            pow2 = BN_bin2bn L pbuf in
        coef * pow2
      else
        let shift = nat (- n);
            v = (if shift \<ge> 32 then 0 else drop_bit shift coefficient) in
        BN_bin2bn L (be4 v))"

definition is_valid_block_header :: "bn_in \<Rightarrow> (bytes \<Rightarrow> bytes) \<Rightarrow> block_header_t \<Rightarrow> bn_t \<Rightarrow> bool" where
  "is_valid_block_header L sha header blockchain_target =
     (let bh_hash = block_header_hash_as_int L sha header; target = bits2target L (bits header) in
      bh_hash \<le> target \<and> target \<le> blockchain_target)"

definition tx_in_block :: "(bytes \<Rightarrow> bytes) \<Rightarrow> bytes \<Rightarrow> block_header_t \<Rightarrow> merkle_node_t list \<Rightarrow> nat \<Rightarrow> bool" where
  "tx_in_block sha txid header nodes depth =
     (case calc_merkle_root sha txid nodes depth of
        Inl _ \<Rightarrow> False
      | Inr root \<Rightarrow> root = merkle_root header)"

section \<open>Reference Merkle tree\<close>

text \<open>A direction list leads from the root down; \<open>True\<close> is the left child.\<close>

datatype mtree = MLeaf bytes | MNode mtree mtree

fun mroot :: "(bytes \<Rightarrow> bytes) \<Rightarrow> mtree \<Rightarrow> bytes" where
  "mroot sha (MLeaf l) = l"
| "mroot sha (MNode a b) = sha256d sha (mroot sha a @ mroot sha b)"

fun leaf_at :: "mtree \<Rightarrow> bool list \<Rightarrow> bytes option" where
  "leaf_at (MLeaf l) [] = Some l"
| "leaf_at (MNode a b) (d # ds) = leaf_at (if d then a else b) ds"
| "leaf_at _ _ = None"

text \<open>The siblings from the leaf up, as a proof lists them.\<close>

fun path_to :: "(bytes \<Rightarrow> bytes) \<Rightarrow> mtree \<Rightarrow> bool list \<Rightarrow> merkle_node_t list" where
  "path_to sha (MNode a b) (d # ds) =
     (if d then path_to sha a ds @ [\<lparr>node_hash = mroot sha b, pos = MERKLE_RIGHT_NODE\<rparr>]
      else path_to sha b ds @ [\<lparr>node_hash = mroot sha a, pos = MERKLE_LEFT_NODE\<rparr>])"
| "path_to sha _ _ = []"

fun leaves_ok :: "mtree \<Rightarrow> bool" where
  "leaves_ok (MLeaf l) = (length l = 32)"
| "leaves_ok (MNode a b) = (leaves_ok a \<and> leaves_ok b)"

text \<open>What a proof hashes on the way up, and its levels without the padding.\<close>

fun hashed :: "(bytes \<Rightarrow> bytes) \<Rightarrow> bytes \<Rightarrow> merkle_node_t list \<Rightarrow> bytes list" where
  "hashed sha root [] = []"
| "hashed sha root (node # nodes) =
     (if pos node = MERKLE_INVALID_NODE then hashed sha root nodes
      else merkle_concat node root # hashed sha (sha256d sha (merkle_concat node root)) nodes)"

definition levels :: "merkle_node_t list \<Rightarrow> merkle_node_t list" where
  "levels nodes = filter (\<lambda>n. pos n \<noteq> MERKLE_INVALID_NODE) nodes"

definition node_ok :: "merkle_node_t \<Rightarrow> bool" where
  "node_ok n \<longleftrightarrow> length (node_hash n) = 32"

lemma merkle_loop_levels: "merkle_loop sha root nodes = merkle_loop sha root (levels nodes)"
  by (induction nodes arbitrary: root) (auto simp: levels_def)

lemma hashed_levels: "hashed sha root nodes = hashed sha root (levels nodes)"
  by (induction nodes arbitrary: root) (auto simp: levels_def)

lemma merkle_loop_append: "merkle_loop sha root (p @ q) = merkle_loop sha (merkle_loop sha root p) q"
  by (induction p arbitrary: root) auto

lemma path_to_root: "leaf_at t ds = Some l \<Longrightarrow> merkle_loop sha l (path_to sha t ds) = mroot sha t"
  by (induction t ds rule: leaf_at.induct) (auto simp: merkle_loop_append merkle_concat_def split: if_splits)

lemma path_to_length: "leaf_at t ds = Some l \<Longrightarrow> length (path_to sha t ds) = length ds"
  by (induction t ds rule: leaf_at.induct) (auto split: if_splits)

lemma length_mroot: "(\<And>x. length (sha x) = 32) \<Longrightarrow> leaves_ok t \<Longrightarrow> length (mroot sha t) = 32"
  by (cases t) (simp_all add: sha256d_def)

text \<open>
  The directions of a proof, from the root down, and the place of the tree they lead to: a subtree,
  or a leaf that is reached before they end. \<open>trail\<close> is what the tree hashes on the way.
\<close>

definition directions :: "merkle_node_t list \<Rightarrow> bool list" where
  "directions nodes = rev (map (\<lambda>n. pos n \<noteq> MERKLE_LEFT_NODE) (levels nodes))"

fun lead_to :: "mtree \<Rightarrow> bool list \<Rightarrow> mtree + bytes" where
  "lead_to t [] = Inl t"
| "lead_to (MNode a b) (d # ds) = lead_to (if d then a else b) ds"
| "lead_to (MLeaf l) (d # ds) = Inr l"

fun trail :: "(bytes \<Rightarrow> bytes) \<Rightarrow> mtree \<Rightarrow> bool list \<Rightarrow> bytes list" where
  "trail sha (MNode a b) (d # ds) = (mroot sha a @ mroot sha b) # trail sha (if d then a else b) ds"
| "trail sha _ _ = []"

definition collide :: "(bytes \<Rightarrow> bytes) \<Rightarrow> bytes list \<Rightarrow> bytes list \<Rightarrow> bool" where
  "collide sha xs ys \<longleftrightarrow> (\<exists>x y. x \<in> set xs \<and> y \<in> set ys \<and> x \<noteq> y \<and> sha256d sha x = sha256d sha y)"

lemma collide_mono: "collide sha xs ys \<Longrightarrow> set xs \<subseteq> set xs' \<Longrightarrow> set ys \<subseteq> set ys' \<Longrightarrow> collide sha xs' ys'"
  unfolding collide_def by blast

lemma lead_to_leaf: "lead_to t ds = Inl (MLeaf l) \<longleftrightarrow> leaf_at t ds = Some l"
  by (induction t ds rule: lead_to.induct) (auto elim: leaf_at.elims)

lemma hashed_append: "hashed sha root (p @ q) = hashed sha root p @ hashed sha (merkle_loop sha root p) q"
  by (induction p arbitrary: root) auto

lemma merkle_loop_ok:
  assumes "\<And>x. length (sha x) = 32"
  shows "length root = 32 \<Longrightarrow> length (merkle_loop sha root nodes) = 32"
  by (induction nodes arbitrary: root) (simp_all add: sha256d_def assms)

lemma merkle_concat_split:
  assumes "merkle_concat n r = x @ y" "node_ok n" "length r = 32" "length x = 32"
  shows "r = (if pos n \<noteq> MERKLE_LEFT_NODE then x else y)"
  using assms by (auto simp: merkle_concat_def node_ok_def split: if_splits)

text \<open>
  Whatever hashes to the root of a tree is the node its directions lead to, or shows a preimage of
  the leaf they pass, or a collision.
\<close>

lemma merkle_binding:
  assumes sha: "\<And>x. length (sha x) = 32"
    and p: "list_all (\<lambda>n. pos n \<noteq> MERKLE_INVALID_NODE) p" "list_all node_ok p" "length leaf = 32"
    and t: "leaves_ok t" "merkle_loop sha leaf p = mroot sha t"
  shows "(case lead_to t (directions p) of
      Inl u \<Rightarrow> leaf = mroot sha u
    | Inr l \<Rightarrow> l \<in> sha256d sha ` set (hashed sha leaf p)) \<or>
    collide sha (hashed sha leaf p) (trail sha t (directions p))"
  using p(1,2) t
proof (induction p arbitrary: t rule: rev_induct)
  case Nil
  then show ?case by (simp add: directions_def levels_def)
next
  case (snoc n p)
  define r where "r = merkle_loop sha leaf p"
  define x where "x = merkle_concat n r"
  have r: "length r = 32" unfolding r_def by (rule merkle_loop_ok[OF sha p(3)])
  have d: "directions (p @ [n]) = (pos n \<noteq> MERKLE_LEFT_NODE) # directions p"
    using snoc.prems(1) by (simp add: directions_def levels_def)
  have h: "hashed sha leaf (p @ [n]) = hashed sha leaf p @ [x]"
    using snoc.prems(1) by (simp add: hashed_append x_def r_def)
  have top: "sha256d sha x = mroot sha t"
    using snoc.prems(1,4) by (simp add: merkle_loop_append x_def r_def)
  show ?case
  proof (cases t)
    case (MLeaf l)
    then show ?thesis using top unfolding d h by simp
  next
    case (MNode a b)
    let ?u = "if pos n \<noteq> MERKLE_LEFT_NODE then a else b"
    have l: "length (mroot sha a) = 32" "leaves_ok ?u" using snoc.prems(3) length_mroot[OF sha] by (auto simp: MNode)
    show ?thesis
    proof (cases "x = mroot sha a @ mroot sha b")
      case True
      have ok: "list_all (\<lambda>n. pos n \<noteq> MERKLE_INVALID_NODE) p" "list_all node_ok p" "node_ok n"
        using snoc.prems(1,2) by simp_all
      have "r = mroot sha ?u" using merkle_concat_split[OF True[unfolded x_def] ok(3) r l(1)] by simp
      then have "(case lead_to ?u (directions p) of
          Inl u \<Rightarrow> leaf = mroot sha u | Inr l \<Rightarrow> l \<in> sha256d sha ` set (hashed sha leaf p)) \<or>
        collide sha (hashed sha leaf p) (trail sha ?u (directions p))"
        unfolding r_def by (rule snoc.IH[OF ok(1,2) l(2)])
      then show ?thesis
      proof (elim disjE)
        assume "collide sha (hashed sha leaf p) (trail sha ?u (directions p))"
        then have "collide sha (hashed sha leaf p @ [x]) ((mroot sha a @ mroot sha b) # trail sha ?u (directions p))"
          by (rule collide_mono) auto
        then show ?thesis unfolding d h MNode lead_to.simps trail.simps by (rule disjI2)
      next
        assume "case lead_to ?u (directions p) of
          Inl u \<Rightarrow> leaf = mroot sha u | Inr l \<Rightarrow> l \<in> sha256d sha ` set (hashed sha leaf p)"
        then show ?thesis unfolding d h MNode lead_to.simps trail.simps
          by (intro disjI1) (auto split: sum.splits)
      qed
    next
      case False
      then show ?thesis using top unfolding d h MNode by (auto simp: collide_def)
    qed
  qed
qed

lemma merkle_sound:
  assumes sha: "\<And>x. length (sha x) = 32"
    and t: "leaves_ok t" and p: "list_all node_ok nodes" "length leaf = 32"
    and r: "merkle_loop sha leaf nodes = mroot sha t"
  shows "(case lead_to t (directions nodes) of
      Inl u \<Rightarrow> leaf = mroot sha u
    | Inr l \<Rightarrow> l \<in> sha256d sha ` set (hashed sha leaf nodes)) \<or>
    collide sha (hashed sha leaf nodes) (trail sha t (directions nodes))"
proof -
  have "directions (levels nodes) = directions nodes" by (simp add: directions_def levels_def)
  moreover have "list_all (\<lambda>n. pos n \<noteq> MERKLE_INVALID_NODE) (levels nodes)" "list_all node_ok (levels nodes)"
    using p(1) by (auto simp: levels_def list_all_iff)
  moreover have "merkle_loop sha leaf (levels nodes) = mroot sha t" using r merkle_loop_levels by metis
  ultimately show ?thesis using merkle_binding[where sha = sha, OF sha _ _ p(2) t, of "levels nodes"]
    unfolding hashed_levels[of sha leaf nodes, symmetric] by simp
qed

lemma directions_Nil [simp]: "directions [] = []"
  by (simp add: directions_def levels_def)

lemma directions_snoc:
  "pos n \<noteq> MERKLE_INVALID_NODE \<Longrightarrow> directions (p @ [n]) = (pos n \<noteq> MERKLE_LEFT_NODE) # directions p"
  by (simp add: directions_def levels_def)

lemma directions_path_to: "leaf_at t ds = Some l \<Longrightarrow> directions (path_to sha t ds) = ds"
  by (induction t ds rule: leaf_at.induct) (auto simp: directions_snoc split: if_splits)

section \<open>Compact targets\<close>

lemma le_nat_le_bytes: "le_nat (le_bytes k (v :: 'a::len word)) = unat v mod 256 ^ k"
proof (induction k arbitrary: v)
  case (Suc k)
  have "unat (drop_bit 8 v) = unat v div 256" by (simp only: unat_drop_bit_eq) (simp add: drop_bit_eq_div)
  moreover have "unat (ucast v :: byte) = unat v mod 256" by (simp add: unsigned_ucast_eq take_bit_eq_mod)
  ultimately show ?case using Suc[of "drop_bit 8 v"] by (simp add: le_bytes_Suc mod_mult2_eq)
qed simp

lemma rev_be4: "rev (be4 v) = le_bytes 4 v"
  using append_u32_le_eq[of v] by (simp add: be4_def append_u32_le_def)

lemma le_nat_be4: "le_nat (rev (be4 v)) = unat v"
  using unsigned_less[of v, where 'a = nat] by (simp add: rev_be4 le_nat_le_bytes)

lemma le_nat_zeros: "le_nat (replicate k 0 @ [1]) = 256 ^ k"
  by (induction k) auto

lemma coefficient_value:
  "unat (ucast b0 OR push_bit 8 (ucast b1) OR push_bit 16 (ucast b2) :: u32) = le_nat [b0, b1, b2 :: byte]"
proof -
  let ?v = "le_val [b0, b1, b2, 0] :: u32"
  have v: "?v = ucast b0 OR push_bit 8 (ucast b1) OR push_bit 16 (ucast b2)"
    by (simp add: push_bit_or)
  have "le_bytes 4 ?v = [b0, b1, b2, 0]"
    using le_bytes_le_val[of "[b0, b1, b2, 0]", where 'a = 32]
    by (simp add: numeral_eq_Suc del: le_val.simps)
  then have "le_nat [b0, b1, b2, 0] = unat ?v mod 256 ^ 4" using le_nat_le_bytes[of 4 ?v] by simp
  also have "\<dots> = unat ?v" using unsigned_less[of ?v, where 'a = nat] by simp
  finally show ?thesis unfolding v by simp
qed

text \<open>The number a compact field stands for, as the Bitcoin protocol defines it.\<close>

definition compact_target :: "bytes \<Rightarrow> nat" where
  "compact_target bs =
     (let c = le_nat (take 3 bs); e = unat (bs ! 3) in
      if 3 \<le> e then c * 256 ^ (e - 3) else c div 256 ^ (3 - e))"

lemma bits2target_value:
  assumes "bn_in_ok L" "length bs = 4"
  shows "bits2target L bs = int (compact_target bs)"
proof -
  obtain e where e: "e = unat (bs ! 3)" by simp
  let ?e = e
  let ?c = "(ucast (bs ! 0) OR push_bit 8 (ucast (bs ! 1)) OR push_bit 16 (ucast (bs ! 2)) :: u32)"
  have t: "take 3 bs = [bs ! 0, bs ! 1, bs ! 2]"
    using list_eq_nth_4[OF assms(2)] by (metis One_nat_def numeral_3_eq_3 take0 take_Suc_Cons)
  have c: "unat ?c = le_nat (take 3 bs)" unfolding t by (rule coefficient_value)
  have L: "BN_bin2bn L b = int (le_nat (rev b))" for b using assms(1) by (simp add: bn_in_ok_def)
  have u: "uint (bs ! 3) = int ?e" by (simp add: e)
  show ?thesis
  proof (cases "3 \<le> ?e")
    case True
    then have n: "nat (8 * (int ?e - 3) div 8) = ?e - 3" "8 * (int ?e - 3) mod 8 = 0" "8 * (int ?e - 3) \<ge> 0"
      by auto
    have "BN_bin2bn L ((replicate (?e - 3 + 1) 0)[?e - 3 + 1 - 1 - (?e - 3) := push_bit (nat 0) 1]) = int (256 ^ (?e - 3))"
      using le_nat_zeros[of "?e - 3"] by (simp add: L)
    then show ?thesis using True n c
      by (simp add: bits2target_def Let_def u L le_nat_be4 compact_target_def e[symmetric])
  next
    case False
    then have n: "\<not> 0 \<le> 8 * (int ?e - 3)" "nat (- (8 * (int ?e - 3))) = 8 * (3 - ?e)" by auto
    have s4: "\<not> 4 \<le> 3 - ?e" by arith
    obtain co where co: "co = ?c" by simp
    have v: "unat (drop_bit (8 * (3 - ?e)) co) = le_nat (take 3 bs) div 256 ^ (3 - ?e)"
      unfolding c[symmetric] co by (simp only: unat_drop_bit_eq) (simp add: drop_bit_eq_div power_mult)
    have "bits2target L bs = int (unat (if 8 * (3 - ?e) \<ge> 32 then 0 else drop_bit (8 * (3 - ?e)) co))"
      using n s4 unfolding bits2target_def Let_def u co[symmetric] L le_nat_be4
      by (simp del: of_nat_unat)
    then show ?thesis using False v s4 by (simp add: compact_target_def e[symmetric] del: of_nat_unat)
  qed
qed

section \<open>Header serialization\<close>

lemma append_le4_eq [codec]: "append_le4 v = le_bytes 4 v"
proof -
  have "(ucast (w AND 0xff) :: byte) = ucast w" for w :: u64
  proof (rule bit_word_eqI)
    have m: "(0xff :: u64) = mask 8" by (simp add: mask_eq_exp_minus_1)
    fix n assume "n < LENGTH(8)"
    then show "bit (ucast (w AND 0xff) :: byte) n = bit (ucast w :: byte) n"
      by (simp add: m bit_simps)
  qed
  then show ?thesis by (simp add: append_le4_def le_bytes_def numeral_eq_Suc)
qed

definition header_ok :: "block_header_t \<Rightarrow> bool" where
  "header_ok h \<longleftrightarrow> length (hdr_version h) = 4 \<and> length (prev_block_hash h) = 32 \<and>
     length (merkle_root h) = 32 \<and> length (bits h) = 4 \<and>
     unat (hdr_time h) < 2 ^ 32 \<and> unat (nonce h) < 2 ^ 32"

lemma le4_inj:
  assumes "unat (v :: u64) < 2 ^ 32" "unat w < 2 ^ 32" "append_le4 v = append_le4 w"
  shows "v = w"
proof -
  have "unat v mod 256 ^ 4 = unat w mod 256 ^ 4"
    using arg_cong[OF assms(3), of le_nat] by (simp add: append_le4_eq le_nat_le_bytes)
  then show ?thesis using assms(1,2) by (simp add: word_unat_eq_iff)
qed

lemma block_header_serialize_inj:
  assumes "header_ok h" "header_ok h'" "block_header_serialize h = block_header_serialize h'"
  shows "h = h'"
proof -
  have "append_le4 (hdr_time h) = append_le4 (hdr_time h')" "append_le4 (nonce h) = append_le4 (nonce h')"
    "hdr_version h = hdr_version h'" "prev_block_hash h = prev_block_hash h'"
    "merkle_root h = merkle_root h'" "bits h = bits h'"
    using assms by (auto simp: block_header_serialize_def header_ok_def append_le4_def)
  then show ?thesis using assms(1,2) le4_inj
    by (auto simp: header_ok_def intro!: block_header_t.equality)
qed

lemma length_block_header: "header_ok h \<Longrightarrow> length (block_header_serialize h) = 80"
  by (simp add: block_header_serialize_def header_ok_def append_le4_def)

section \<open>Properties\<close>

text \<open>
  C32. Inclusion proofs are complete and sound. Against a header that commits to a Merkle tree,
  the sibling path of any leaf of depth at most 32, padded to the fixed depth, is accepted; its
  directions are those of the leaf. And any accepted proof is for what its own directions lead to
  in the tree. If they lead to a leaf, the transaction is that leaf; if they stop at an inner
  node, it is the hash of that node, which the verifier does not tell from a transaction; if they
  go on below a leaf, a string hashed on the way up has that leaf as its hash. The only other way
  is a collision between a string the proof hashes and one the tree hashes on those directions.
\<close>

theorem tx_in_block_correct:
  assumes "\<forall>x. length (sha x) = 32" "leaves_ok t" "leaf_at t ds = Some l"
    and "merkle_root h = mroot sha t" "length ds \<le> 32"
  shows "tx_in_block sha l h (path_to sha t ds @ pad) (length ds) \<and>
    directions (path_to sha t ds) = ds \<and> lead_to t ds = Inl (MLeaf l) \<and>
    (list_all node_ok nodes \<and> length leaf = 32 \<and> tx_in_block sha leaf h nodes depth \<longrightarrow>
      (case lead_to t (directions (take depth nodes)) of
         Inl u \<Rightarrow> leaf = mroot sha u
       | Inr k \<Rightarrow> k \<in> sha256d sha ` set (hashed sha leaf (take depth nodes))) \<or>
      collide sha (hashed sha leaf (take depth nodes)) (trail sha t (directions (take depth nodes))))"
proof (intro conjI impI; (elim conjE)?)
  show "tx_in_block sha l h (path_to sha t ds @ pad) (length ds)"
    using assms(4,5) path_to_root[OF assms(3), of sha] path_to_length[OF assms(3), of sha]
    by (simp add: tx_in_block_def calc_merkle_root_def BONSAI_MERKLE_PROOF_DEPTH_def)
  show "directions (path_to sha t ds) = ds" by (rule directions_path_to[OF assms(3)])
  show "lead_to t ds = Inl (MLeaf l)" using assms(3) by (simp add: lead_to_leaf)
next
  assume a: "list_all node_ok nodes" "length leaf = 32" "tx_in_block sha leaf h nodes depth"
  then have "merkle_loop sha leaf (take depth nodes) = mroot sha t"
    using assms(4) by (auto simp: tx_in_block_def calc_merkle_root_def split: if_splits)
  moreover have "list_all node_ok (take depth nodes)"
    using a(1) by (auto simp: list_all_iff dest: in_set_takeD)
  ultimately show "(case lead_to t (directions (take depth nodes)) of
         Inl u \<Rightarrow> leaf = mroot sha u
       | Inr k \<Rightarrow> k \<in> sha256d sha ` set (hashed sha leaf (take depth nodes))) \<or>
      collide sha (hashed sha leaf (take depth nodes)) (trail sha t (directions (take depth nodes)))"
    using merkle_sound[where sha = sha, OF assms(1)[rule_format] assms(2)] a(2) by blast
qed

definition demo_mtree :: mtree where
  "demo_mtree = MNode (MNode (MLeaf (replicate 32 1)) (MLeaf (replicate 32 2))) (MLeaf (replicate 32 3))"

definition demo_header :: block_header_t where
  "demo_header = \<lparr>hdr_version = [1, 0, 0, 0], prev_block_hash = replicate 32 0,
     merkle_root = mroot pad32 demo_mtree, hdr_time = 7, bits = [0xff, 0xff, 0, 0x1d], nonce = 9\<rparr>"

lemma pad32_length: "\<forall>x. length (pad32 x) = 32"
  by (auto simp: pad32_def min_def)

theorem tx_in_block_correct_witness:
  "tx_in_block pad32 (replicate 32 2) demo_header (path_to pad32 demo_mtree [True, False] @ []) 2"
proof -
  have "leaves_ok demo_mtree" "leaf_at demo_mtree [True, False] = Some (replicate 32 2)"
    by (simp_all add: demo_mtree_def)
  moreover have "merkle_root demo_header = mroot pad32 demo_mtree" by (simp add: demo_header_def)
  ultimately show ?thesis
    using tx_in_block_correct[OF pad32_length, of demo_mtree "[True, False]" "replicate 32 2" demo_header "[]"]
    by (simp add: numeral_2_eq_2)
qed

text \<open>
  C33. A header is accepted exactly when its hash, read little-endian, is at most the target
  its compact field stands for and that target is at most the chain's limit; the hash
  determines every field of the header unless double SHA-256 collides on the two serialized
  headers, which are 80 bytes long.
\<close>

theorem is_valid_block_header_iff:
  assumes "bn_in_ok L" "header_ok h" "header_ok h'"
  shows "(is_valid_block_header L sha h lim \<longleftrightarrow>
      int (le_nat (sha256d sha (block_header_serialize h))) \<le> int (compact_target (bits h)) \<and>
      int (compact_target (bits h)) \<le> lim) \<and>
    (block_header_hash sha h = block_header_hash sha h' \<and>
      no_collision sha (block_header_serialize h) (block_header_serialize h') \<longrightarrow> h = h') \<and>
    length (block_header_serialize h) = BONSAI_BLOCK_HEADER_LEN"
proof (intro conjI)
  show "is_valid_block_header L sha h lim \<longleftrightarrow>
      int (le_nat (sha256d sha (block_header_serialize h))) \<le> int (compact_target (bits h)) \<and>
      int (compact_target (bits h)) \<le> lim"
    using assms bits2target_value[OF assms(1), of "bits h"]
    by (simp add: is_valid_block_header_def block_header_hash_as_int_def block_header_hash_def
        bn_in_ok_def header_ok_def Let_def)
  show "block_header_hash sha h = block_header_hash sha h' \<and>
      no_collision sha (block_header_serialize h) (block_header_serialize h') \<longrightarrow> h = h'"
    using block_header_serialize_inj[OF assms(2,3)] by (simp add: block_header_hash_def no_collision_def)
  show "length (block_header_serialize h) = BONSAI_BLOCK_HEADER_LEN"
    using length_block_header[OF assms(2)] by (simp add: BONSAI_BLOCK_HEADER_LEN_def)
qed


definition demo_bn_in :: bn_in where
  "demo_bn_in = \<lparr>BN_lebin2bn = (\<lambda>b. int (le_nat b)), BN_bin2bn = (\<lambda>b. int (le_nat (rev b)))\<rparr>"

theorem is_valid_block_header_iff_witness:
  "is_valid_block_header demo_bn_in pad32 demo_header (2 ^ 256) \<longleftrightarrow>
      int (le_nat (sha256d pad32 (block_header_serialize demo_header))) \<le> int (compact_target (bits demo_header)) \<and>
      int (compact_target (bits demo_header)) \<le> 2 ^ 256"
proof -
  have "bn_in_ok demo_bn_in" by (simp add: bn_in_ok_def demo_bn_in_def)
  moreover have "header_ok demo_header"
    by (simp add: header_ok_def demo_header_def demo_mtree_def sha256d_def pad32_length)
  ultimately show ?thesis using is_valid_block_header_iff[of demo_bn_in demo_header] by blast
qed

end
