(* ===== verification/Provenance.thy ===== *)
theory Provenance
  imports Sighash Utf8
begin

text \<open>
  The provenance commitment of \<^verbatim>\<open>src/provenance.c\<close> and the stake floors of
  \<^verbatim>\<open>src/verifier/stake_policy.c\<close>. A C string is its list of bytes, \<open>None\<close> is NULL.
\<close>

section \<open>Provenance\<close>

record provenance_record_t =
  dataset_id :: "bytes option"
  model_id :: "bytes option"
  prov_version :: "bytes option"
  licence_tag :: "bytes option"

definition provenance_lp :: "bytes option \<Rightarrow> bytes res" where
  "provenance_lp s =
     (let s = (case s of None \<Rightarrow> [] | Some b \<Rightarrow> b); n = utf8_byte_len (Some s) in
      if n > 255 then Inl BNS_ERANGE else Inr ([of_nat n] @ take n s))"

definition provenance_preimage :: "provenance_record_t \<Rightarrow> bytes res" where
  "provenance_preimage p =
     res_bind (provenance_lp (dataset_id p)) (\<lambda>a.
     res_bind (provenance_lp (model_id p)) (\<lambda>b.
     res_bind (provenance_lp (prov_version p)) (\<lambda>c.
     res_bind (provenance_lp (licence_tag p)) (\<lambda>d. Inr (a @ b @ c @ d)))))"

definition compute_provenance_hash :: "(bytes \<Rightarrow> bytes) \<Rightarrow> provenance_record_t \<Rightarrow> string res" where
  "compute_provenance_hash sha p =
     res_bind (provenance_preimage p) (\<lambda>preimage.
     case hex_encode (sha preimage) of None \<Rightarrow> Inl BNS_ENOMEM | Some hex \<Rightarrow> Inr hex)"

text \<open>The four strings as the preimage sees them.\<close>

definition text_of :: "bytes option \<Rightarrow> bytes" where
  "text_of s = (case s of None \<Rightarrow> [] | Some b \<Rightarrow> b)"

definition prov_texts :: "provenance_record_t \<Rightarrow> bytes list" where
  "prov_texts p = map text_of [dataset_id p, model_id p, prov_version p, licence_tag p]"

lemma provenance_lp_alt:
  "provenance_lp s = (if length (text_of s) > 255 then Inl BNS_ERANGE
     else Inr (of_nat (length (text_of s)) # text_of s))"
  by (simp add: provenance_lp_def text_of_def utf8_byte_len_def Let_def)

lemma lp_prefix_free:
  assumes "provenance_lp s = Inr a" "provenance_lp t = Inr b" "a @ x = b @ y"
  shows "text_of s = text_of t \<and> x = y"
proof -
  from assms have l: "length (text_of s) \<le> 255" "length (text_of t) \<le> 255"
    and e: "(of_nat (length (text_of s)) :: byte) = of_nat (length (text_of t))"
      "text_of s @ x = text_of t @ y"
    by (auto simp: provenance_lp_alt split: if_splits)
  have "length (text_of s) = length (text_of t)"
    using arg_cong[OF e(1), of unat] l by (simp add: unat_of_nat)
  then show ?thesis using e(2) by simp
qed

lemma provenance_preimage_cases:
  "provenance_preimage p = (if list_all (\<lambda>t. length t \<le> 255) (prov_texts p)
     then Inr (concat (map (\<lambda>t. of_nat (length t) # t) (prov_texts p))) else Inl BNS_ERANGE)"
  by (simp add: provenance_preimage_def provenance_lp_alt prov_texts_def)

lemma provenance_preimage_inj:
  assumes "provenance_preimage p = Inr x" "provenance_preimage q = Inr x"
  shows "prov_texts p = prov_texts q"
proof -
  obtain a b c d where p: "provenance_lp (dataset_id p) = Inr a" "provenance_lp (model_id p) = Inr b"
    "provenance_lp (prov_version p) = Inr c" "provenance_lp (licence_tag p) = Inr d" "x = a @ b @ c @ d"
    using assms(1) by (auto simp: provenance_preimage_def res_bind_Inr_iff)
  obtain a' b' c' d' where q: "provenance_lp (dataset_id q) = Inr a'" "provenance_lp (model_id q) = Inr b'"
    "provenance_lp (prov_version q) = Inr c'" "provenance_lp (licence_tag q) = Inr d'" "x = a' @ b' @ c' @ d'"
    using assms(2) by (auto simp: provenance_preimage_def res_bind_Inr_iff)
  have 1: "text_of (dataset_id p) = text_of (dataset_id q)" "b @ c @ d = b' @ c' @ d'"
    using lp_prefix_free[OF p(1) q(1), of "b @ c @ d" "b' @ c' @ d'"] p(5) q(5) by auto
  have 2: "text_of (model_id p) = text_of (model_id q)" "c @ d = c' @ d'"
    using lp_prefix_free[OF p(2) q(2) 1(2)] by auto
  have 3: "text_of (prov_version p) = text_of (prov_version q)" "d = d'"
    using lp_prefix_free[OF p(3) q(3) 2(2)] by auto
  have "text_of (licence_tag p) = text_of (licence_tag q)"
    using lp_prefix_free[OF p(4) q(4), of "[]" "[]"] 3(2) by simp
  with 1 2 3 show ?thesis by (simp add: prov_texts_def)
qed

text \<open>
  The provenance hash commits to all four fields: it fails with BNS_ERANGE exactly when
  a field is longer than 255 bytes, it is otherwise 64 characters long, and two records with
  the same hash have the same four strings unless SHA-256 collides on their preimages.
\<close>

theorem provenance_hash_commits:
  assumes "\<forall>x. length (sha x) = 32"
  shows "(compute_provenance_hash sha p = Inl BNS_ERANGE \<longleftrightarrow> \<not> list_all (\<lambda>t. length t \<le> 255) (prov_texts p)) \<and>
    (compute_provenance_hash sha p \<noteq> Inl BNS_ERANGE \<longrightarrow>
       (\<exists>h. compute_provenance_hash sha p = Inr h \<and> length h = 64)) \<and>
    (provenance_preimage p = Inr x \<and> provenance_preimage q = Inr y \<and> (x = y \<or> sha x \<noteq> sha y) \<and>
     compute_provenance_hash sha p = compute_provenance_hash sha q \<longrightarrow> prov_texts p = prov_texts q)"
proof -
  have h: "compute_provenance_hash sha r =
      (if list_all (\<lambda>t. length t \<le> 255) (prov_texts r)
       then Inr (hex_encode_loop (sha (concat (map (\<lambda>t. of_nat (length t) # t) (prov_texts r)))))
       else Inl BNS_ERANGE)" for r
    using hex_encode_small[of "sha (concat (map (\<lambda>t. of_nat (length t) # t) (prov_texts r)))"] assms
    by (simp add: compute_provenance_hash_def provenance_preimage_cases SIZE_MAX_def)
  show ?thesis
  proof (intro conjI impI)
    assume a: "provenance_preimage p = Inr x \<and> provenance_preimage q = Inr y \<and> (x = y \<or> sha x \<noteq> sha y) \<and>
      compute_provenance_hash sha p = compute_provenance_hash sha q"
    then have "sha x = sha y" by (auto simp: h provenance_preimage_cases split: if_splits)
    then show "prov_texts p = prov_texts q" using a provenance_preimage_inj[of p x q] by metis
  qed (auto simp: h assms split: if_splits)
qed

definition demo_prov :: provenance_record_t where
  "demo_prov = \<lparr>dataset_id = Some [0x64], model_id = None, prov_version = Some [0x31], licence_tag = Some []\<rparr>"

theorem provenance_hash_commits_witness:
  "prov_texts demo_prov = prov_texts (demo_prov\<lparr>model_id := Some []\<rparr>) \<and>
   compute_provenance_hash pad32 demo_prov \<noteq> Inl BNS_ERANGE"
proof -
  have l: "\<forall>x. length (pad32 x) = 32" by (auto simp: pad32_def min_def)
  have "provenance_preimage demo_prov = Inr [1, 0x64, 0, 1, 0x31, 0]"
    "provenance_preimage (demo_prov\<lparr>model_id := Some []\<rparr>) = Inr [1, 0x64, 0, 1, 0x31, 0]"
    by (simp_all add: demo_prov_def provenance_preimage_cases prov_texts_def text_of_def)
  moreover from this have "compute_provenance_hash pad32 demo_prov =
      compute_provenance_hash pad32 (demo_prov\<lparr>model_id := Some []\<rparr>)"
    by (simp add: compute_provenance_hash_def)
  moreover have "list_all (\<lambda>t. length t \<le> 255) (prov_texts demo_prov)"
    by (simp add: demo_prov_def prov_texts_def text_of_def)
  ultimately show ?thesis
    using provenance_hash_commits[OF l, of demo_prov "[1, 0x64, 0, 1, 0x31, 0]"
        "demo_prov\<lparr>model_id := Some []\<rparr>" "[1, 0x64, 0, 1, 0x31, 0]"] by simp
qed

section \<open>Stake floors\<close>

text \<open>
  Amounts are 64-bit signed; the product is formed in 128 bits, where it cannot wrap, and is
  kept at that width here.
\<close>

definition BONSAI_VALIDATOR_STAKE_MULTIPLIER :: "64 word" where
  "BONSAI_VALIDATOR_STAKE_MULTIPLIER = 4"

definition BONSAI_ATTESTOR_BOND_FLOOR_SATS :: "64 word" where
  "BONSAI_ATTESTOR_BOND_FLOOR_SATS = 10000000"

definition meets_validator_stake_floor :: "64 word \<Rightarrow> 64 word \<Rightarrow> bool" where
  "meets_validator_stake_floor staked_sats per_tx_limit =
     (if staked_sats <s 0 \<or> per_tx_limit \<le>s 0 then False
      else
        let floor = (scast BONSAI_VALIDATOR_STAKE_MULTIPLIER :: 128 word) * scast per_tx_limit in
        floor \<le>s scast staked_sats)"

definition meets_attestor_bond_floor :: "64 word \<Rightarrow> bool" where
  "meets_attestor_bond_floor bond_sats \<longleftrightarrow> BONSAI_ATTESTOR_BOND_FLOOR_SATS \<le>s bond_sats"

lemma sint_scast_128: "sint (scast (x :: 64 word) :: 128 word) = sint x"
  by (simp add: sint_up_scast is_up)

lemma sint_bounds_64: "- (2 ^ 63) \<le> sint (x :: 64 word)" "sint x < 2 ^ 63"
  using sint_range_size[of x] by (simp_all add: size_word_def)

text \<open>The comparison is the one over the integers for every pair of 64-bit amounts.\<close>

lemma meets_validator_stake_floor_iff:
  "meets_validator_stake_floor s l \<longleftrightarrow> 0 \<le> sint s \<and> 0 < sint l \<and> 4 * sint l \<le> sint s"
proof -
  have "sint ((4 :: 128 word) * scast l) = 4 * sint l"
  proof -
    have "sint ((4 :: 128 word) * scast l) = signed_take_bit 127 (4 * sint l)"
      by (simp add: sint_word_ariths(3) sint_scast_128)
    also have "\<dots> = 4 * sint l"
      using sint_bounds_64[of l] by (intro signed_take_bit_int_eq_self) simp_all
    finally show ?thesis .
  qed
  then show ?thesis
    by (auto simp: meets_validator_stake_floor_def BONSAI_VALIDATOR_STAKE_MULTIPLIER_def Let_def
        word_sless_alt word_sle_eq sint_scast_128)
qed

lemma meets_attestor_bond_floor_iff: "meets_attestor_bond_floor b \<longleftrightarrow> 10000000 \<le> sint b"
  by (simp add: meets_attestor_bond_floor_def BONSAI_ATTESTOR_BOND_FLOOR_SATS_def word_sle_eq)

end
