(* ===== verification/UtxoSelect.thy ===== *)
theory UtxoSelect
  imports Prelude "HOL-Library.Multiset" "HOL-Library.Product_Lexorder"
begin

text \<open>
  Ranking of funding outputs, \<^verbatim>\<open>src/chainSources/utxo_select.c\<close>: the overflow-safe total,
  the bottom-up merge sort and the filter-map-sort pipeline. The locale \<open>stable_sorter\<close>
  states what the ranking needs of a sorting routine; the merge sort is its instance.
  Signed 64-bit amounts are words read with \<open>sint\<close>.
\<close>

section \<open>Model\<close>

type_synonym i64 = "64 word"

definition BONSAI_MAX_MONEY :: i64 where
  "BONSAI_MAX_MONEY = 21000000 * 100000000"

record woc_utxo_t =
  tx_hash :: string
  tx_pos :: u32
  utxo_value :: i64
  height :: i64

record funding_utxo_t =
  fu_tx_id :: string
  output_index :: u32
  fu_satoshis :: i64
  confirmed :: bool

record rank_opts_t =
  confirmed_only :: bool
  has_confirmed_only :: bool
  min_sats :: i64
  has_min_sats :: bool

fun funding_total_loop :: "funding_utxo_t list \<Rightarrow> u64 \<Rightarrow> u64 res" where
  "funding_total_loop [] tot = Inr tot"
| "funding_total_loop (u # us) tot =
     (let v = fu_satoshis u in
      if v <s 0 \<or> BONSAI_MAX_MONEY <s v then Inl BNS_ERANGE
      else if v > BONSAI_MAX_MONEY - tot then Inl BNS_ERANGE
      else funding_total_loop us (tot + v))"

definition funding_utxos_total :: "funding_utxo_t list \<Rightarrow> u64 res" where
  "funding_utxos_total items = funding_total_loop items 0"

definition cmp_funding :: "funding_utxo_t \<Rightarrow> funding_utxo_t \<Rightarrow> int" where
  "cmp_funding a b =
     (if confirmed a \<noteq> confirmed b then (if confirmed a then -1 else 1)
      else if fu_satoshis a <s fu_satoshis b then 1
      else if fu_satoshis b <s fu_satoshis a then -1
      else 0)"

text \<open>
  The merge of two adjacent runs into the scratch array, one pass over the array in steps of
  two runs, and the doubling of the run length. A run that would reach past the end is cut
  there, as the two clamps of the C code do.
\<close>

fun merge_runs :: "funding_utxo_t list \<Rightarrow> funding_utxo_t list \<Rightarrow> funding_utxo_t list" where
  "merge_runs (l # ls) (r # rs) =
     (if cmp_funding l r \<le> 0 then l # merge_runs ls (r # rs) else r # merge_runs (l # ls) rs)"
| "merge_runs ls [] = ls"
| "merge_runs [] rs = rs"

function merge_pass :: "nat \<Rightarrow> funding_utxo_t list \<Rightarrow> funding_utxo_t list" where
  "merge_pass width arr =
     (if arr = [] \<or> width = 0 then arr
      else merge_runs (take width arr) (take width (drop width arr)) @ merge_pass width (drop (2 * width) arr))"
  by pat_completeness auto
termination by (relation "measure (\<lambda>(w, a). length a)") auto

declare merge_pass.simps [simp del]

lemma length_merge_runs [simp]: "length (merge_runs xs ys) = length xs + length ys"
  by (induction xs ys rule: merge_runs.induct) auto

lemma length_merge_pass [simp]: "length (merge_pass w xs) = length xs"
proof (induction w xs rule: merge_pass.induct)
  case (1 w xs)
  then show ?case by (subst merge_pass.simps) auto
qed

function sort_loop :: "nat \<Rightarrow> funding_utxo_t list \<Rightarrow> funding_utxo_t list" where
  "sort_loop width arr =
     (if 0 < width \<and> width < length arr then sort_loop (width * 2) (merge_pass width arr) else arr)"
  by pat_completeness auto
termination by (relation "measure (\<lambda>(w, a). length a - w)") auto

declare sort_loop.simps [simp del]

definition stable_sort :: "funding_utxo_t list \<Rightarrow> funding_utxo_t list" where
  "stable_sort arr = (if length arr < 2 then arr else sort_loop 1 arr)"

definition rank_keep :: "i64 \<Rightarrow> bool \<Rightarrow> woc_utxo_t \<Rightarrow> bool" where
  "rank_keep mins conf_only u =
     (if BONSAI_MAX_MONEY <s utxo_value u then False
      else if utxo_value u <s mins then False
      else if conf_only \<and> \<not> 0 <s height u then False
      else True)"

definition rank_map :: "woc_utxo_t \<Rightarrow> funding_utxo_t" where
  "rank_map u = \<lparr>fu_tx_id = take 64 (tx_hash u), output_index = tx_pos u,
     fu_satoshis = utxo_value u, confirmed = 0 <s height u\<rparr>"

definition rank_funding_utxos :: "woc_utxo_t list \<Rightarrow> rank_opts_t option \<Rightarrow> funding_utxo_t list" where
  "rank_funding_utxos utxos opts =
     (let mins = (case opts of Some op \<Rightarrow> if has_min_sats op then min_sats op else 0 | None \<Rightarrow> 0);
          conf_only = (case opts of Some op \<Rightarrow> has_confirmed_only op \<and> confirmed_only op | None \<Rightarrow> False) in
      if utxos = [] then []
      else stable_sort (map rank_map (filter (rank_keep mins conf_only) utxos)))"

section \<open>What a stable sort promises\<close>

locale stable_sorter =
  fixes srt :: "'a list \<Rightarrow> 'a list" and key :: "'a \<Rightarrow> 'k::linorder"
  assumes srt_mset: "mset (srt xs) = mset xs"
    and srt_sorted: "sorted (map key (srt xs))"
    and srt_stable: "filter (\<lambda>x. key x = k) (srt xs) = filter (\<lambda>x. key x = k) xs"
begin

lemma srt_eq_sort_key: "srt xs = sort_key key xs"
proof (rule properties_for_sort_key[symmetric])
  show "mset (srt xs) = mset xs" by (rule srt_mset)
  show "filter (\<lambda>x. key k = key x) (srt xs) = filter (\<lambda>x. key k = key x) xs" if "k \<in> set (srt xs)" for k
    using srt_stable[of "key k" xs] by (simp add: eq_commute)
  show "sorted (map key (srt xs))" by (rule srt_sorted)
qed

lemma srt_head_least: "srt xs = y # ys \<Longrightarrow> x \<in> set xs \<Longrightarrow> key y \<le> key x"
proof -
  assume a: "srt xs = y # ys" "x \<in> set xs"
  have "set (srt xs) = set xs" using srt_mset[of xs] by (metis set_mset_mset)
  then have "x \<in> set (y # ys)" using a by simp
  then show ?thesis using srt_sorted[of xs] a(1) by auto
qed

lemma srt_idem: "srt (srt xs) = srt xs"
  by (simp add: srt_eq_sort_key sort_key_id_if_sorted[OF srt_sorted[unfolded srt_eq_sort_key]])

end

section \<open>The merge sort\<close>

definition funding_key :: "funding_utxo_t \<Rightarrow> bool \<times> int" where
  "funding_key f = (\<not> confirmed f, - sint (fu_satoshis f))"

lemma cmp_funding_key: "cmp_funding a b \<le> 0 \<longleftrightarrow> funding_key a \<le> funding_key b"
  by (auto simp: cmp_funding_def funding_key_def less_eq_prod_def word_sless_alt)

lemma merge_runs_mset: "mset (merge_runs xs ys) = mset xs + mset ys"
  by (induction xs ys rule: merge_runs.induct) auto

lemma merge_runs_set: "set (merge_runs xs ys) = set xs \<union> set ys"
  by (metis merge_runs_mset mset_append set_append set_mset_mset)

lemma merge_runs_sorted:
  "sorted (map funding_key xs) \<Longrightarrow> sorted (map funding_key ys) \<Longrightarrow> sorted (map funding_key (merge_runs xs ys))"
  by (induction xs ys rule: merge_runs.induct)
    (auto simp: merge_runs_set cmp_funding_key intro: order_trans less_imp_le)

lemma merge_runs_stable:
  "sorted (map funding_key xs) \<Longrightarrow>
   filter (\<lambda>x. funding_key x = k) (merge_runs xs ys) =
   filter (\<lambda>x. funding_key x = k) xs @ filter (\<lambda>x. funding_key x = k) ys"
proof (induction xs ys rule: merge_runs.induct)
  case (1 l ls r rs)
  show ?case
  proof (cases "cmp_funding l r \<le> 0")
    case False
    then have "funding_key r < funding_key l" by (simp add: cmp_funding_key)
    then have "filter (\<lambda>x. funding_key x = k) (l # ls) = []" if "funding_key r = k"
      using "1.prems" that by (auto simp: filter_empty_conv)
    then show ?thesis using 1 False by auto
  qed (use 1 in auto)
qed simp_all

text \<open>The array is a sequence of sorted runs of length \<open>w\<close>, the last one possibly shorter.\<close>

function sorted_runs :: "nat \<Rightarrow> funding_utxo_t list \<Rightarrow> bool" where
  "sorted_runs w xs = (if xs = [] \<or> w = 0 then xs = []
     else sorted (map funding_key (take w xs)) \<and> sorted_runs w (drop w xs))"
  by pat_completeness auto
termination by (relation "measure (\<lambda>(w, a). length a)") auto

declare sorted_runs.simps [simp del]

lemma sorted_runs_Nil [simp]: "sorted_runs w []"
  by (simp add: sorted_runs.simps)

lemma sorted_runs_0 [simp]: "sorted_runs 0 xs \<longleftrightarrow> xs = []"
  by (simp add: sorted_runs.simps)

lemma merge_pass_Nil [simp]: "merge_pass w [] = []"
  by (simp add: merge_pass.simps)

lemma sorted_runs_1: "sorted_runs 1 xs"
proof (induction xs)
  case (Cons x xs)
  then show ?case by (subst sorted_runs.simps) simp
qed (simp add: sorted_runs.simps)

lemma sorted_runs_all: "sorted_runs w xs \<Longrightarrow> length xs \<le> w \<Longrightarrow> sorted (map funding_key xs)"
  by (subst (asm) sorted_runs.simps) (auto split: if_splits)

lemma merge_pass_mset: "mset (merge_pass w xs) = mset xs"
proof (induction w xs rule: merge_pass.induct)
  case (1 w xs)
  show ?case
  proof (cases "xs = [] \<or> w = 0")
    case False
    have "mset (take w xs) + mset (take w (drop w xs)) + mset (drop (2 * w) xs) = mset xs"
      by (metis append.assoc append_take_drop_id drop_drop mset_append mult_2)
    then show ?thesis using False 1 by (subst merge_pass.simps) (simp add: merge_runs_mset)
  qed (simp add: merge_pass.simps)
qed

lemma split_two_runs: "filter P (take w xs) @ filter P (take w (drop w xs)) @ filter P (drop (2 * w) xs) = filter P xs"
  by (metis append_take_drop_id drop_drop filter_append mult_2)

lemma sorted_runs_drop: "sorted_runs w xs \<Longrightarrow> sorted_runs w (drop w xs)"
  by (cases "xs = [] \<or> w = 0") (simp_all add: sorted_runs.simps[of w xs])

lemma sorted_runs_take: "sorted_runs w xs \<Longrightarrow> sorted (map funding_key (take w xs))"
  by (cases "xs = [] \<or> w = 0") (auto simp add: sorted_runs.simps[of w xs])

lemma merge_pass_stable:
  "sorted_runs w xs \<Longrightarrow> filter (\<lambda>x. funding_key x = k) (merge_pass w xs) = filter (\<lambda>x. funding_key x = k) xs"
proof (induction w xs rule: merge_pass.induct)
  case (1 w xs)
  show ?case
  proof (cases "xs = [] \<or> w = 0")
    case False
    have "sorted_runs w (drop (2 * w) xs)"
      using sorted_runs_drop[OF sorted_runs_drop[OF "1.prems"]] by (simp add: mult_2)
    then show ?thesis using False "1.IH" split_two_runs[of "\<lambda>x. funding_key x = k" w xs]
        merge_runs_stable[OF sorted_runs_take[OF "1.prems"], of k "take w (drop w xs)"]
      by (subst merge_pass.simps) simp
  qed (simp add: merge_pass.simps)
qed

lemma sorted_runs_append:
  "sorted (map funding_key xs) \<Longrightarrow> length xs = w \<or> length xs \<le> w \<and> ys = [] \<Longrightarrow> sorted_runs w ys \<Longrightarrow> sorted_runs w (xs @ ys)"
  by (cases "xs @ ys = [] \<or> w = 0") (auto simp: sorted_runs.simps[of w "xs @ ys"])

lemma merge_pass_runs: "sorted_runs w xs \<Longrightarrow> sorted_runs (2 * w) (merge_pass w xs)"
proof (induction w xs rule: merge_pass.induct)
  case (1 w xs)
  show ?case
  proof (cases "xs = [] \<or> w = 0")
    case True
    then show ?thesis using "1.prems" by auto
  next
    case False
    let ?m = "merge_runs (take w xs) (take w (drop w xs))" and ?r = "drop (2 * w) xs"
    have r: "sorted_runs w ?r" using sorted_runs_drop[OF sorted_runs_drop[OF "1.prems"]] by (simp add: mult_2)
    have m: "sorted (map funding_key ?m)"
      by (intro merge_runs_sorted sorted_runs_take "1.prems" sorted_runs_drop)
    have "length ?m = 2 * w \<or> length ?m \<le> 2 * w \<and> merge_pass w ?r = []"
      by (cases "2 * w \<le> length xs") auto
    then show ?thesis using sorted_runs_append[OF m _ "1.IH"[OF False r]] False
      by (subst merge_pass.simps) simp
  qed
qed

lemma sort_loop_correct:
  assumes "sorted_runs w xs" "0 < w"
  shows "mset (sort_loop w xs) = mset xs" (is ?m)
    and "sorted (map funding_key (sort_loop w xs))" (is ?s)
    and "filter (\<lambda>x. funding_key x = k) (sort_loop w xs) = filter (\<lambda>x. funding_key x = k) xs" (is ?f)
proof -
  have "?m \<and> ?s \<and> ?f" using assms
  proof (induction w xs rule: sort_loop.induct)
    case (1 w xs)
    show ?case
    proof (cases "w < length xs")
      case True
      have "sorted_runs (w * 2) (merge_pass w xs)" using merge_pass_runs[OF "1.prems"(1)] by (simp add: mult.commute)
      then show ?thesis using 1 True merge_pass_mset[of w xs] merge_pass_stable[OF "1.prems"(1), of k]
        by (subst (1 2 3) sort_loop.simps) simp
    next
      case False
      then show ?thesis using sorted_runs_all[OF "1.prems"(1)] by (simp add: sort_loop.simps)
    qed
  qed
  then show ?m ?s ?f by blast+
qed

lemma short_sorted: "length xs < 2 \<Longrightarrow> sorted (map funding_key xs)"
  by (cases xs) auto

interpretation fund: stable_sorter stable_sort funding_key
proof unfold_locales
  fix xs k
  show "mset (stable_sort xs) = mset xs"
    using sort_loop_correct(1)[OF sorted_runs_1] by (simp add: stable_sort_def)
  show "sorted (map funding_key (stable_sort xs))"
    using sort_loop_correct(2)[OF sorted_runs_1] short_sorted[of xs] by (simp add: stable_sort_def)
  show "filter (\<lambda>x. funding_key x = k) (stable_sort xs) = filter (\<lambda>x. funding_key x = k) xs"
    using sort_loop_correct(3)[OF sorted_runs_1] by (simp add: stable_sort_def)
qed


section \<open>The overflow-safe total\<close>

lemma max_money_value: "sint BONSAI_MAX_MONEY = 2100000000000000" "unat BONSAI_MAX_MONEY = 2100000000000000"
  by (simp_all add: BONSAI_MAX_MONEY_def)

lemma sint_uint_nonneg: "0 \<le> sint (v :: i64) \<Longrightarrow> int (unat v) = sint v"
proof -
  assume a: "0 \<le> sint v"
  have "sint v < 2 ^ 64" using sint_less[of v] by simp
  then have "take_bit 64 (sint v) = sint v" using a by (simp add: take_bit_int_eq_self)
  then show ?thesis using uint_sint[of v] by simp
qed

lemma funding_total_loop_spec:
  assumes "unat tot \<le> unat BONSAI_MAX_MONEY"
  shows "funding_total_loop us tot =
    (if list_all (\<lambda>u. 0 \<le> sint (fu_satoshis u)) us \<and>
        int (unat tot) + sum_list (map (\<lambda>u. sint (fu_satoshis u)) us) \<le> sint BONSAI_MAX_MONEY
     then Inr (word_of_int (int (unat tot) + sum_list (map (\<lambda>u. sint (fu_satoshis u)) us)))
     else Inl BNS_ERANGE)"
  using assms
proof (induction us arbitrary: tot)
  case Nil
  then have "int (unat tot) \<le> sint BONSAI_MAX_MONEY" unfolding max_money_value by linarith
  then show ?case by simp
next
  case (Cons u us)
  let ?v = "fu_satoshis u"
  show ?case
  proof (cases "0 \<le> sint ?v")
    case False
    then show ?thesis by (simp add: word_sless_alt Let_def)
  next
    case True
    note v = sint_uint_nonneg[OF True]
    have pos: "list_all (\<lambda>u. 0 \<le> sint (fu_satoshis u)) us \<Longrightarrow> 0 \<le> sum_list (map (\<lambda>u. sint (fu_satoshis u)) us)"
      by (induction us) auto
    have sub: "unat (BONSAI_MAX_MONEY - tot) = unat BONSAI_MAX_MONEY - unat tot"
      using Cons.prems by (simp add: unat_sub word_le_nat_alt)
    show ?thesis
    proof (cases "unat tot + unat ?v \<le> unat BONSAI_MAX_MONEY")
      case False
      then have "sint BONSAI_MAX_MONEY < int (unat tot) + sint ?v" 
        unfolding v[symmetric] max_money_value by linarith
      moreover have "funding_total_loop (u # us) tot = Inl BNS_ERANGE"
      proof -
        have "unat BONSAI_MAX_MONEY - unat tot < unat ?v" using False Cons.prems by linarith
        then show ?thesis using sub by (simp add: Let_def word_less_nat_alt)
      qed
      ultimately show ?thesis using pos by auto
    next
      case le: True
      have a: "unat (tot + ?v) = unat tot + unat ?v"
        using le by (intro unat_add_lem[THEN iffD1]) (simp add: max_money_value)
      have "\<not> BONSAI_MAX_MONEY <s ?v" 
        using le unfolding word_sless_alt v[symmetric] max_money_value by linarith
      moreover have "\<not> ?v > BONSAI_MAX_MONEY - tot" using le sub by (simp add: word_less_nat_alt)
      ultimately have "funding_total_loop (u # us) tot = funding_total_loop us (tot + ?v)"
        using True by (simp add: Let_def word_sless_alt)
      moreover have "int (unat (tot + ?v)) = int (unat tot) + sint ?v" using a v by simp
      ultimately show ?thesis using Cons.IH[of "tot + ?v"] a le True by (simp add: add.assoc)
    qed
  qed
qed

text \<open>
  The funding total is exact or refused: it is the integer sum of the amounts when none is
  negative and the sum is at most the money supply, and BNS_ERANGE in every other case, so the
  64-bit accumulator never wraps.
\<close>

theorem funding_utxos_total_correct:
  "funding_utxos_total items =
    (if list_all (\<lambda>u. 0 \<le> sint (fu_satoshis u)) items \<and>
        sum_list (map (\<lambda>u. sint (fu_satoshis u)) items) \<le> 2100000000000000
     then Inr (word_of_int (sum_list (map (\<lambda>u. sint (fu_satoshis u)) items)))
     else Inl BNS_ERANGE)"
  unfolding funding_utxos_total_def by (subst funding_total_loop_spec) (simp_all add: max_money_value)

text \<open>
  C34. Ranking returns exactly the outputs that are within the money supply, reach the minimum
  and, if asked, are confirmed, in the order of a stable sort: confirmed ones first, then by
  falling amount, ties in the order of the input.
\<close>

theorem rank_funding_utxos_correct:
  "rank_funding_utxos utxos opts =
    sort_key (\<lambda>f. (\<not> confirmed f, - sint (fu_satoshis f)))
      (map rank_map (filter (\<lambda>u.
         sint (utxo_value u) \<le> 2100000000000000 \<and>
         (case opts of Some op \<Rightarrow> (if has_min_sats op then sint (min_sats op) else 0) | None \<Rightarrow> 0) \<le> sint (utxo_value u) \<and>
         ((case opts of Some op \<Rightarrow> \<not> (has_confirmed_only op \<and> confirmed_only op) | None \<Rightarrow> True) \<or> 0 < sint (height u)))
       utxos))"
proof -
  have k: "funding_key = (\<lambda>f. (\<not> confirmed f, - sint (fu_satoshis f)))"
    by (simp add: fun_eq_iff funding_key_def)
  have "rank_keep mins co u \<longleftrightarrow> sint (utxo_value u) \<le> 2100000000000000 \<and> sint mins \<le> sint (utxo_value u) \<and>
      (\<not> co \<or> 0 < sint (height u))" for mins co u
    by (auto simp: rank_keep_def word_sless_alt max_money_value)
  then show ?thesis
    by (cases opts) (auto simp: rank_funding_utxos_def Let_def fund.srt_eq_sort_key k intro!: arg_cong[of _ _ "sort_key _"] arg_cong[of _ _ "map _"] filter_cong)
qed

end
