(* ===== verification/Doubles.thy ===== *)
theory Doubles
  imports Prelude "HOL-Library.Log_Nat"
begin

text \<open>
  IEEE 754 binary64 arithmetic in the default rounding mode, as far as the sources use it: a
  finite double is the rational it stands for and every operation rounds its exact result to
  the nearest double, ties to even, with gradual underflow. Overflow to infinity and NaN are
  outside this model; the theorems that use it bound their operands.
\<close>

section \<open>Rounding\<close>

definition ilog2 :: "rat \<Rightarrow> int" where
  "ilog2 x = (let (p, q) = quotient_of x; k = bitlen p - bitlen q in
     if 2 powi k \<le> x then k else k - 1)"

definition round_even :: "rat \<Rightarrow> int" where
  "round_even x = (let f = \<lfloor>x\<rfloor>; d = x - of_int f in
     if d < 1 / 2 then f else if d > 1 / 2 then f + 1 else if even f then f else f + 1)"

definition dbl :: "rat \<Rightarrow> rat" where
  "dbl x = (if x = 0 then 0 else
     let e = max (ilog2 \<bar>x\<bar> - 52) (-1074) in of_int (round_even (x / 2 powi e)) * 2 powi e)"

section \<open>The binary exponent\<close>

lemma bitlen_range: "0 < p \<Longrightarrow> 2 powi (bitlen p - 1) \<le> (of_int p :: rat) \<and> of_int p < (2 powi bitlen p :: rat)"
proof -
  assume p: "0 < p"
  then have b: "0 < bitlen p" "2 ^ nat (bitlen p - 1) \<le> p" "p < 2 ^ nat (bitlen p)"
    using bitlen_bounds[OF p] bitlen_eq_zero_iff[of p] bitlen_nonneg[of p] p by auto
  have "(of_int (2 ^ nat (bitlen p - 1)) :: rat) \<le> of_int p" "(of_int p :: rat) < of_int (2 ^ nat (bitlen p))"
    using b(2,3) by (simp_all only: of_int_le_iff of_int_less_iff)
  then show ?thesis using b(1) by (simp add: power_int_def)
qed

lemma ilog2_range:
  assumes "0 < x"
  shows "2 powi ilog2 x \<le> x" and "x < 2 powi (ilog2 x + 1)"
proof -
  obtain p q where pq: "quotient_of x = (p, q)" by (cases "quotient_of x")
  then have q: "0 < q" and x: "x = of_int p / of_int q"
    using quotient_of_denom_pos[OF pq] quotient_of_div[OF pq] by auto
  then have p: "0 < p" using assms by (simp add: zero_less_divide_iff)
  let ?k = "bitlen p - bitlen q"
  note P = bitlen_range[OF p] and Q = bitlen_range[OF q]
  have "x < 2 powi bitlen p / 2 powi (bitlen q - 1)"
    unfolding x using P Q p q by (intro frac_less) (auto simp: zero_less_power_int)
  also have "\<dots> = 2 powi (?k + 1)" by (simp add: power_int_diff[symmetric] algebra_simps)
  finally have u: "x < 2 powi (?k + 1)" .
  have "2 powi (?k - 1) = (2 powi (bitlen p - 1) / 2 powi bitlen q :: rat)"
    by (simp add: power_int_diff[symmetric] algebra_simps)
  also have "\<dots> \<le> x"
    unfolding x using P Q p q by (intro frac_le) (auto simp: zero_less_power_int)
  finally have l: "2 powi (?k - 1) \<le> x" .
  show "2 powi ilog2 x \<le> x" "x < 2 powi (ilog2 x + 1)"
    using u l by (auto simp: ilog2_def pq Let_def)
qed

section \<open>Rounding to an integer\<close>

lemma round_even_err: "\<bar>of_int (round_even x) - x\<bar> \<le> 1 / 2"
proof -
  obtain f where f: "f = \<lfloor>x\<rfloor>" by simp
  then have b: "of_int f \<le> x" "x < of_int f + 1" by linarith+
  show ?thesis unfolding round_even_def Let_def f[symmetric]
    using b by (cases "x - of_int f < 1 / 2"; cases "x - of_int f > 1 / 2") (auto simp: abs_le_iff)
qed

lemma round_even_int [simp]: "round_even (of_int n) = n"
  by (simp add: round_even_def)

lemma round_even_mono: "x \<le> y \<Longrightarrow> round_even x \<le> round_even y"
proof -
  assume xy: "x \<le> y"
  then have f: "\<lfloor>x\<rfloor> \<le> \<lfloor>y\<rfloor>" by (rule floor_mono)
  have b: "round_even x \<in> {\<lfloor>x\<rfloor>, \<lfloor>x\<rfloor> + 1}" "round_even y \<in> {\<lfloor>y\<rfloor>, \<lfloor>y\<rfloor> + 1}"
    by (auto simp: round_even_def Let_def)
  show ?thesis
  proof (cases "\<lfloor>x\<rfloor> = \<lfloor>y\<rfloor>")
    case True
    then show ?thesis using xy by (auto simp: round_even_def Let_def)
  next
    case False
    then show ?thesis using f b by auto
  qed
qed

lemma dbl_0 [simp]: "dbl 0 = 0"
  by (simp add: dbl_def)

lemma dbl_pos_form:
  assumes "0 < x" "e = max (ilog2 x - 52) (-1074)"
  shows "dbl x = of_int (round_even (x / 2 powi e)) * 2 powi e"
  using assms by (simp add: dbl_def Let_def)

lemma dbl_err_abs:
  assumes "0 < x" "e = max (ilog2 x - 52) (-1074)"
  shows "\<bar>dbl x - x\<bar> \<le> 2 powi e / 2"
proof -
  have "dbl x - x = (of_int (round_even (x / 2 powi e)) - x / 2 powi e) * 2 powi e"
    unfolding dbl_pos_form[OF assms] by (simp add: algebra_simps)
  then have "\<bar>dbl x - x\<bar> = \<bar>of_int (round_even (x / 2 powi e)) - x / 2 powi e\<bar> * 2 powi e"
    by (simp add: abs_mult)
  also have "\<dots> \<le> 1 / 2 * 2 powi e" by (intro mult_right_mono round_even_err) simp
  finally show ?thesis by simp
qed

text \<open>The relative error of a normal result is at most half a unit in the last place.\<close>

lemma dbl_err:
  assumes "2 powi (-1022) \<le> x"
  shows "\<bar>dbl x - x\<bar> \<le> x / 2 ^ 53"
proof -
  have x: "0 < x" using assms by (rule less_le_trans[rotated]) simp
  have "-1022 < ilog2 x + 1"
  proof (rule ccontr)
    assume "\<not> -1022 < ilog2 x + 1"
    then have "(2 powi (ilog2 x + 1) :: rat) \<le> 2 powi (-1022)" by (intro power_int_increasing) auto
    then show False using ilog2_range(2)[OF x] assms by simp
  qed
  then have e: "max (ilog2 x - 52) (-1074) = ilog2 x - 52" by simp
  have "\<bar>dbl x - x\<bar> \<le> 2 powi (ilog2 x - 52) / 2" using dbl_err_abs[OF x refl] e by simp
  also have "\<dots> = 2 powi ilog2 x / 2 ^ 53" by (simp add: power_int_diff)
  also have "\<dots> \<le> x / 2 ^ 53" using ilog2_range(1)[OF x] by (intro divide_right_mono) auto
  finally show ?thesis .
qed

lemma dbl_nonneg: "0 \<le> x \<Longrightarrow> 0 \<le> dbl x"
proof (cases "x = 0")
  case False
  assume "0 \<le> x"
  then have x: "0 < x" using False by simp
  let ?e = "max (ilog2 x - 52) (-1074)"
  have "round_even 0 \<le> round_even (x / 2 powi ?e)" using x by (intro round_even_mono) simp
  then have "0 \<le> round_even (x / 2 powi ?e)" using round_even_int[of 0] by simp
  then show ?thesis unfolding dbl_pos_form[OF x refl] by simp
qed simp


text \<open>Rounding does not move a multiple of the unit, hence no integer below \<open>2 ^ 53\<close>.\<close>

lemma powi_int: "0 \<le> k \<Longrightarrow> (2 powi k :: rat) = of_int (2 ^ nat k)"
  by (simp add: power_int_def)

lemma round_even_powi: "0 \<le> k \<Longrightarrow> of_int (round_even (2 powi k)) = (2 powi k :: rat)"
  by (simp only: powi_int round_even_int)

lemma ilog2_less: "0 < x \<Longrightarrow> x < 2 powi k \<Longrightarrow> ilog2 x < k"
proof (rule ccontr)
  assume a: "0 < x" "x < 2 powi k" "\<not> ilog2 x < k"
  then have "(2 powi k :: rat) \<le> 2 powi ilog2 x" by (intro power_int_increasing) auto
  then show False using ilog2_range(1)[OF a(1)] a(2) by simp
qed

lemma ilog2_ge: "0 < x \<Longrightarrow> 2 powi k \<le> x \<Longrightarrow> k \<le> ilog2 x"
proof (rule ccontr)
  assume a: "0 < x" "2 powi k \<le> x" "\<not> k \<le> ilog2 x"
  then have "(2 powi (ilog2 x + 1) :: rat) \<le> 2 powi k" by (intro power_int_increasing) auto
  then show False using ilog2_range(2)[OF a(1)] a(2) by simp
qed

lemma dbl_of_int:
  assumes "0 \<le> n" "n < 2 ^ 53"
  shows "dbl (of_int n) = of_int n"
proof (cases "n = 0")
  case False
  let ?x = "of_int n :: rat"
  have x: "0 < ?x" using assms(1) False by simp
  have "?x < 2 powi 53" using assms(2) by (simp add: power_int_def)
  then have u: "ilog2 ?x < 53" by (rule ilog2_less[OF x])
  have "(2 powi 0 :: rat) \<le> ?x" using assms(1) False by simp
  then have l: "0 \<le> ilog2 ?x" by (rule ilog2_ge[OF x])
  let ?e = "ilog2 ?x - 52"
  have e: "max ?e (-1074) = ?e" using l by simp
  have "?x / 2 powi ?e = of_int (n * 2 ^ nat (52 - ilog2 ?x))"
    using u powi_int[of "52 - ilog2 ?x"]
    by (simp add: power_int_minus[symmetric] divide_inverse power_int_inverse)
  then have "of_int (round_even (?x / 2 powi ?e)) = ?x / 2 powi ?e" by (simp only: round_even_int)
  then show ?thesis unfolding dbl_pos_form[OF x refl] e by simp
qed simp

lemma dbl_mono:
  assumes "0 \<le> x" "x \<le> y"
  shows "dbl x \<le> dbl y"
proof (cases "x = 0")
  case True
  then show ?thesis using assms dbl_nonneg[of y] by simp
next
  case False
  then have x: "0 < x" and y: "0 < y" using assms by auto
  define ex where "ex = max (ilog2 x - 52) (-1074)"
  define ey where "ey = max (ilog2 y - 52) (-1074)"
  have "ilog2 x \<le> ilog2 y" using ilog2_range(1)[OF x] assms(2) by (intro ilog2_ge[OF y]) simp
  then have le: "ex \<le> ey" by (simp add: ex_def ey_def)
  note X = dbl_pos_form[OF x ex_def] and Y = dbl_pos_form[OF y ey_def]
  show ?thesis
  proof (cases "ex = ey")
    case True
    have "round_even (x / 2 powi ey) \<le> round_even (y / 2 powi ey)"
      using assms(2) by (intro round_even_mono divide_right_mono) simp_all
    then show ?thesis unfolding X Y True by (intro mult_right_mono) simp_all
  next
    case False
    then have i: "ey = ilog2 y - 52" "ex < ey" "ilog2 x < ilog2 y" using le by (auto simp: ex_def ey_def)
    let ?m = "2 powi ilog2 y :: rat"
    have "x \<le> ?m"
      using ilog2_range(2)[OF x] i(3) power_int_increasing[of "ilog2 x + 1" "ilog2 y" "2 :: rat"] by linarith
    then have "round_even (x / 2 powi ex) \<le> round_even (?m / 2 powi ex)"
      by (intro round_even_mono divide_right_mono) simp_all
    also have "?m / 2 powi ex = 2 powi (ilog2 y - ex)" by (simp add: power_int_diff)
    finally have "of_int (round_even (x / 2 powi ex)) \<le> (2 powi (ilog2 y - ex) :: rat)"
      using i round_even_powi[of "ilog2 y - ex"] by (metis diff_ge_0_iff_ge less_imp_le of_int_le_iff order_trans
          diff_le_eq le_add_same_cancel1 zero_le_numeral)
    then have a: "dbl x \<le> ?m"
      unfolding X by (simp add: power_int_diff pos_le_divide_eq)
    have "round_even (?m / 2 powi ey) \<le> round_even (y / 2 powi ey)"
      using ilog2_range(1)[OF y] by (intro round_even_mono divide_right_mono) simp_all
    moreover have "?m / 2 powi ey = 2 powi 52" using i by (simp add: power_int_diff)
    ultimately have "(2 powi 52 :: rat) \<le> of_int (round_even (y / 2 powi ey))"
      using round_even_powi[of 52] by (metis of_int_le_iff zero_le_numeral)
    then have "2 powi 52 * 2 powi ey \<le> dbl y" unfolding Y by (intro mult_right_mono) simp_all
    moreover have "2 powi 52 * 2 powi ey = ?m" using i by (simp add: power_int_diff)
    ultimately show ?thesis using a by simp
  qed
qed

lemma dbl_nonpos: "x \<le> 0 \<Longrightarrow> dbl x \<le> 0"
proof (cases "x = 0")
  case False
  assume "x \<le> 0"
  let ?e = "max (ilog2 \<bar>x\<bar> - 52) (-1074)"
  have "round_even (x / 2 powi ?e) \<le> round_even 0"
    using \<open>x \<le> 0\<close> by (intro round_even_mono) (simp add: divide_nonpos_nonneg)
  then have "round_even (x / 2 powi ?e) \<le> 0" using round_even_int[of 0] by simp
  then show ?thesis using False by (simp add: dbl_def Let_def mult_nonpos_nonneg)
qed simp

text \<open>A double is its own rounding.\<close>

lemma dbl_multiple:
  assumes "0 < y" "e = max (ilog2 y - 52) (-1074)" "y = of_int k * 2 powi e"
  shows "dbl y = y"
proof -
  have "y / 2 powi e = of_int k" by (simp add: assms(3))
  then show ?thesis using dbl_pos_form[OF assms(1,2)] assms(3) by simp
qed

lemma dbl_idem:
  assumes "0 \<le> x"
  shows "dbl (dbl x) = dbl x"
proof (cases "dbl x = 0")
  case False
  then have x: "0 < x" and y: "0 < dbl x" using assms dbl_nonneg[of x] by (cases "x = 0"; auto)+
  define e where "e = max (ilog2 x - 52) (-1074)"
  define m where "m = round_even (x / 2 powi e)"
  define ey where "ey = max (ilog2 (dbl x) - 52) (-1074)"
  have d: "dbl x = of_int m * 2 powi e" unfolding m_def by (rule dbl_pos_form[OF x e_def])
  have "x \<le> 2 powi (53 + e)"
  proof -
    have "x < 2 powi (ilog2 x + 1)" by (rule ilog2_range[OF x])
    also have "\<dots> \<le> 2 powi (53 + e)" by (intro power_int_increasing) (auto simp: e_def)
    finally show ?thesis by simp
  qed
  then have "x / 2 powi e \<le> of_int (2 ^ 53)" by (simp add: power_int_add pos_divide_le_eq mult.commute)
  then have m: "m \<le> 2 ^ 53" unfolding m_def by (metis round_even_int round_even_mono)
  have "dbl x \<le> of_int (2 ^ 53) * 2 powi e" unfolding d using m by (intro mult_right_mono) (simp_all only: of_int_le_iff, simp)
  then have le: "dbl x \<le> 2 powi (53 + e)" by (simp add: power_int_add)
  have "ilog2 (dbl x) \<le> 53 + e"
    using le power_int_strict_increasing[of "53 + e" "54 + e" "2 :: rat"] ilog2_less[OF y, of "54 + e"] by simp
  moreover have "-1074 \<le> e" by (simp add: e_def)
  ultimately have ey: "ey \<le> e \<or> ey = e + 1 \<and> ilog2 (dbl x) = 53 + e" unfolding ey_def by linarith
  show ?thesis
  proof (cases "ey \<le> e")
    case True
    have "(2 powi e :: rat) = of_int (2 ^ nat (e - ey)) * 2 powi ey"
      using True powi_int[of "e - ey"] by (simp add: power_int_diff nonzero_divide_eq_eq)
    then show ?thesis using d by (intro dbl_multiple[OF y ey_def, of "m * 2 ^ nat (e - ey)"]) simp
  next
    case False
    then have ey1: "ey = e + 1" and i: "ilog2 (dbl x) = 53 + e" using ey by auto
    have "dbl x = 2 powi (53 + e)" using ilog2_range(1)[OF y] le i by simp
    then have "dbl x = of_int (2 ^ 52) * 2 powi ey" unfolding ey1 by (simp add: power_int_add)
    then show ?thesis by (rule dbl_multiple[OF y ey_def])
  qed
qed simp

end
