(* ===== verification/Fees.thy ===== *)
theory Fees
  imports Tx Doubles UtxoSelect
begin

text \<open>
  Fee arithmetic of \<^verbatim>\<open>src/chainSources/bsv_fees.c\<close> and size estimation and change
  settlement of \<^verbatim>\<open>src/bsv/tx_change.c\<close>. The floating-point expressions are kept in their
  order, each operation rounded by \<open>dbl\<close>; \<^verbatim>\<open>ceil\<close> of a double is exact. The signed
  64-bit quantities of the first file are integers, which is their value as long as nothing
  overflows; the properties bound them accordingly.
\<close>

section \<open>Fee windows\<close>

definition BONSAI_FEE_WINDOW_MULTIPLIER :: int where "BONSAI_FEE_WINDOW_MULTIPLIER = 3"
definition BONSAI_FEE_RECOMMENDED_FACTOR :: rat where "BONSAI_FEE_RECOMMENDED_FACTOR = dbl (13 / 10)"
definition BONSAI_FEE_DUST_FLOOR :: int where "BONSAI_FEE_DUST_FLOOR = 546"
definition BONSAI_FEE_PER_KB_DIVISOR :: int where "BONSAI_FEE_PER_KB_DIVISOR = 1000"

lemmas fee_consts = BONSAI_FEE_WINDOW_MULTIPLIER_def BONSAI_FEE_DUST_FLOOR_def BONSAI_FEE_PER_KB_DIVISOR_def

record fee_window_t =
  fw_min :: int
  fw_max :: int
  fw_recommended :: int

definition fee_for_size :: "int \<Rightarrow> int \<Rightarrow> int res" where
  "fee_for_size size_bytes fee_per_kb =
     (if size_bytes < 0 \<or> fee_per_kb < 0 then Inl BNS_EINVAL
      else Inr \<lceil>dbl (dbl (dbl (of_int size_bytes) / dbl (of_int BONSAI_FEE_PER_KB_DIVISOR)) * dbl (of_int fee_per_kb))\<rceil>)"

definition send_time_fee_window :: "int \<Rightarrow> int \<Rightarrow> fee_window_t res" where
  "send_time_fee_window signed_size_bytes fee_per_kb =
     res_bind (fee_for_size signed_size_bytes fee_per_kb) (\<lambda>min_fee.
     let max_fee = min_fee * BONSAI_FEE_WINDOW_MULTIPLIER;
         bumped = \<lceil>dbl (dbl (of_int min_fee) * BONSAI_FEE_RECOMMENDED_FACTOR)\<rceil>;
         lower = (if min_fee > bumped then min_fee else bumped);
         recommended = (if lower < max_fee then lower else max_fee) in
     Inr \<lparr>fw_min = min_fee, fw_max = max_fee, fw_recommended = recommended\<rparr>)"

definition is_fee_in_send_window :: "int \<Rightarrow> int \<Rightarrow> int \<Rightarrow> bool res" where
  "is_fee_in_send_window fee signed_size_bytes fee_per_kb =
     res_bind (send_time_fee_window signed_size_bytes fee_per_kb) (\<lambda>w.
     Inr (fee \<ge> fw_min w \<and> fee \<le> fw_max w))"

definition needs_fee_bump :: "int \<Rightarrow> int \<Rightarrow> bool" where
  "needs_fee_bump parent_feerate flr \<longleftrightarrow> parent_feerate < flr"

definition cpfp_child_fee :: "int \<Rightarrow> int \<Rightarrow> int \<Rightarrow> int \<Rightarrow> int res" where
  "cpfp_child_fee parent_bytes parent_fee_paid child_bytes target_feerate =
     (if parent_bytes < 0 \<or> child_bytes < 0 \<or> target_feerate < 0 then Inl BNS_EINVAL
      else
        let want_total = \<lceil>dbl (dbl (dbl (of_int (parent_bytes + child_bytes)) * dbl (of_int target_feerate))
                            / dbl (of_int BONSAI_FEE_PER_KB_DIVISOR))\<rceil>;
            child = want_total - parent_fee_paid in
        Inr (if child < BONSAI_FEE_DUST_FLOOR then BONSAI_FEE_DUST_FLOOR else child))"

section \<open>Transaction size and change\<close>

definition BONSAI_DUST_AMOUNT :: u64 where "BONSAI_DUST_AMOUNT = 1"

definition input_size :: "bsv_txin_t \<Rightarrow> nat" where
  "input_size i = 32 + 4 + length (write_varint (of_nat (length (script_sig i)))) + length (script_sig i) + 4"

definition output_size :: "bsv_txout_t \<Rightarrow> nat" where
  "output_size o' = 8 + length (write_varint (of_nat (length (script o')))) + length (script o')"

definition estimate_size :: "bsv_tx_t \<Rightarrow> nat" where
  "estimate_size tx = 8 + length (write_varint (of_nat (length (inputs tx))))
     + length (write_varint (of_nat (length (outputs tx))))
     + sum_list (map input_size (inputs tx)) + sum_list (map output_size (outputs tx))"

definition tx_fee_for_size :: "nat \<Rightarrow> u64 \<Rightarrow> u64" where
  "tx_fee_for_size size_bytes fee_per_kb =
     (let f = \<lceil>dbl (dbl (dbl (of_nat size_bytes) / 1000) * dbl (of_nat (unat fee_per_kb)))\<rceil> in
      word_of_int (if f < 0 then 0 else f))"

record tx_fee_window_t =
  signed_bytes :: nat
  fee_per_kb :: u64
  tw_min :: u64
  tw_max :: u64
  tw_recommended :: u64

definition sendtime_fee_window :: "nat \<Rightarrow> u64 \<Rightarrow> tx_fee_window_t" where
  "sendtime_fee_window sb rate =
     (let mn = tx_fee_for_size sb rate; mx = mn * 3;
          rec_d = \<lceil>dbl (dbl (of_nat (unat mn)) * dbl (13 / 10))\<rceil>;
          rec = (if of_int rec_d < dbl (of_nat (unat mn)) then mn else word_of_int rec_d);
          rec' = (if rec > mx then mx else rec) in
      \<lparr>signed_bytes = sb, fee_per_kb = rate, tw_min = mn, tw_max = mx, tw_recommended = rec'\<rparr>)"

text \<open>The loop over the outputs other than the change output; \<open>i\<close> is the loop index.\<close>

fun out_sum_loop :: "nat \<Rightarrow> nat \<Rightarrow> bsv_txout_t list \<Rightarrow> u64 \<Rightarrow> u64 res" where
  "out_sum_loop change_index i [] out_sum = Inr out_sum"
| "out_sum_loop change_index i (o' # os) out_sum =
     (if i = change_index then out_sum_loop change_index (i + 1) os out_sum
      else
        let s = satoshis o' in
        if s > BONSAI_MAX_MONEY \<or> s > BONSAI_MAX_MONEY - out_sum then Inl BNS_ERANGE
        else out_sum_loop change_index (i + 1) os (out_sum + s))"

text \<open>The transaction is updated in place: the result code with the transaction as it is left.\<close>

definition update_change_output :: "bsv_tx_t \<Rightarrow> nat \<Rightarrow> u64 \<Rightarrow> bonsai_err_t \<times> bsv_tx_t" where
  "update_change_output tx change_index rate =
     (if change_index \<ge> length (outputs tx) then (BNS_EINVAL, tx)
      else
        let total_in = satoshis (outputs tx ! change_index) in
        if total_in > BONSAI_MAX_MONEY then (BNS_ERANGE, tx)
        else case out_sum_loop change_index 0 (outputs tx) 0 of
            Inl e \<Rightarrow> (e, tx)
          | Inr out_sum \<Rightarrow>
              if out_sum > total_in then (BNS_ERANGE, tx)
              else
                let available = total_in - out_sum; sz = estimate_size tx;
                    fee = tx_fee_for_size sz rate in
                if available < fee then (BNS_ERANGE, tx)
                else
                  let change_amount = available - fee in
                  if change_amount \<ge> BONSAI_DUST_AMOUNT then
                    (BNS_OK, tx\<lparr>outputs := (outputs tx)[change_index := (outputs tx ! change_index)\<lparr>satoshis := change_amount\<rparr>]\<rparr>)
                  else
                    (BNS_OK, tx\<lparr>outputs := take change_index (outputs tx) @ drop (change_index + 1) (outputs tx)\<rparr>))"

section \<open>How far the floating-point fee is from the exact one\<close>

lemma tiny: "(2 powi (-1022) :: rat) \<le> 1 / 2000"
proof -
  have "(2 powi (-1022) :: rat) \<le> 2 powi (-11)" by (intro power_int_increasing) auto
  also have "\<dots> \<le> 1 / 2000" by (simp add: power_int_def power_one_over)
  finally show ?thesis .
qed

text \<open>A value within a thousandth of \<open>m / 1000\<close> has nearly the same ceiling.\<close>

lemma ceiling_near:
  fixes b :: rat
  assumes "\<bar>b - of_int m / 1000\<bar> < 1 / 1000"
  shows "m \<le> 1000 * \<lceil>b\<rceil>" and "1000 * \<lceil>b\<rceil> < m + 2000" and "\<not> 1000 dvd m \<Longrightarrow> 1000 * \<lceil>b\<rceil> < m + 1000"
proof -
  have b: "of_int m - 1 < 1000 * b" "1000 * b < of_int m + 1"
    using assms by (auto simp: abs_less_iff field_simps)
  have c: "b \<le> of_int \<lceil>b\<rceil>" "of_int \<lceil>b\<rceil> < b + 1" by linarith+
  have "(of_int (m - 1) :: rat) < of_int (1000 * \<lceil>b\<rceil>)" unfolding of_int_diff of_int_mult of_int_1 of_int_numeral using b(1) c(1) by linarith
  then have 1: "m - 1 < 1000 * \<lceil>b\<rceil>" by (simp only: of_int_less_iff)
  have "(of_int (1000 * \<lceil>b\<rceil>) :: rat) < of_int (m + 1001)" unfolding of_int_add of_int_mult of_int_numeral using b(2) c(2) by linarith
  then have 2: "1000 * \<lceil>b\<rceil> < m + 1001" by (simp only: of_int_less_iff)
  show "m \<le> 1000 * \<lceil>b\<rceil>" "1000 * \<lceil>b\<rceil> < m + 2000" using 1 2 by linarith+
  show "1000 * \<lceil>b\<rceil> < m + 1000" if "\<not> 1000 dvd m"
  proof (rule ccontr)
    assume "\<not> 1000 * \<lceil>b\<rceil> < m + 1000"
    then have "m = 1000 * \<lceil>b\<rceil> - 1000" using 2 by linarith
    then have "m = 1000 * (\<lceil>b\<rceil> - 1)" by simp
    then show False using that by simp
  qed
qed

definition FEE_LIMIT :: int where
  "FEE_LIMIT = 2 ^ 41 * 1000"

lemma divide_first_near:
  assumes s: "0 < s" "0 < k" "s * k \<le> FEE_LIMIT"
  shows "\<bar>dbl (dbl (of_int s / 1000) * of_int k) - of_int (s * k) / 1000\<bar> < 1 / 1000"
proof -
  define x where "x = (of_int s / 1000 :: rat)"
  define X where "X = x * of_int k"
  define u where "u = (1 / 2 ^ 53 :: rat)"
  have u: "0 < u" "u \<le> 1 / 2" "x / 2 ^ 53 = x * u" for x by (simp_all add: u_def)
  have k1: "(1 :: rat) \<le> of_int k" using s(2) by simp
  have x: "1 / 1000 \<le> x" "0 < x" using s(1) by (simp_all add: x_def)
  have X: "0 < X" "X \<le> 2 ^ 41"
  proof -
    show "0 < X" using x k1 by (simp add: X_def)
    have "(of_int (s * k) :: rat) \<le> of_int (2 ^ 41 * 1000)" using s(3) by (simp only: of_int_le_iff FEE_LIMIT_def)
    then show "X \<le> 2 ^ 41" by (simp add: X_def x_def)
  qed
  have a: "\<bar>dbl x - x\<bar> \<le> x * u" 
    unfolding u(3)[symmetric] by (rule dbl_err) (use tiny x in linarith)
  then have al: "x * (1 - u) \<le> dbl x" and au: "dbl x \<le> x * (1 + u)" by (auto simp: abs_le_iff algebra_simps)
  have ak: "\<bar>dbl x * of_int k - X\<bar> \<le> X * u"
  proof -
    have "\<bar>dbl x * of_int k - X\<bar> = \<bar>dbl x - x\<bar> * of_int k" using s(2) by (simp add: X_def left_diff_distrib[symmetric] abs_mult)
    also have "\<dots> \<le> x * u * of_int k" using a s(2) by (intro mult_right_mono) auto
    finally show ?thesis by (simp add: X_def algebra_simps)
  qed
  have "1 / 1000 * (1 / 2) \<le> x * (1 - u)" using x u by (intro mult_mono) auto
  then have l: "1 / 2000 \<le> dbl x * of_int k" using al k1 mult_mono[of "1 / 2000" "dbl x" 1 "of_int k"] by simp
  then have "\<bar>dbl (dbl x * of_int k) - dbl x * of_int k\<bar> \<le> dbl x * of_int k * u"
    unfolding u(3)[symmetric] by (intro dbl_err) (use tiny l in linarith)
  also have "\<dots> \<le> X * (1 + u) * u"
    using ak u(1) by (intro mult_right_mono) (auto simp: abs_le_iff algebra_simps)
  finally have "\<bar>dbl (dbl x * of_int k) - X\<bar> \<le> X * (1 + u) * u + X * u" using ak by linarith
  also have "\<dots> = X * ((1 + u) * u + u)" by (simp add: algebra_simps)
  also have "\<dots> \<le> 2 ^ 41 * ((1 + u) * u + u)" using X u(1) by (intro mult_right_mono) auto
  also have "\<dots> < 1 / 1000" by (simp add: u_def)
  finally show ?thesis by (simp add: X_def x_def)
qed

lemma dbl_1000 [simp]: "dbl 1000 = 1000"
  using dbl_of_int[of 1000] by simp

lemma fee_ceiling:
  assumes "0 \<le> s" "0 \<le> k" "s < 2 ^ 53" "k < 2 ^ 53" "s * k \<le> FEE_LIMIT"
  defines "f \<equiv> \<lceil>dbl (dbl (dbl (of_int s) / 1000) * dbl (of_int k))\<rceil>"
  shows "s * k \<le> 1000 * f" and "1000 * f < s * k + 2000" and "\<not> 1000 dvd s * k \<Longrightarrow> 1000 * f < s * k + 1000"
    and "0 \<le> f"
proof -
  have f: "f = \<lceil>dbl (dbl (of_int s / 1000) * of_int k)\<rceil>"
    unfolding f_def by (simp only: dbl_of_int[OF assms(1,3)] dbl_of_int[OF assms(2,4)])
  show f0: "0 \<le> f" unfolding f
    by (intro order_trans[OF _ ceiling_mono[OF dbl_nonneg]]) (auto intro!: mult_nonneg_nonneg dbl_nonneg assms)
  show "s * k \<le> 1000 * f" "1000 * f < s * k + 2000" "\<not> 1000 dvd s * k \<Longrightarrow> 1000 * f < s * k + 1000"
  proof -
    consider "s = 0 \<or> k = 0" | "0 < s" "0 < k" using assms(1,2) by linarith
    then have "s * k \<le> 1000 * f \<and> 1000 * f < s * k + 2000 \<and> (\<not> 1000 dvd s * k \<longrightarrow> 1000 * f < s * k + 1000)"
    proof cases
      case 1
      then show ?thesis by (auto simp: f)
    next
      case 2
      from ceiling_near[OF divide_first_near[OF 2 assms(5)]] show ?thesis unfolding f by blast
    qed
    then show "s * k \<le> 1000 * f" "1000 * f < s * k + 2000" "\<not> 1000 dvd s * k \<Longrightarrow> 1000 * f < s * k + 1000"
      by blast+
  qed
qed

lemma fee_for_size_bounds:
  assumes "0 \<le> s" "0 \<le> k" "s < 2 ^ 53" "k < 2 ^ 53" "s * k \<le> FEE_LIMIT"
  obtains f where "fee_for_size s k = Inr f" "s * k \<le> 1000 * f" "1000 * f < s * k + 2000"
    "\<not> 1000 dvd s * k \<Longrightarrow> 1000 * f < s * k + 1000" "0 \<le> f"
  by (rule that[OF _ fee_ceiling[OF assms]]) (use assms(1,2) in \<open>simp_all add: fee_for_size_def fee_consts\<close>)

text \<open>The multiply-first order is exact: the product is an integer below \<open>2 ^ 53\<close>.\<close>

lemma multiply_first_ceiling:
  assumes "0 \<le> m" "m \<le> FEE_LIMIT"
  shows "m \<le> 1000 * \<lceil>dbl (of_int m / 1000)\<rceil>" and "1000 * \<lceil>dbl (of_int m / 1000)\<rceil> < m + 1000"
proof -
  let ?f = "\<lceil>dbl (of_int m / 1000)\<rceil>"
  have "m \<le> 1000 * ?f \<and> 1000 * ?f < m + 1000"
  proof (cases "1000 dvd m")
    case True
    then obtain q where q: "m = 1000 * q" by (elim dvdE)
    have "dbl (of_int q) = of_int q" using assms unfolding q FEE_LIMIT_def by (intro dbl_of_int) auto
    then show ?thesis by (simp add: q)
  next
    case False
    then have m: "0 < m" using assms(1) by (cases "m = 0") auto
    let ?x = "of_int m / 1000 :: rat"
    have x: "1 / 2000 \<le> ?x" using m by simp
    have "(of_int m :: rat) \<le> of_int (2 ^ 41 * 1000)" using assms(2) by (simp only: of_int_le_iff FEE_LIMIT_def)
    then have X: "?x \<le> 2 ^ 41" by simp
    have "\<bar>dbl ?x - ?x\<bar> \<le> ?x / 2 ^ 53" by (rule dbl_err) (use tiny x in linarith)
    also have "\<dots> \<le> 2 ^ 41 / 2 ^ 53" by (rule divide_right_mono[OF X]) simp
    also have "\<dots> < 1 / 1000" by simp
    finally show ?thesis using ceiling_near[of "dbl ?x" m] False by blast
  qed
  then show "m \<le> 1000 * ?f" "1000 * ?f < m + 1000" by blast+
qed

text \<open>
  C35. The fee for a size never underpays: for rates and sizes whose exact fee is at most
  \<open>2 ^ 41\<close> satoshis it is the exact fee rounded up, or one more, the latter only where the
  exact fee is a whole number, although the quotient and the product are rounded to doubles.
  The recommended fee lies in the window and is accepted, and the window accepts exactly the
  fees from that minimum to three times it.
\<close>

theorem send_time_fee_window_correct:
  assumes "0 \<le> s" "0 \<le> k" "s < 2 ^ 53" "k < 2 ^ 53" "s * k \<le> FEE_LIMIT"
  shows "\<exists>f w. fee_for_size s k = Inr f \<and> s * k \<le> 1000 * f \<and> 1000 * f < s * k + 2000 \<and>
    (1000 dvd s * k \<or> 1000 * f < s * k + 1000) \<and>
    send_time_fee_window s k = Inr w \<and> fw_min w = f \<and> fw_max w = 3 * f \<and>
    f \<le> fw_recommended w \<and> fw_recommended w \<le> 3 * f \<and>
    is_fee_in_send_window x s k = Inr (f \<le> x \<and> x \<le> 3 * f)"
proof -
  obtain f where f: "fee_for_size s k = Inr f" "s * k \<le> 1000 * f" "1000 * f < s * k + 2000"
    "\<not> 1000 dvd s * k \<Longrightarrow> 1000 * f < s * k + 1000" "0 \<le> f"
    using fee_for_size_bounds[OF assms] by blast
  then show ?thesis
    by (auto simp: send_time_fee_window_def is_fee_in_send_window_def fee_consts Let_def)
qed

text \<open>Seventy bytes at 100 satoshis per kilobyte cost 7 satoshis exactly, but 8 here.\<close>

theorem send_time_fee_window_correct_witness:
  "fee_for_size 70 100 = Inr 8 \<and> is_fee_in_send_window 24 70 100 = Inr True"
proof -
  have e: "fee_for_size 70 100 = Inr 8" by code_simp
  show ?thesis using send_time_fee_window_correct[of 70 100 24] e by (auto simp: FEE_LIMIT_def)
qed

text \<open>
  A child transaction priced by \<^verbatim>\<open>cpfp_child_fee\<close> lifts the package of parent and child
  to the target rate: together they pay at least the exact fee of their joint size, and less
  than one satoshi more unless the child sits at the dust floor, below which it never goes.
\<close>

theorem cpfp_child_fee_reaches_target:
  assumes "0 \<le> p" "0 \<le> c" "0 \<le> t" "p + c < 2 ^ 53" "t < 2 ^ 53" "(p + c) * t \<le> FEE_LIMIT"
  shows "\<exists>f. cpfp_child_fee p paid c t = Inr f \<and> (p + c) * t \<le> 1000 * (paid + f) \<and> 546 \<le> f \<and>
    (f = 546 \<or> 1000 * (paid + f) < (p + c) * t + 1000)"
proof -
  have d: "dbl (of_int (p + c)) = of_int (p + c)" "dbl (of_int t) = of_int t"
    using assms by (intro dbl_of_int; simp)+
  have n: "0 \<le> (p + c) * t" using assms by simp
  have "dbl (of_int ((p + c) * t)) = of_int ((p + c) * t)"
    using n assms(6) unfolding FEE_LIMIT_def by (intro dbl_of_int) auto
  then have "cpfp_child_fee p paid c t =
      (let w = \<lceil>dbl (of_int ((p + c) * t) / 1000)\<rceil>; ch = w - paid in Inr (if ch < 546 then 546 else ch))"
    using assms(1-3) d by (simp add: cpfp_child_fee_def fee_consts Let_def)
  then show ?thesis using multiply_first_ceiling[OF n assms(6)] by (auto simp: Let_def)
qed

theorem cpfp_child_fee_reaches_target_witness:
  "\<exists>f. cpfp_child_fee 250 5 200 50000 = Inr f \<and> 22500000 \<le> 1000 * (5 + f) \<and> 546 \<le> f"
  using cpfp_child_fee_reaches_target[of 250 200 50000 5] by (auto simp: FEE_LIMIT_def)

section \<open>Estimated and serialized size\<close>

lemma enc_n_length:
  "enc_n enc xs = Inr bs \<Longrightarrow> (\<And>x b. enc x = Inr b \<Longrightarrow> length b = f x) \<Longrightarrow> length bs = sum_list (map f xs)"
  by (induction xs arbitrary: bs) (auto simp: res_bind_Inr_iff)

lemma write_txin_length: "write_txin i = Inr b \<Longrightarrow> length b = input_size i"
  by (erule write_txin_InrD) (simp add: input_size_def write_script_def)

lemma write_txout_length: "length (write_txout o') = output_size o'"
  by (simp add: write_txout_def output_size_def write_script_def)

text \<open>The estimate is the length of the serialization.\<close>

lemma estimate_size_exact: "tx_serialize tx = Inr bs \<Longrightarrow> estimate_size tx = length bs"
proof -
  assume "tx_serialize tx = Inr bs"
  then obtain ins outs where io: "enc_n write_txin (inputs tx) = Inr ins"
      "enc_n (\<lambda>o'. Inr (write_txout o')) (outputs tx) = Inr outs"
    and bs: "bs = append_u32_le (version tx) @ write_varint (of_nat (length (inputs tx))) @ ins
        @ write_varint (of_nat (length (outputs tx))) @ outs @ append_u32_le (locktime tx)"
    by (auto simp: tx_serialize_def res_bind_Inr_iff)
  have "length ins = sum_list (map input_size (inputs tx))"
    by (rule enc_n_length[OF io(1)]) (rule write_txin_length)
  moreover have "length outs = sum_list (map output_size (outputs tx))"
    by (rule enc_n_length[OF io(2)]) (auto simp: write_txout_length)
  ultimately show ?thesis by (simp add: estimate_size_def bs)
qed

section \<open>Settling the change\<close>

definition sats :: "bsv_txout_t list \<Rightarrow> nat" where
  "sats os = sum_list (map (\<lambda>o'. unat (satoshis o')) os)"

definition without :: "nat \<Rightarrow> 'a list \<Rightarrow> 'a list" where
  "without i xs = take i xs @ drop (i + 1) xs"

lemma without_Cons: "without i (x # xs) = (if i = 0 then xs else x # without (i - 1) xs)"
  by (cases i) (simp_all add: without_def)

lemma sats_simps [simp]: "sats [] = 0" "sats (x # xs) = unat (satoshis x) + sats xs" "sats (xs @ ys) = sats xs + sats ys"
  by (simp_all add: sats_def)

lemma sats_update: "i < length os \<Longrightarrow> sats (os[i := x]) = sats (without i os) + unat (satoshis x)"
  by (simp add: upd_conv_take_nth_drop without_def)

text \<open>One guarded addition below the money supply.\<close>

lemma money_step:
  assumes "unat acc \<le> unat BONSAI_MAX_MONEY"
  shows "s > BONSAI_MAX_MONEY \<or> s > BONSAI_MAX_MONEY - acc \<longleftrightarrow> \<not> unat acc + unat s \<le> unat BONSAI_MAX_MONEY"
    and "unat acc + unat s \<le> unat BONSAI_MAX_MONEY \<Longrightarrow> unat (acc + s) = unat acc + unat s"
proof -
  have "unat (BONSAI_MAX_MONEY - acc) = unat BONSAI_MAX_MONEY - unat acc"
    using assms by (simp add: unat_sub word_le_nat_alt)
  then show "s > BONSAI_MAX_MONEY \<or> s > BONSAI_MAX_MONEY - acc \<longleftrightarrow> \<not> unat acc + unat s \<le> unat BONSAI_MAX_MONEY"
    unfolding word_less_nat_alt using assms by linarith
  show "unat (acc + s) = unat acc + unat s" if "unat acc + unat s \<le> unat BONSAI_MAX_MONEY"
    using that by (intro unat_add_lem[THEN iffD1]) (simp add: max_money_value)
qed

lemma out_sum_loop_after:
  assumes "unat acc \<le> unat BONSAI_MAX_MONEY" "c < i"
  shows "out_sum_loop c i os acc =
    (if unat acc + sats os \<le> unat BONSAI_MAX_MONEY then Inr (of_nat (unat acc + sats os)) else Inl BNS_ERANGE)"
  using assms
proof (induction os arbitrary: i acc)
  case (Cons y os)
  note m = money_step[OF Cons.prems(1), of "satoshis y"]
  then show ?case using Cons.IH[of "acc + satoshis y" "i + 1"] Cons.prems(2)
    by (cases "unat acc + unat (satoshis y) \<le> unat BONSAI_MAX_MONEY") (simp_all add: Let_def add.assoc)
qed simp

lemma out_sum_loop_spec:
  assumes "unat acc \<le> unat BONSAI_MAX_MONEY"
  shows "out_sum_loop (i + c) i os acc =
    (if unat acc + sats (without c os) \<le> unat BONSAI_MAX_MONEY
     then Inr (of_nat (unat acc + sats (without c os))) else Inl BNS_ERANGE)"
  using assms
proof (induction os arbitrary: i c acc)
  case (Cons x os)
  note m = money_step[OF Cons.prems, of "satoshis x"]
  show ?case
  proof (cases c)
    case 0
    then show ?thesis using out_sum_loop_after[of acc i "i + 1" os] Cons.prems by (simp add: without_Cons)
  next
    case (Suc d)
    then show ?thesis using m Cons.IH[of "acc + satoshis x" "i + 1" d]
      by (cases "unat acc + unat (satoshis x) \<le> unat BONSAI_MAX_MONEY")
        (simp_all add: Let_def without_Cons add.assoc)
  qed
qed (simp add: without_def)

lemma tx_fee_bounds:
  assumes "n < 2 ^ 53" "unat rate < 2 ^ 53" "int n * int (unat rate) \<le> FEE_LIMIT"
  shows "n * unat rate \<le> 1000 * unat (tx_fee_for_size n rate)"
    and "1000 * unat (tx_fee_for_size n rate) < n * unat rate + 2000"
proof -
  define f where "f = \<lceil>dbl (dbl (dbl (of_nat n) / 1000) * dbl (of_nat (unat rate)))\<rceil>"
  have f: "f = \<lceil>dbl (dbl (dbl (of_int (int n)) / 1000) * dbl (of_int (int (unat rate))))\<rceil>"
    unfolding f_def by (simp only: of_int_of_nat_eq)
  have lt: "int n < 2 ^ 53" "int (unat rate) < 2 ^ 53" using assms(1,2) by (simp_all del: of_nat_unat)
  have "int n * int (unat rate) \<le> 1000 * f" "1000 * f < int n * int (unat rate) + 2000" "0 \<le> f"
    unfolding f using fee_ceiling[of "int n" "int (unat rate)", OF _ _ lt assms(3)]
    by (simp_all del: of_nat_unat)
  moreover have "f < 2 ^ 64"
  proof -
    have "FEE_LIMIT = 2199023255552000" by (simp add: FEE_LIMIT_def)
    then have "1000 * f < 2199023255552000 + 2000" using calculation(2) assms(3) by linarith
    then show ?thesis by simp
  qed
  moreover have "tx_fee_for_size n rate = word_of_int f"
    using \<open>0 \<le> f\<close> unfolding tx_fee_for_size_def Let_def f_def[symmetric] by simp
  ultimately have u: "int (unat (tx_fee_for_size n rate)) = f" "int n * int (unat rate) \<le> 1000 * f"
      "1000 * f < int n * int (unat rate) + 2000"
    by (simp_all add: uint_word_of_int)
  then have "int (n * unat rate) \<le> int (1000 * unat (tx_fee_for_size n rate))"
    "int (1000 * unat (tx_fee_for_size n rate)) < int (n * unat rate + 2000)"
    by (simp_all del: of_nat_unat)
  then show "n * unat rate \<le> 1000 * unat (tx_fee_for_size n rate)"
    "1000 * unat (tx_fee_for_size n rate) < n * unat rate + 2000"
    by (simp_all only: of_nat_le_iff of_nat_less_iff)
qed

lemma word_of_unat: "unat w = n \<Longrightarrow> w = of_nat n"
  by auto

lemma update_change_output_cases:
  fixes tx c rate
  defines "fee \<equiv> tx_fee_for_size (estimate_size tx) rate"
    and "tin \<equiv> satoshis (outputs tx ! c)"
  assumes c: "c < length (outputs tx)"
  shows "update_change_output tx c rate =
    (if unat tin \<le> unat BONSAI_MAX_MONEY \<and> sats (without c (outputs tx)) + unat fee \<le> unat tin
     then (BNS_OK, tx\<lparr>outputs := (let ch = of_nat (unat tin - sats (without c (outputs tx)) - unat fee) in
             if ch = 0 then without c (outputs tx)
             else (outputs tx)[c := (outputs tx ! c)\<lparr>satoshis := ch\<rparr>])\<rparr>)
     else (BNS_ERANGE, tx))"
proof -
  let ?S = "sats (without c (outputs tx))"
  have loop: "out_sum_loop c 0 (outputs tx) 0 =
      (if ?S \<le> unat BONSAI_MAX_MONEY then Inr (of_nat ?S) else Inl BNS_ERANGE)"
    using out_sum_loop_spec[of 0 0 c "outputs tx"] by simp
  show ?thesis
  proof (cases "unat tin \<le> unat BONSAI_MAX_MONEY \<and> ?S \<le> unat tin")
    case False
    have "update_change_output tx c rate = (BNS_ERANGE, tx)"
    proof (cases "unat tin \<le> unat BONSAI_MAX_MONEY \<and> ?S \<le> unat BONSAI_MAX_MONEY")
      case True
      then have "unat (of_nat ?S :: u64) = ?S" by (simp add: max_money_value)
      then have "of_nat ?S > tin" using False True by (simp add: word_less_nat_alt)
      then show ?thesis using True c loop by (simp add: update_change_output_def Let_def tin_def[symmetric])
    qed (use c loop in \<open>auto simp: update_change_output_def Let_def tin_def[symmetric] word_less_nat_alt\<close>)
    then show ?thesis using False by auto
  next
    case True
    then have S: "unat (of_nat ?S :: u64) = ?S" by (simp add: max_money_value)
    have ns: "\<not> of_nat ?S > tin" "\<not> tin > BONSAI_MAX_MONEY" using True S by (simp_all add: word_less_nat_alt)
    have av: "unat (tin - of_nat ?S) = unat tin - ?S" using True S by (simp add: unat_sub word_le_nat_alt)
    have u: "update_change_output tx c rate =
        (if tin - of_nat ?S < fee then (BNS_ERANGE, tx)
         else if tin - of_nat ?S - fee \<ge> 1 then (BNS_OK, tx\<lparr>outputs := (outputs tx)[c := (outputs tx ! c)\<lparr>satoshis := tin - of_nat ?S - fee\<rparr>]\<rparr>)
         else (BNS_OK, tx\<lparr>outputs := without c (outputs tx)\<rparr>))"
      using True c loop ns by (simp add: update_change_output_def Let_def tin_def[symmetric] fee_def[symmetric]
          BONSAI_DUST_AMOUNT_def without_def)
    show ?thesis
    proof (cases "?S + unat fee \<le> unat tin")
      case False
      then have "tin - of_nat ?S < fee" using True unfolding word_less_nat_alt av by linarith
      then show ?thesis using u False by simp
    next
      case le: True
      then have nf: "\<not> tin - of_nat ?S < fee" unfolding word_less_nat_alt av by linarith
      then have "unat (tin - of_nat ?S - fee) = unat tin - ?S - unat fee"
        using av by (simp add: unat_sub word_le_nat_alt not_less)
      then have ch: "tin - of_nat ?S - fee = of_nat (unat tin - ?S - unat fee)"
        by (rule word_of_unat)
      have one: "w \<ge> 1 \<longleftrightarrow> w \<noteq> 0" for w :: u64 by (simp add: word_le_nat_alt unat_gt_0 Suc_le_eq)
      show ?thesis using u nf le True unfolding ch one by (simp add: Let_def)
    qed
  qed
qed

text \<open>
  C28. Settling the change conserves money and pays the fee. When the slot is seeded with the
  total of the inputs, success leaves inputs, locking scripts and all other outputs as they
  were; what the outputs then do not pay out is the fee for the serialized size, at least the
  exact fee at the given rate and less than two satoshis above it; and a transaction that cannot
  afford it is refused with BNS_ERANGE and left untouched.
\<close>

theorem update_change_output_correct:
  assumes "c < length (outputs tx)" "tx_serialize tx = Inr raw" "length raw < 2 ^ 53" "unat rate < 2 ^ 53"
    and "int (length raw) * int (unat rate) \<le> FEE_LIMIT"
  shows "\<exists>fee. length raw * unat rate \<le> 1000 * fee \<and> 1000 * fee < length raw * unat rate + 2000 \<and>
    (case update_change_output tx c rate of (rc, tx') \<Rightarrow>
      (if unat (satoshis (outputs tx ! c)) \<le> 2100000000000000 \<and>
          sats (without c (outputs tx)) + fee \<le> unat (satoshis (outputs tx ! c))
       then rc = BNS_OK \<and> sats (outputs tx') + fee = unat (satoshis (outputs tx ! c)) \<and>
         inputs tx' = inputs tx \<and>
         (outputs tx' = without c (outputs tx) \<or>
          (\<exists>v. v \<noteq> 0 \<and> outputs tx' = (outputs tx)[c := (outputs tx ! c)\<lparr>satoshis := v\<rparr>]))
       else rc = BNS_ERANGE \<and> tx' = tx))"
proof -
  define fee where "fee = unat (tx_fee_for_size (estimate_size tx) rate)"
  let ?t = "unat (satoshis (outputs tx ! c))" and ?S = "sats (without c (outputs tx))"
  have e: "estimate_size tx = length raw" by (rule estimate_size_exact[OF assms(2)])
  have b: "length raw * unat rate \<le> 1000 * fee" "1000 * fee < length raw * unat rate + 2000"
    unfolding fee_def e by (rule tx_fee_bounds[OF assms(3-5)])+
  define ch where "ch = (of_nat (?t - ?S - fee) :: u64)"
  have u: "unat ch = ?t - ?S - fee"
    unfolding ch_def using unsigned_less[of "satoshis (outputs tx ! c)", where 'a = nat] by (intro unat_of_nat_len) simp
  have U: "update_change_output tx c rate =
      (if ?t \<le> 2100000000000000 \<and> ?S + fee \<le> ?t
       then (BNS_OK, tx\<lparr>outputs := (if ch = 0 then without c (outputs tx)
              else (outputs tx)[c := (outputs tx ! c)\<lparr>satoshis := ch\<rparr>])\<rparr>)
       else (BNS_ERANGE, tx))"
    unfolding update_change_output_cases[OF assms(1)] fee_def[symmetric] max_money_value Let_def ch_def[symmetric] ..
  have s: "sats ((outputs tx)[c := (outputs tx ! c)\<lparr>satoshis := ch\<rparr>]) = ?S + (?t - ?S - fee)"
    using u by (simp add: sats_update[OF assms(1)])
  have z: "ch = 0 \<Longrightarrow> ?t - ?S - fee = 0" using u by simp
  have "case update_change_output tx c rate of (rc, tx') \<Rightarrow>
      (if ?t \<le> 2100000000000000 \<and> ?S + fee \<le> ?t
       then rc = BNS_OK \<and> sats (outputs tx') + fee = ?t \<and> inputs tx' = inputs tx \<and>
         (outputs tx' = without c (outputs tx) \<or>
          (\<exists>v. v \<noteq> 0 \<and> outputs tx' = (outputs tx)[c := (outputs tx ! c)\<lparr>satoshis := v\<rparr>]))
       else rc = BNS_ERANGE \<and> tx' = tx)"
  proof (cases "?t \<le> 2100000000000000 \<and> ?S + fee \<le> ?t")
    case True
    show ?thesis
    proof (cases "ch = 0")
      case ch: True
      have "?S + fee = ?t" using z[OF ch] True by linarith
      then show ?thesis using U True ch by simp
    next
      case ch: False
      define tx' where "tx' = tx\<lparr>outputs := (outputs tx)[c := (outputs tx ! c)\<lparr>satoshis := ch\<rparr>]\<rparr>"
      have e: "update_change_output tx c rate = (BNS_OK, tx')" using U True ch by (simp add: tx'_def)
      have o: "outputs tx' = (outputs tx)[c := (outputs tx ! c)\<lparr>satoshis := ch\<rparr>]" "inputs tx' = inputs tx"
        by (simp_all add: tx'_def)
      have "sats (outputs tx') + fee = ?t" unfolding o s using True by linarith
      then show ?thesis unfolding e prod.case if_P[OF True]
        by (intro conjI disjI2 exI[of _ ch] refl o ch)
    qed
  qed (simp only: U if_False prod.case simp_thms)
  then show ?thesis by (intro exI[of _ fee] conjI b)
qed

definition change_tx :: bsv_tx_t where
  "change_tx = \<lparr>version = 1, inputs = [], outputs = [\<lparr>satoshis = 100, script = [0x51]\<rparr>, \<lparr>satoshis = 1000, script = []\<rparr>],
     locktime = 0\<rparr>"

theorem update_change_output_correct_witness:
  "fst (update_change_output change_tx 1 500) = BNS_OK \<and>
   (\<exists>fee. 29 * 500 \<le> 1000 * fee \<and> sats (outputs (snd (update_change_output change_tx 1 500))) + fee = 1000)"
proof -
  obtain raw where r: "tx_serialize change_tx = Inr raw"
    by (simp add: tx_serialize_def change_tx_def)
  have l: "length raw = 29" using estimate_size_exact[OF r] by (simp add: estimate_size_def change_tx_def output_size_def write_varint_def)
  have c: "1 < length (outputs change_tx)" "satoshis (outputs change_tx ! 1) = 1000" "sats (without 1 (outputs change_tx)) = 100"
    by (simp_all add: change_tx_def without_def)
  obtain fee where f: "29 * 500 \<le> 1000 * fee" "1000 * fee < 29 * 500 + 2000"
    and u: "case update_change_output change_tx 1 500 of (rc, tx') \<Rightarrow>
      (if 100 + fee \<le> 1000 then rc = BNS_OK \<and> sats (outputs tx') + fee = 1000 \<and> inputs tx' = inputs change_tx \<and>
         (outputs tx' = without 1 (outputs change_tx) \<or>
          (\<exists>v. v \<noteq> 0 \<and> outputs tx' = (outputs change_tx)[1 := (outputs change_tx ! 1)\<lparr>satoshis := v\<rparr>]))
       else rc = BNS_ERANGE \<and> tx' = change_tx)"
    using update_change_output_correct[OF c(1) r, of 500] unfolding l c(2,3) FEE_LIMIT_def by auto
  have "100 + fee \<le> 1000" using f(2) by simp
  then show ?thesis using f(1) u by (auto simp: case_prod_beta)
qed

end
