(* ===== verification/Indexer.thy ===== *)
theory Indexer
  imports Oracle Doubles
begin

text \<open>
  The reputation indexer, \<^verbatim>\<open>src/reputation_indexer.c\<close>: shred markers, the receipt reader, the
  forward walk over the spend index, the backward walk over previous outputs, and the decayed
  score. The library exponential is a parameter of the score.
\<close>

section \<open>Receipts and shred markers\<close>

record tea_receipt_t =
  rc_txid :: string
  rc_time :: int
  receipt_hash :: string
  valid :: bool
  erased :: bool

definition shred_marker_hex :: "(bytes \<Rightarrow> bytes) \<Rightarrow> string \<Rightarrow> string res" where
  "shred_marker_hex sha identity_id =
     (case hex_encode (sha (str_bytes ''SHRED_V1'' @ str_bytes identity_id)) of
        None \<Rightarrow> Inl BNS_ENOMEM
      | Some hex \<Rightarrow> Inr hex)"

text \<open>The loop compares up to and including the terminator, lowering the first operand.\<close>

fun marker_eq :: "string \<Rightarrow> string \<Rightarrow> bool" where
  "marker_eq [] [] = True"
| "marker_eq (a # as) (b # bs) = (if tolower a \<noteq> b then False else marker_eq as bs)"
| "marker_eq _ _ = False"

definition is_shred_marker_for :: "(bytes \<Rightarrow> bytes) \<Rightarrow> string \<Rightarrow> string \<Rightarrow> bool" where
  "is_shred_marker_for sha opreturn32_hex identity_id =
     (case shred_marker_hex sha identity_id of Inl _ \<Rightarrow> False | Inr marker \<Rightarrow> marker_eq opreturn32_hex marker)"

text \<open>The receipts as they are left, and the earliest erasure; \<open>None\<close> is the result \<^verbatim>\<open>-1\<close>.\<close>

fun annotate_loop :: "(bytes \<Rightarrow> bytes) \<Rightarrow> string \<Rightarrow> tea_receipt_t list \<Rightarrow> int option \<Rightarrow> tea_receipt_t list \<times> int option" where
  "annotate_loop sha identity_id [] erased_at = ([], erased_at)"
| "annotate_loop sha identity_id (r # rs) erased_at =
     (if is_shred_marker_for sha (receipt_hash r) identity_id then
        let ea = (case erased_at of None \<Rightarrow> Some (rc_time r)
                  | Some t \<Rightarrow> if rc_time r < t then Some (rc_time r) else Some t);
            (rs', ea') = annotate_loop sha identity_id rs ea in
        (r\<lparr>erased := True\<rparr> # rs', ea')
      else let (rs', ea') = annotate_loop sha identity_id rs erased_at in (r # rs', ea'))"

definition annotate_erasure :: "(bytes \<Rightarrow> bytes) \<Rightarrow> tea_receipt_t list \<Rightarrow> string \<Rightarrow> tea_receipt_t list \<times> int option" where
  "annotate_erasure sha receipts identity_id = annotate_loop sha identity_id receipts None"

fun receipt_scan :: "bsv_txout_t list \<Rightarrow> string option res" where
  "receipt_scan [] = Inr None"
| "receipt_scan (o' # os) =
     (if satoshis o' \<noteq> 0 then receipt_scan os
      else case parse_receipt_hash (script o') of
          Inr hash32 \<Rightarrow> (case hex_encode hash32 of None \<Rightarrow> Inl BNS_ENOMEM | Some hex \<Rightarrow> Inr (Some hex))
        | Inl e \<Rightarrow> if e = BNS_ENOMEM then Inl BNS_ENOMEM else receipt_scan os)"

definition indexer_parse_receipt_hash :: "string option \<Rightarrow> string option res" where
  "indexer_parse_receipt_hash raw_tx_hex =
     (case raw_tx_hex of
        None \<Rightarrow> Inl BNS_EPARSE
      | Some raw \<Rightarrow> (case tx_deserialize raw of Inl _ \<Rightarrow> Inl BNS_EPARSE | Inr tx \<Rightarrow> receipt_scan (outputs tx)))"

definition is_terminal_identity_spend :: "string option \<Rightarrow> bool" where
  "is_terminal_identity_spend raw_tx_hex =
     (case raw_tx_hex of None \<Rightarrow> False | Some raw \<Rightarrow> is_terminal_spend raw)"

definition indexer_parse_prevout :: "string option \<Rightarrow> nat \<Rightarrow> tx_prevout_t res" where
  "indexer_parse_prevout raw_tx_hex input_index =
     (case raw_tx_hex of None \<Rightarrow> Inl BNS_EPARSE | Some raw \<Rightarrow> parse_prevout raw input_index)"

section \<open>Walks\<close>

type_synonym mark_valid_fn = "(string \<Rightarrow> int \<Rightarrow> string \<Rightarrow> bool) option"

text \<open>The fixed-size fields of a receipt hold 64 characters.\<close>

definition make_receipt :: "mark_valid_fn \<Rightarrow> string \<Rightarrow> int \<Rightarrow> string \<Rightarrow> tea_receipt_t" where
  "make_receipt mark_valid txid t rh =
     (let tid = take 64 txid; h = take 64 rh in
      \<lparr>rc_txid = tid, rc_time = t, receipt_hash = h,
       valid = (case mark_valid of Some f \<Rightarrow> f tid t h | None \<Rightarrow> True), erased = False\<rparr>)"

text \<open>The part of both loop bodies that reads the receipt of one transaction and pushes it.\<close>

definition push_receipt ::
  "chain_source_t \<Rightarrow> mark_valid_fn \<Rightarrow> string \<Rightarrow> string option \<Rightarrow> tea_receipt_t list \<Rightarrow> tea_receipt_t list res" where
  "push_receipt src mark_valid txid raw_tx out =
     res_bind (indexer_parse_receipt_hash raw_tx) (\<lambda>rh.
     case rh of
       None \<Rightarrow> Inr out
     | Some h \<Rightarrow> res_bind (get_time src txid) (\<lambda>t. Inr (out @ [make_receipt mark_valid txid t h])))"

definition BONSAI_INDEXER_MAX_HOPS :: nat where "BONSAI_INDEXER_MAX_HOPS = 5000000"
definition BONSAI_INDEXER_MAX_BACKWARD_HOPS :: nat where "BONSAI_INDEXER_MAX_BACKWARD_HOPS = 100000"

text \<open>The first argument of each loop counts the hops that are left.\<close>

fun collect_loop ::
  "nat \<Rightarrow> chain_source_t \<Rightarrow> mark_valid_fn \<Rightarrow> string \<Rightarrow> u32 \<Rightarrow> tea_receipt_t list \<Rightarrow> tea_receipt_t list res" where
  "collect_loop 0 src mark_valid txid vo out = Inr out"
| "collect_loop (Suc hops) src mark_valid txid vo out =
     res_bind (get_spending_txid src txid vo) (\<lambda>next_txid.
     case next_txid of
       None \<Rightarrow> Inr out
     | Some next_txid \<Rightarrow>
         res_bind (get_raw_tx src next_txid) (\<lambda>raw_tx.
         if is_terminal_identity_spend raw_tx then Inr out
         else res_bind (push_receipt src mark_valid next_txid raw_tx out) (\<lambda>out.
           collect_loop hops src mark_valid next_txid 0 out)))"

definition collect_receipts ::
  "string \<Rightarrow> u32 \<Rightarrow> chain_source_t \<Rightarrow> mark_valid_fn \<Rightarrow> tea_receipt_t list res" where
  "collect_receipts genesis_txid vo src mark_valid =
     (if \<not> has_spend_index src then Inl BNS_EINVAL
      else collect_loop BONSAI_INDEXER_MAX_HOPS src mark_valid genesis_txid vo [])"

fun backward_loop ::
  "nat \<Rightarrow> chain_source_t \<Rightarrow> mark_valid_fn \<Rightarrow> nat \<Rightarrow> string \<Rightarrow> string \<Rightarrow> tea_receipt_t list \<Rightarrow> tea_receipt_t list res" where
  "backward_loop 0 src mark_valid idx genesis txid out =
     (if txid = genesis then Inr out else Inl BNS_EHOPLIMIT)"
| "backward_loop (Suc hops) src mark_valid idx genesis txid out =
     (if txid = genesis then Inr out
      else res_bind (get_raw_tx src txid) (\<lambda>raw_tx.
        if is_terminal_identity_spend raw_tx then Inl BNS_EPARSE
        else res_bind (push_receipt src mark_valid txid raw_tx out) (\<lambda>out.
          res_bind (indexer_parse_prevout raw_tx idx) (\<lambda>prev.
          backward_loop hops src mark_valid idx genesis (prevout_txid prev) out))))"

text \<open>The final loop swaps the items end for end.\<close>

fun swap_loop :: "nat \<Rightarrow> nat \<Rightarrow> 'a list \<Rightarrow> 'a list" where
  "swap_loop i 0 xs = xs"
| "swap_loop i (Suc j) xs =
     (if i \<ge> j then xs else swap_loop (i + 1) j (xs[i := xs ! j, j := xs ! i]))"

definition collect_receipts_backward ::
  "string \<Rightarrow> string \<Rightarrow> chain_source_t \<Rightarrow> nat \<Rightarrow> mark_valid_fn \<Rightarrow> nat \<Rightarrow> tea_receipt_t list res" where
  "collect_receipts_backward tip_txid genesis_txid src input_index mark_valid mh =
     (let mh = (if mh = 0 then BONSAI_INDEXER_MAX_BACKWARD_HOPS else mh) in
      res_bind (backward_loop mh src mark_valid input_index genesis_txid tip_txid []) (\<lambda>out.
      Inr (swap_loop 0 (length out) out)))"

section \<open>Score\<close>

record reputation_score_t =
  rho :: rat
  weight_total :: rat
  rs_count :: nat

fun score_loop :: "(rat \<Rightarrow> rat) \<Rightarrow> int \<Rightarrow> rat \<Rightarrow> tea_receipt_t list \<Rightarrow> rat \<times> rat \<Rightarrow> rat \<times> rat" where
  "score_loop fexp now lam [] (num, den) = (num, den)"
| "score_loop fexp now lam (r # rs) (num, den) =
     (let delta = now - rc_time r;
          age = (if delta > 0 then dbl (of_int delta) else 0);
          w = fexp (dbl (- lam * age));
          den' = dbl (den + w);
          num' = (if valid r then dbl (num + w) else num) in
      score_loop fexp now lam rs (num', den'))"

definition reputation_score :: "(rat \<Rightarrow> rat) \<Rightarrow> tea_receipt_t list \<Rightarrow> int \<Rightarrow> rat \<Rightarrow> reputation_score_t res" where
  "reputation_score fexp receipts now lam =
     (if lam \<le> 0 then Inl BNS_EINVAL
      else let (num, den) = score_loop fexp now lam receipts (0, 0) in
        Inr \<lparr>rho = (if den = 0 then 0 else dbl (num / den)), weight_total = den, rs_count = length receipts\<rparr>)"

definition compute_reputation ::
  "(rat \<Rightarrow> rat) \<Rightarrow> string \<Rightarrow> u32 \<Rightarrow> chain_source_t \<Rightarrow> int \<Rightarrow> rat \<Rightarrow> mark_valid_fn \<Rightarrow>
    (reputation_score_t \<times> tea_receipt_t list) res" where
  "compute_reputation fexp genesis vo src now lam mark_valid =
     res_bind (collect_receipts genesis vo src mark_valid) (\<lambda>receipts.
     res_bind (reputation_score fexp receipts now lam) (\<lambda>score. Inr (score, receipts)))"

definition compute_reputation_backward ::
  "(rat \<Rightarrow> rat) \<Rightarrow> string \<Rightarrow> string \<Rightarrow> chain_source_t \<Rightarrow> int \<Rightarrow> rat \<Rightarrow> nat \<Rightarrow> mark_valid_fn \<Rightarrow>
    (reputation_score_t \<times> tea_receipt_t list) res" where
  "compute_reputation_backward fexp tip genesis src now lam mh mark_valid =
     res_bind (collect_receipts_backward tip genesis src 0 mark_valid mh) (\<lambda>receipts.
     res_bind (reputation_score fexp receipts now lam) (\<lambda>score. Inr (score, receipts)))"

section \<open>The swap loop reverses\<close>

lemma length_swap_loop [simp]: "length (swap_loop i j xs) = length xs"
  by (induction i j xs rule: swap_loop.induct) auto

lemma swap_loop_nth:
  "j \<le> length xs \<Longrightarrow> k < length xs \<Longrightarrow>
   swap_loop i j xs ! k = (if i \<le> k \<and> k < j then xs ! (i + j - 1 - k) else xs ! k)"
proof (induction i j xs rule: swap_loop.induct)
  case (2 i j xs)
  show ?case
  proof (cases "i < j")
    case True
    let ?ys = "xs[i := xs ! j, j := xs ! i]"
    have IH: "swap_loop (i + 1) j ?ys ! k = (if i + 1 \<le> k \<and> k < j then ?ys ! (i + 1 + j - 1 - k) else ?ys ! k)"
      using 2 True by simp
    consider "i + 1 \<le> k" "k < j" | "k = i" | "k = j" | "k < i" | "j < k" by linarith
    then show ?thesis using True IH "2.prems" by cases (auto simp: nth_list_update)
  next
    case False
    then show ?thesis by (auto intro: arg_cong[of _ _ "(!) xs"])
  qed
qed simp

lemma swap_loop_rev: "swap_loop 0 (length xs) xs = rev xs"
  by (rule nth_equalityI) (auto simp: swap_loop_nth rev_nth)

section \<open>Identity histories\<close>

text \<open>
  A history of an identity from a transaction \<open>t\<close>: the transactions that recreate it, oldest
  first, each with its raw form. \<open>linked\<close> says that the source serves each of them, that none
  is terminal, that its receipt can be read, and that input \<open>idx\<close> of each spends the one before;
  \<open>spends\<close> that the spend index leads through them and then ends, at an unspent output or
  at a terminal spend.
\<close>

definition entry_ok :: "chain_source_t \<Rightarrow> nat \<Rightarrow> string \<Rightarrow> string \<times> string \<Rightarrow> bool" where
  "entry_ok src idx t e \<longleftrightarrow>
     (case e of (s, raw) \<Rightarrow>
       get_raw_tx src s = Inr (Some raw) \<and> \<not> is_terminal_spend raw \<and>
       (\<exists>vo. parse_prevout raw idx = Inr \<lparr>prevout_txid = t, prevout_vout = vo\<rparr>) \<and>
       (\<exists>rh. indexer_parse_receipt_hash (Some raw) = Inr rh \<and> (rh = None \<or> (\<exists>tm. get_time src s = Inr tm))))"

fun linked :: "chain_source_t \<Rightarrow> nat \<Rightarrow> string \<Rightarrow> (string \<times> string) list \<Rightarrow> bool" where
  "linked src idx t [] = True"
| "linked src idx t (e # es) = (entry_ok src idx t e \<and> linked src idx (fst e) es)"

fun spends :: "chain_source_t \<Rightarrow> string \<Rightarrow> u32 \<Rightarrow> (string \<times> string) list \<Rightarrow> bool" where
  "spends src t vo [] =
     (get_spending_txid src t vo = Inr None \<or>
      (\<exists>s raw. get_spending_txid src t vo = Inr (Some s) \<and> get_raw_tx src s = Inr (Some raw) \<and> is_terminal_spend raw))"
| "spends src t vo (e # es) = (get_spending_txid src t vo = Inr (Some (fst e)) \<and> spends src (fst e) 0 es)"

definition tip_of :: "string \<Rightarrow> (string \<times> string) list \<Rightarrow> string" where
  "tip_of g es = (if es = [] then g else fst (last es))"

definition entry_receipts :: "chain_source_t \<Rightarrow> mark_valid_fn \<Rightarrow> string \<times> string \<Rightarrow> tea_receipt_t list" where
  "entry_receipts src mv e =
     (case indexer_parse_receipt_hash (Some (snd e)) of
        Inr (Some h) \<Rightarrow> (case get_time src (fst e) of Inr tm \<Rightarrow> [make_receipt mv (fst e) tm h] | Inl _ \<Rightarrow> [])
      | _ \<Rightarrow> [])"

definition receipts_of :: "chain_source_t \<Rightarrow> mark_valid_fn \<Rightarrow> (string \<times> string) list \<Rightarrow> tea_receipt_t list" where
  "receipts_of src mv es = concat (map (entry_receipts src mv) es)"

lemma push_receipt_entry:
  "entry_ok src idx t (s, raw) \<Longrightarrow> push_receipt src mv s (Some raw) out = Inr (out @ entry_receipts src mv (s, raw))"
  by (auto simp: entry_ok_def push_receipt_def entry_receipts_def split: option.splits)

lemma linked_snoc: "linked src idx g (es @ [e]) \<longleftrightarrow> linked src idx g es \<and> entry_ok src idx (tip_of g es) e"
  by (induction es arbitrary: g) (auto simp: tip_of_def)

lemma tip_of_snoc [simp]: "tip_of g (es @ [e]) = fst e"
  by (simp add: tip_of_def)

lemma collect_loop_history:
  "linked src idx t es \<Longrightarrow> spends src t vo es \<Longrightarrow> length es \<le> n \<Longrightarrow>
   collect_loop n src mv t vo out = Inr (out @ receipts_of src mv es)"
proof (induction es arbitrary: n t vo out)
  case Nil
  then show ?case
    by (cases n) (auto simp: receipts_of_def is_terminal_identity_spend_def)
next
  case (Cons e es)
  obtain s raw where e: "e = (s, raw)" by (cases e)
  obtain m where n: "n = Suc m" using Cons.prems(3) by (cases n) auto
  have ok: "entry_ok src idx t (s, raw)" using Cons.prems(1) e by simp
  then have "get_raw_tx src s = Inr (Some raw)" "\<not> is_terminal_spend raw" by (auto simp: entry_ok_def)
  then show ?case using Cons.prems Cons.IH[of s 0 m] push_receipt_entry[OF ok] e n
    by (simp add: is_terminal_identity_spend_def receipts_of_def)
qed

lemma backward_loop_history:
  "linked src idx g es \<Longrightarrow> list_all (\<lambda>e. fst e \<noteq> g) es \<Longrightarrow> length es \<le> n \<Longrightarrow>
   backward_loop n src mv idx g (tip_of g es) out =
     Inr (out @ concat (map (entry_receipts src mv) (rev es)))"
proof (induction es arbitrary: n out rule: rev_induct)
  case Nil
  then show ?case by (cases n) (simp_all add: tip_of_def)
next
  case (snoc e es)
  obtain s raw where e: "e = (s, raw)" by (cases e)
  obtain m where n: "n = Suc m" using snoc.prems(3) by (cases n) auto
  have ok: "entry_ok src idx (tip_of g es) (s, raw)" using snoc.prems(1) e by (simp add: linked_snoc)
  then obtain vo where p: "get_raw_tx src s = Inr (Some raw)" "\<not> is_terminal_spend raw"
    "parse_prevout raw idx = Inr \<lparr>prevout_txid = tip_of g es, prevout_vout = vo\<rparr>"
    by (auto simp: entry_ok_def)
  have "s \<noteq> g" "linked src idx g es" "list_all (\<lambda>e. fst e \<noteq> g) es" "length es \<le> m"
    using snoc.prems e n by (auto simp: linked_snoc)
  then show ?case using p snoc.IH[of m] push_receipt_entry[OF ok] e n
    by (simp add: is_terminal_identity_spend_def indexer_parse_prevout_def)
qed

lemma entry_receipts_short: "length (entry_receipts src mv e) \<le> 1"
  by (simp add: entry_receipts_def split: sum.splits option.splits)

lemma rev_entry_receipts: "rev (entry_receipts src mv e) = entry_receipts src mv e"
  using entry_receipts_short[of src mv e] by (cases "entry_receipts src mv e") auto

lemma rev_receipts: "rev (concat (map (entry_receipts src mv) (rev es))) = receipts_of src mv es"
  by (induction es) (simp_all add: receipts_of_def rev_entry_receipts)

lemma backward_loop_sound:
  "backward_loop n src mv idx g t out = Inr out' \<Longrightarrow>
   \<exists>es. linked src idx g es \<and> tip_of g es = t \<and> list_all (\<lambda>e. fst e \<noteq> g) es \<and> length es \<le> n"
proof (induction n arbitrary: t out)
  case 0
  then show ?case by (intro exI[of _ "[]"]) (auto simp: tip_of_def split: if_splits)
next
  case (Suc n)
  show ?case
  proof (cases "t = g")
    case True
    then show ?thesis by (intro exI[of _ "[]"]) (auto simp: tip_of_def)
  next
    case False
    obtain raw out1 prev where s: "get_raw_tx src t = Inr raw" "\<not> is_terminal_identity_spend raw"
      "push_receipt src mv t raw out = Inr out1" "indexer_parse_prevout raw idx = Inr prev"
      "backward_loop n src mv idx g (prevout_txid prev) out1 = Inr out'"
      using Suc.prems False by (auto simp: res_bind_Inr_iff split: if_splits)
    then obtain r where r: "raw = Some r" by (cases raw) (auto simp: indexer_parse_prevout_def)
    from Suc.IH[OF s(5)] obtain es where es: "linked src idx g es" "tip_of g es = prevout_txid prev"
      "list_all (\<lambda>e. fst e \<noteq> g) es" "length es \<le> n" by blast
    have "parse_prevout r idx = Inr \<lparr>prevout_txid = tip_of g es, prevout_vout = prevout_vout prev\<rparr>"
      using s(4) r es(2) by (simp add: indexer_parse_prevout_def)
    then have "entry_ok src idx (tip_of g es) (t, r)"
      using s(1-3) r by (auto simp: entry_ok_def is_terminal_identity_spend_def push_receipt_def res_bind_Inr_iff
          split: option.splits)
    then show ?thesis using es False by (intro exI[of _ "es @ [(t, r)]"]) (simp add: linked_snoc)
  qed
qed

section \<open>Properties\<close>

text \<open>
  C30. The backward walk returns a receipt list exactly when the tip descends from the genesis
  transaction: when a chain of served, non-terminal transactions of at most the allowed length,
  each spending the one before it, leads from the genesis to the tip without passing through the
  genesis again. The list is then the receipts of that chain, oldest first; a wrong tip never
  yields a partial history.
\<close>

theorem collect_receipts_backward_iff:
  "collect_receipts_backward tip g src idx mv n = Inr rs \<longleftrightarrow>
    (\<exists>es. linked src idx g es \<and> tip_of g es = tip \<and> list_all (\<lambda>e. fst e \<noteq> g) es \<and>
       length es \<le> (if n = 0 then 100000 else n) \<and> rs = receipts_of src mv es)" (is "?l \<longleftrightarrow> ?r")
proof -
  let ?n = "if n = 0 then 100000 else n"
  have c: "collect_receipts_backward (tip_of g es) g src idx mv n = Inr (receipts_of src mv es)"
    if "linked src idx g es" "list_all (\<lambda>e. fst e \<noteq> g) es" "length es \<le> ?n" for es
    using backward_loop_history[OF that, of mv "[]"]
    unfolding collect_receipts_backward_def BONSAI_INDEXER_MAX_BACKWARD_HOPS_def Let_def
    by (simp only: append_Nil res_bind.simps swap_loop_rev rev_receipts)
  show ?thesis
  proof
    assume l: ?l
    then obtain out where "backward_loop ?n src mv idx g tip [] = Inr out"
      unfolding collect_receipts_backward_def BONSAI_INDEXER_MAX_BACKWARD_HOPS_def Let_def res_bind_Inr_iff by blast
    from backward_loop_sound[OF this] obtain es where es: "linked src idx g es" "tip_of g es = tip"
      "list_all (\<lambda>e. fst e \<noteq> g) es" "length es \<le> ?n" by blast
    then show ?r using c[OF es(1,3,4)] l by auto
  next
    assume ?r
    then show ?l using c by blast
  qed
qed

text \<open>
  C31. Forward and backward indexing agree: for a history that the spend index and the previous
  outputs describe alike, the walk from the genesis and the walk from the last recreation yield
  the same receipts, hence the same score, whatever the score's parameters are.
\<close>

theorem forward_backward_agree:
  assumes "has_spend_index src" "linked src 0 g es" "spends src g vo es" "list_all (\<lambda>e. fst e \<noteq> g) es"
    and "length es \<le> n" "0 < n" "n \<le> 100000"
  shows "collect_receipts g vo src mv = Inr (receipts_of src mv es) \<and>
    collect_receipts_backward (tip_of g es) g src 0 mv n = Inr (receipts_of src mv es) \<and>
    compute_reputation fexp g vo src now lam mv = compute_reputation_backward fexp (tip_of g es) g src now lam n mv"
proof -
  have "collect_receipts g vo src mv = Inr (receipts_of src mv es)"
    using collect_loop_history[OF assms(2,3), of BONSAI_INDEXER_MAX_HOPS mv "[]"] assms(1,5,7)
    by (simp add: collect_receipts_def BONSAI_INDEXER_MAX_HOPS_def)
  moreover have "collect_receipts_backward (tip_of g es) g src 0 mv n = Inr (receipts_of src mv es)"
    using backward_loop_history[OF assms(2,4,5)] assms(6)
    by (simp add: collect_receipts_backward_def swap_loop_rev rev_receipts)
  ultimately show ?thesis by (simp add: compute_reputation_def compute_reputation_backward_def)
qed

definition hist_tx :: bsv_tx_t where
  "hist_tx = \<lparr>version = 1,
     inputs = [\<lparr>prev_txid_display = replicate 64 (CHR ''a''), vout = 0, script_sig = [], sequence = 0\<rparr>],
     outputs = [\<lparr>satoshis = 1, script = [0x51]\<rparr>, \<lparr>satoshis = 0, script = [0x00, 0x6a, 0x20] @ replicate 32 7\<rparr>],
     locktime = 0\<rparr>"

definition hist_raw :: string where
  "hist_raw = hex_encode_loop (projr (tx_serialize hist_tx))"

definition hist_source :: chain_source_t where
  "hist_source = \<lparr>get_raw_tx = (\<lambda>t. Inr (Some hist_raw)), get_time = (\<lambda>t. Inr 1700000000), has_spend_index = True,
     get_spending_txid = (\<lambda>t v. Inr (if t = replicate 64 (CHR ''a'') then Some ''b'' else None))\<rparr>"

lemma hist_raw_parses: "tx_deserialize hist_raw = Inr hist_tx"
proof -
  have "is_hex_len (replicate 64 (CHR ''a'')) 32" by code_simp
  moreover have "hex_to_lower (replicate 64 (CHR ''a'')) = replicate 64 (CHR ''a'')" by code_simp
  ultimately have ok: "tx_ok hist_tx"
    by (simp add: tx_ok_def hist_tx_def txin_ok_def txout_ok_def script_ok_def)
  then obtain raw where r: "tx_serialize hist_tx = Inr raw" using tx_serialize_ok by blast
  then show ?thesis using tx_deserialize_serialize[OF ok r]
    by (simp add: hist_raw_def tx_deserialize_def hex_decode_encode)
qed

theorem forward_backward_agree_witness:
  "collect_receipts (replicate 64 (CHR ''a'')) 0 hist_source None =
     collect_receipts_backward ''b'' (replicate 64 (CHR ''a'')) hist_source 0 None 10 \<and>
   length (receipts_of hist_source None [(''b'', hist_raw)]) = 1"
proof -
  have b: "''b'' \<noteq> replicate 64 (CHR ''a'')" by (auto dest: arg_cong[of _ _ length])
  have nt: "\<not> is_terminal_spend hist_raw"
    by (simp add: is_terminal_spend_def hist_raw_parses hist_tx_def is_p2pkh_out_def)
  have "parse_receipt_hash ([0x00, 0x6a, 0x20] @ replicate 32 7) = Inr (replicate 32 7)" by code_simp
  moreover have "hex_encode (replicate 32 7) = Some (hex_encode_loop (replicate 32 7))"
    by (rule hex_encode_small) (simp add: SIZE_MAX_def)
  ultimately have rh: "indexer_parse_receipt_hash (Some hist_raw) = Inr (Some (hex_encode_loop (replicate 32 7)))"
    by (simp add: indexer_parse_receipt_hash_def hist_raw_parses hist_tx_def)
  have "entry_ok hist_source 0 (replicate 64 (CHR ''a'')) (''b'', hist_raw)"
    using nt rh by (simp add: entry_ok_def hist_source_def parse_prevout_def hist_raw_parses Let_def) (simp add: hist_tx_def)
  then have "linked hist_source 0 (replicate 64 (CHR ''a'')) [(''b'', hist_raw)]" by simp
  moreover have "spends hist_source (replicate 64 (CHR ''a'')) 0 [(''b'', hist_raw)]"
    using b by (simp add: hist_source_def)
  moreover have "list_all (\<lambda>e. fst e \<noteq> replicate 64 (CHR ''a'')) [(''b'', hist_raw)]" using b by simp
  moreover have "has_spend_index hist_source" by (simp add: hist_source_def)
  moreover have "length (receipts_of hist_source None [(''b'', hist_raw)]) = 1"
    using rh by (simp add: receipts_of_def entry_receipts_def hist_source_def)
  ultimately show ?thesis
    using forward_backward_agree[of hist_source "replicate 64 (CHR ''a'')" "[(''b'', hist_raw)]" 0 10 None]
    by (simp add: tip_of_def)
qed

lemma score_loop_bounds:
  assumes "\<And>x. x \<le> 0 \<Longrightarrow> 0 \<le> fexp x" "0 < lam"
  shows "0 \<le> num \<Longrightarrow> num \<le> den \<Longrightarrow> dbl num = num \<Longrightarrow> score_loop fexp now lam rs (num, den) = (num', den') \<Longrightarrow>
    0 \<le> num' \<and> num' \<le> den' \<and> (list_all valid rs \<and> num = den \<longrightarrow> num' = den') \<and>
    (list_all (\<lambda>r. \<not> valid r) rs \<longrightarrow> num' = num)"
proof (induction rs arbitrary: num den)
  case (Cons r rs)
  define w where "w = fexp (dbl (- lam * (if now - rc_time r > 0 then dbl (of_int (now - rc_time r)) else 0)))"
  have "0 \<le> (if now - rc_time r > 0 then dbl (of_int (now - rc_time r)) else 0)"
    using dbl_nonneg[of "of_int (now - rc_time r)"] by simp
  then have "dbl (- lam * (if now - rc_time r > 0 then dbl (of_int (now - rc_time r)) else 0)) \<le> 0"
    using assms(2) by (intro dbl_nonpos mult_nonpos_nonneg) auto
  then have w: "0 \<le> w" unfolding w_def by (rule assms(1))
  have n: "0 \<le> dbl (num + w)" "dbl (dbl (num + w)) = dbl (num + w)"
    using w Cons.prems(1) by (auto intro!: dbl_nonneg dbl_idem)
  have nd: "dbl (num + w) \<le> dbl (den + w)" "dbl num \<le> dbl (den + w)"
    using w Cons.prems(1,2) by (auto intro!: dbl_mono)
  have "score_loop fexp now lam rs (if valid r then dbl (num + w) else num, dbl (den + w)) = (num', den')"
    using Cons.prems(4) unfolding score_loop.simps Let_def w_def[symmetric] .
  then show ?case
    using Cons.IH[of "dbl (num + w)" "dbl (den + w)"] Cons.IH[of num "dbl (den + w)"] n nd Cons.prems(1,3)
    by (cases "valid r") auto
qed simp

text \<open>
  The score is a ratio: for a positive decay it is always computed, lies between 0 and 1 in
  spite of every rounding, counts all receipts, is 0 when no receipt is valid and 1 when all are
  and their weights have not underflowed; a decay that is not positive is refused.
\<close>

theorem reputation_score_bounds:
  assumes "\<forall>x. x \<le> 0 \<longrightarrow> 0 \<le> fexp x"
  shows "(lam \<le> 0 \<longrightarrow> reputation_score fexp rs now lam = Inl BNS_EINVAL) \<and>
    (0 < lam \<longrightarrow> (\<exists>s. reputation_score fexp rs now lam = Inr s \<and> 0 \<le> rho s \<and> rho s \<le> 1 \<and>
       0 \<le> weight_total s \<and> rs_count s = length rs \<and>
       (list_all (\<lambda>r. \<not> valid r) rs \<longrightarrow> rho s = 0) \<and>
       (list_all valid rs \<and> weight_total s \<noteq> 0 \<longrightarrow> rho s = 1)))"
proof (intro conjI impI)
  assume l: "0 < lam"
  obtain num den where sl: "score_loop fexp now lam rs (0, 0) = (num, den)"
    by (cases "score_loop fexp now lam rs (0, 0)")
  from score_loop_bounds[where fexp = fexp, OF _ l _ _ _ sl] assms
  have b: "0 \<le> num" "num \<le> den" "list_all valid rs \<longrightarrow> num = den" "list_all (\<lambda>r. \<not> valid r) rs \<longrightarrow> num = 0"
    by auto
  have one: "dbl 1 = 1" using dbl_of_int[of 1] by simp
  have "0 \<le> dbl (num / den)" using b by (intro dbl_nonneg) simp
  moreover have "dbl (num / den) \<le> 1"
    using dbl_mono[of "num / den" 1] b one by (cases "den = 0") (auto simp: divide_le_eq_1)
  ultimately show "\<exists>s. reputation_score fexp rs now lam = Inr s \<and> 0 \<le> rho s \<and> rho s \<le> 1 \<and>
       0 \<le> weight_total s \<and> rs_count s = length rs \<and>
       (list_all (\<lambda>r. \<not> valid r) rs \<longrightarrow> rho s = 0) \<and>
       (list_all valid rs \<and> weight_total s \<noteq> 0 \<longrightarrow> rho s = 1)"
    using l b one by (auto simp: reputation_score_def sl)
qed (simp add: reputation_score_def)

text \<open>A stand-in for the exponential: full weight for the present, half of it for the past.\<close>

definition demo_exp :: "rat \<Rightarrow> rat" where
  "demo_exp x = (if x = 0 then 1 else 1 / 2)"

definition demo_receipt :: "int \<Rightarrow> bool \<Rightarrow> tea_receipt_t" where
  "demo_receipt t v = \<lparr>rc_txid = ''t'', rc_time = t, receipt_hash = ''h'', valid = v, erased = False\<rparr>"

theorem reputation_score_bounds_witness:
  "\<exists>s. reputation_score demo_exp [demo_receipt 5 True, demo_receipt 3 False] 5 (1 / 10) = Inr s \<and>
    0 \<le> rho s \<and> rho s \<le> 1 \<and> rs_count s = 2"
proof -
  have e: "\<forall>x. x \<le> 0 \<longrightarrow> 0 \<le> demo_exp x" by (simp add: demo_exp_def)
  show ?thesis
    using reputation_score_bounds[OF e, of "1 / 10" "[demo_receipt 5 True, demo_receipt 3 False]" 5] by force
qed

section \<open>Erasure\<close>

lemma marker_eq_iff: "marker_eq as bs \<longleftrightarrow> map tolower as = bs"
  by (induction as bs rule: marker_eq.induct) auto

text \<open>
  Erasure annotation marks exactly the receipts that carry the identity's shred marker, in
  either letter case, keeps everything else about every receipt, the validity in particular, and
  reports the earliest time among them, or none when there is none.
\<close>

theorem annotate_erasure_correct:
  "annotate_erasure sha rs ident =
    (map (\<lambda>r. if is_shred_marker_for sha (receipt_hash r) ident then r\<lparr>erased := True\<rparr> else r) rs,
     (let ts = map rc_time (filter (\<lambda>r. is_shred_marker_for sha (receipt_hash r) ident) rs) in
      if ts = [] then None else Some (Min (set ts))))"
proof -
  have "annotate_loop sha ident rs ea =
    (map (\<lambda>r. if is_shred_marker_for sha (receipt_hash r) ident then r\<lparr>erased := True\<rparr> else r) rs,
     (let ts = (case ea of None \<Rightarrow> [] | Some t \<Rightarrow> [t]) @
             map rc_time (filter (\<lambda>r. is_shred_marker_for sha (receipt_hash r) ident) rs) in
      if ts = [] then None else Some (Min (set ts))))" for ea
  proof (induction rs arbitrary: ea)
    case (Cons r rs)
    show ?case
    proof (cases "is_shred_marker_for sha (receipt_hash r) ident")
      case True
      show ?thesis
      proof (cases ea)
        case None
        then show ?thesis using True Cons.IH[of "Some (rc_time r)"] by (simp add: Let_def)
      next
        case (Some t)
        have step: "(if a < b then Some a else Some b) = Some (min a b)" for a b :: int by (simp add: min_def)
        have m: "Min (insert (min a b) S) = Min (insert a (insert b S))" if "finite S" for a b :: int and S
          using that by (cases "S = {}") (simp_all add: min.assoc)
        show ?thesis using True Some Cons.IH[of "Some (min (rc_time r) t)"]
          by (simp add: Let_def m step insert_commute del: Min_insert)
      qed
    qed (simp add: Cons.IH Let_def)
  qed (simp split: option.splits)
  then show ?thesis by (simp add: annotate_erasure_def)
qed

end
