(* ===== verification/AgentTea.thy ===== *)
theory AgentTea
  imports ScriptCodec Spv Envelope
begin

text \<open>
  The sovereign-agent contract, \<^verbatim>\<open>src/contracts_next/agent_tea.c\<close>: its constructor and state
  records, the transition that an action makes, the locking script, the decoder that resumes
  a lineage from a script on the chain, and the messages its signers and receipts commit to.
  Its meter is compared with the broker's accountant of theory \<open>Envelope\<close>.
\<close>

section \<open>Data\<close>

record agent_tea_params_t =
  owner :: bytes
  agent :: bytes
  ricardian_hash :: bytes
  at_per_tx_limit :: bn_t
  at_daily_limit :: bn_t
  at_window_duration :: bn_t
  graduation_threshold :: bn_t
  validator_threshold :: bn_t
  designated_validator_pubkey :: bn_t
  validator_rabin_pubkey :: bn_t
  recovery_keys :: "bn_t list"
  recovery_threshold :: bn_t

record agent_tea_state_t =
  tx_count :: bn_t
  at_spent_in_window :: bn_t
  at_window_start :: bn_t
  tier :: bn_t
  recovery_count :: bn_t

record agent_tea_t =
  artifact :: scrypt_artifact_t
  params :: agent_tea_params_t
  at_state :: agent_tea_state_t

section \<open>Lifecycle\<close>

definition agent_tea_genesis_state :: agent_tea_state_t where
  "agent_tea_genesis_state =
     \<lparr>tx_count = 0, at_spent_in_window = 0, at_window_start = 0, tier = 1, recovery_count = 0\<rparr>"

definition agent_tea_apply_action :: "agent_tea_t \<Rightarrow> bn_t \<Rightarrow> int \<Rightarrow> agent_tea_state_t" where
  "agent_tea_apply_action c amount now =
     (let s = at_state c; p = params c;
          delta = now - at_window_start s;
          (ws, spent) = (if delta \<ge> at_window_duration p then (now, 0)
                         else (at_window_start s, at_spent_in_window s));
          spent = spent + amount;
          txc = tx_count s + 1 in
      \<lparr>tx_count = txc, at_spent_in_window = spent, at_window_start = ws,
       tier = (if txc \<ge> graduation_threshold p \<and> tier s < 2 then 2 else tier s),
       recovery_count = recovery_count s\<rparr>)"

section \<open>Locking script\<close>

definition agent_ctor_args :: "agent_tea_params_t \<Rightarrow> scrypt_arg_t list" where
  "agent_ctor_args p =
     [ArgBytes TagPubKey (owner p), ArgBytes TagPubKey (agent p), ArgBytes TagSha256 (ricardian_hash p),
      ArgInt (at_per_tx_limit p), ArgInt (at_daily_limit p), ArgInt (at_window_duration p),
      ArgInt (graduation_threshold p), ArgInt (validator_threshold p),
      ArgRabin (designated_validator_pubkey p), ArgRabin (validator_rabin_pubkey p),
      ArgArray (map ArgRabin (recovery_keys p)), ArgInt (recovery_threshold p)]"

definition agent_state_args :: "bytes \<Rightarrow> agent_tea_state_t \<Rightarrow> scrypt_arg_t list" where
  "agent_state_args ag s =
     [ArgBytes TagPubKey ag, ArgInt (tx_count s), ArgInt (at_spent_in_window s), ArgInt (at_window_start s),
      ArgInt (tier s), ArgInt (recovery_count s)]"

definition agent_tea_locking_script_ex ::
  "bn_lib \<Rightarrow> agent_tea_t \<Rightarrow> bool \<Rightarrow> bytes option \<Rightarrow> bytes res" where
  "agent_tea_locking_script_ex L c is_genesis state_agent =
     reconstruct_locking_script L (artifact c) (agent_ctor_args (params c))
       (agent_state_args (case state_agent of Some a \<Rightarrow> a | None \<Rightarrow> agent (params c)) (at_state c)) is_genesis"

definition agent_tea_locking_script :: "bn_lib \<Rightarrow> agent_tea_t \<Rightarrow> bool \<Rightarrow> bytes res" where
  "agent_tea_locking_script L c is_genesis = agent_tea_locking_script_ex L c is_genesis None"

section \<open>State decoder\<close>

definition read_push :: "bytes \<Rightarrow> nat \<Rightarrow> nat \<Rightarrow> (bytes \<times> nat) res" where
  "read_push scr fin at =
     (if at \<ge> fin then Inl BNS_EPARSE
      else
        let op = scr ! at; p = at + 1 in
        res_bind
          (if op = 0x00 then Inr (0, p)
           else if op \<le> 0x4b then Inr (unat op, p)
           else if op = 0x4c then
             (if p + 1 > fin then Inl BNS_EPARSE else Inr (unat (scr ! p), p + 1))
           else if op = 0x4d then
             (if p + 2 > fin then Inl BNS_EPARSE
              else Inr (unat (scr ! p) + 256 * unat (scr ! (p + 1)), p + 2))
           else if op = 0x4e then
             (if p + 4 > fin then Inl BNS_EPARSE
              else Inr (unat (scr ! p) + 256 * unat (scr ! (p + 1)) + 65536 * unat (scr ! (p + 2))
                        + 16777216 * unat (scr ! (p + 3)), p + 4))
           else Inl BNS_EPARSE)
          (\<lambda>(n, p). if p + n > fin then Inl BNS_EPARSE else Inr (take n (drop p scr), p + n)))"

definition decode_state_int :: "bn_in \<Rightarrow> bytes \<Rightarrow> bn_t" where
  "decode_state_int I body = BN_lebin2bn I body"

fun read_state_ints :: "bn_in \<Rightarrow> bytes \<Rightarrow> nat \<Rightarrow> nat \<Rightarrow> nat \<Rightarrow> (bn_t list \<times> nat) res" where
  "read_state_ints I scr fin 0 at = Inr ([], at)"
| "read_state_ints I scr fin (Suc k) at =
     res_bind (read_push scr fin at) (\<lambda>(d, at).
     res_bind (read_state_ints I scr fin k at) (\<lambda>(vs, at). Inr (decode_state_int I d # vs, at)))"

text \<open>The decoded state and the agent key; a disjoint \<^verbatim>\<open>|\<close> of shifted bytes is their sum.\<close>

definition agent_tea_from_tx :: "bn_in \<Rightarrow> bytes \<Rightarrow> (agent_tea_state_t \<times> bytes) res" where
  "agent_tea_from_tx I scr =
     (let len = length scr in
      if len < 5 then Inl BNS_EPARSE
      else
        let state_len = unat (scr ! (len - 5)) + 256 * unat (scr ! (len - 4))
              + 65536 * unat (scr ! (len - 3)) + 16777216 * unat (scr ! (len - 2)) in
        if state_len < 1 \<or> state_len + 5 > len then Inl BNS_EPARSE
        else
          let body_start = len - 5 - state_len; body_end = len - 5; at = body_start + 1 in
          res_bind (read_push scr body_end at) (\<lambda>(agent_data, at).
          if length agent_data \<noteq> 33 then Inl BNS_EPARSE
          else res_bind (read_state_ints I scr body_end 5 at) (\<lambda>(vs, at).
            if at \<noteq> body_end then Inl BNS_EPARSE
            else Inr (\<lparr>tx_count = vs ! 0, at_spent_in_window = vs ! 1, at_window_start = vs ! 2,
                       tier = vs ! 3, recovery_count = vs ! 4\<rparr>, agent_data))))"

section \<open>Messages\<close>

definition AGNT_ATTEST_TAG :: bytes where
  "AGNT_ATTEST_TAG = [0x41,0x47,0x4e,0x54,0x5f,0x41,0x54,0x54,0x45,0x53,0x54,0x5f,0x56,0x31]"

definition AGNT_RECOVER_TAG :: bytes where
  "AGNT_RECOVER_TAG = [0x41,0x47,0x4e,0x54,0x5f,0x52,0x45,0x43,0x4f,0x56,0x45,0x52,0x5f,0x56,0x31]"

definition agent_tea_attestation_msg ::
  "bn_lib \<Rightarrow> bytes \<Rightarrow> bytes \<Rightarrow> bn_t \<Rightarrow> bn_t \<Rightarrow> bn_t \<Rightarrow> bytes \<Rightarrow> bytes res" where
  "agent_tea_attestation_msg L rhash ag validator_pubkey amount attested_limit receipt =
     res_bind (int2bytestring_minimal L validator_pubkey) (\<lambda>v.
     res_bind (int2bytestring_sized L amount 8) (\<lambda>a.
     res_bind (int2bytestring_sized L attested_limit 8) (\<lambda>l.
     Inr (AGNT_ATTEST_TAG @ rhash @ ag @ v @ a @ l @ receipt))))"

definition agent_tea_recovery_msg :: "bn_lib \<Rightarrow> bytes \<Rightarrow> bytes \<Rightarrow> bn_t \<Rightarrow> bytes res" where
  "agent_tea_recovery_msg L rhash new_agent rcount =
     res_bind (int2bytestring_sized L rcount 8) (\<lambda>r.
     Inr (AGNT_RECOVER_TAG @ rhash @ new_agent @ r))"

definition agent_tea_receipt_preimage ::
  "bn_lib \<Rightarrow> agent_tea_t \<Rightarrow> bytes \<Rightarrow> bn_t \<Rightarrow> bytes \<Rightarrow> bytes \<Rightarrow> int \<Rightarrow> bytes res" where
  "agent_tea_receipt_preimage L c counterparty amount action_hash provenance_hash now =
     (if length (ricardian_hash (params c)) \<noteq> 32 \<or> length (agent (params c)) \<noteq> 33 then Inl BNS_EINVAL
      else
        res_bind (int2bytestring_sized L amount 8) (\<lambda>a.
        res_bind (int2bytestring_sized L (tx_count (at_state c)) 8) (\<lambda>t.
        res_bind (int2bytestring_sized L now 4) (\<lambda>n.
        Inr (ricardian_hash (params c) @ agent (params c) @ counterparty @ a @ action_hash @
             provenance_hash @ t @ n)))))"

definition agent_tea_receipt_hash ::
  "bn_lib \<Rightarrow> (bytes \<Rightarrow> bytes) \<Rightarrow> agent_tea_t \<Rightarrow> bytes \<Rightarrow> bn_t \<Rightarrow> bytes \<Rightarrow> bytes \<Rightarrow> int \<Rightarrow> string res" where
  "agent_tea_receipt_hash L sha c counterparty amount action_hash provenance_hash now =
     res_bind (agent_tea_receipt_preimage L c counterparty amount action_hash provenance_hash now) (\<lambda>pre.
     case hex_encode (sha pre) of Some hex \<Rightarrow> Inr hex | None \<Rightarrow> Inl BNS_ENOMEM)"

section \<open>The decoder inverts the state encoder\<close>

lemma unat_of_nat_byte: "unat (of_nat n :: byte) = n mod 256"
  by (simp add: unat_of_nat)

lemma nth_app: "(pre @ x # xs) ! length pre = x" "(pre @ x # y # ys) ! Suc (length pre) = y"
  "(pre @ x # y # z # zs) ! Suc (Suc (length pre)) = z"
  "(pre @ x # y # z # w # ws) ! Suc (Suc (Suc (length pre))) = w"
  "(pre @ x # y # z # w # v # vs) ! (4 + length pre) = v" "(pre @ x # y # z # zs) ! (2 + length pre) = z"
  "(pre @ x # y # z # w # ws) ! (3 + length pre) = w"
  by (simp_all add: nth_append)

lemma digits256:
  fixes n :: nat
  assumes "n < 2 ^ 32"
  shows "n mod 256 + 256 * (n div 256 mod 256) + 65536 * (n div 65536 mod 256) + 16777216 * (n div 16777216 mod 256) = n"
proof -
  have d: "n div 65536 = n div 256 div 256" "n div 16777216 = n div 256 div 256 div 256" by (simp_all flip: div_mult2_eq)
  have "n div 256 div 256 div 256 < 256" using assms by (simp flip: div_mult2_eq add: div_less_iff_less_mult)
  then have "n div 256 div 256 div 256 mod 256 = n div 256 div 256 div 256" by simp
  moreover have "n = n div 256 * 256 + n mod 256" "n div 256 = n div 256 div 256 * 256 + n div 256 mod 256"
    "n div 256 div 256 = n div 256 div 256 div 256 * 256 + n div 256 div 256 mod 256" by simp_all
  ultimately show ?thesis unfolding d by linarith
qed

lemma read_push_push_data:
  assumes "length d < 2 ^ 32" "length pre + length (push_data d) \<le> fin"
  shows "read_push (pre @ push_data d @ post) fin (length pre) = Inr (d, length pre + length (push_data d))"
proof -
  let ?n = "length d"
  consider "?n = 0" | "0 < ?n" "?n \<le> 75" | "75 < ?n" "?n \<le> 255" | "255 < ?n" "?n \<le> 65535" | "65535 < ?n"
    by linarith
  then show ?thesis
  proof cases
    case 1
    then show ?thesis using assms by (simp add: push_data_def read_push_def nth_app)
  next
    case 2
    have b: "unat (of_nat ?n :: byte) = ?n" using 2 by (simp add: unat_of_nat_byte)
    then have "(of_nat ?n :: byte) \<noteq> 0" "(of_nat ?n :: byte) \<le> 0x4b"
      using 2 by (auto simp: word_le_nat_alt)
    moreover have "d \<noteq> []" using 2 by auto
    ultimately show ?thesis using 2 assms b by (simp add: push_data_def read_push_def nth_app Let_def)
  next
    case 3
    have b: "unat (of_nat ?n :: byte) = ?n" using 3 by (simp add: unat_of_nat_byte)
    have "d \<noteq> []" using 3 by auto
    then show ?thesis using 3 assms b by (simp add: push_data_def read_push_def nth_app Let_def)
  next
    case 4
    have "?n mod 256 + 256 * (?n div 256 mod 256) = ?n" using 4 digits256[of ?n] assms(1) by simp
    moreover have "d \<noteq> []" using 4 by auto
    ultimately show ?thesis using 4 assms by (simp add: push_data_def read_push_def nth_app Let_def unat_of_nat_byte)
  next
    case 5
    then have "d \<noteq> []" by auto
    then show ?thesis using 5 assms digits256[OF assms(1)]
      by (simp add: push_data_def read_push_def nth_app Let_def unat_of_nat_byte add.assoc)
  qed
qed

lemma sm_val_pos: "0 < sm_val bs \<Longrightarrow> int (le_nat bs) = sm_val bs"
proof -
  assume a: "0 < sm_val bs"
  then have ne: "bs \<noteq> []" by (auto simp: sm_val_def)
  then obtain xs t where bs: "bs = xs @ [t]" by (metis append_butlast_last_id)
  have "\<not> 128 \<le> unat t"
  proof
    assume "128 \<le> unat t"
    then have "sm_val bs \<le> 0" by (simp add: bs sm_val_snoc Let_def del: of_nat_add)
    then show False using a by simp
  qed
  then show ?thesis by (simp add: bs sm_val_snoc le_nat_append)
qed

lemma state_int_push_decodes:
  assumes "bn_lib_ok L" "bn_in_ok I" "0 \<le> n"
  shows "\<exists>d. state_int_push L n = Inr (push_data d) \<and> decode_state_int I d = n"
proof (cases "n = 0")
  case True
  then show ?thesis using assms(2)
    by (intro exI[of _ "[0x00]"]) (simp add: state_int_push_def decode_state_int_def bn_in_ok_def)
next
  case False
  obtain bs where bs: "int2bytestring_minimal L n = Inr bs" "sm_val bs = n"
    using int2bytestring_minimal_spec[OF assms(1), of n] by blast
  then have "int (le_nat bs) = n" using sm_val_pos[of bs] assms(3) False by simp
  then show ?thesis using bs False assms(2)
    by (intro exI[of _ bs]) (simp add: state_int_push_def decode_state_int_def bn_in_ok_def)
qed

text \<open>A run of pushed state integers is read back, wherever it stands.\<close>

lemma read_state_ints_pushes:
  "length (concat (map push_data ds)) < 2 ^ 32 \<Longrightarrow> length pre + length (concat (map push_data ds)) \<le> fin \<Longrightarrow>
   read_state_ints I (pre @ concat (map push_data ds) @ post) fin (length ds) (length pre) =
     Inr (map (decode_state_int I) ds, length pre + length (concat (map push_data ds)))"
proof (induction ds arbitrary: pre)
  case (Cons d ds)
  have l: "length d \<le> length (push_data d)" by (rule length_push_data)
  have "read_push (pre @ push_data d @ concat (map push_data ds) @ post) fin (length pre) =
      Inr (d, length pre + length (push_data d))"
    using Cons.prems l by (intro read_push_push_data) auto
  moreover have "read_state_ints I ((pre @ push_data d) @ concat (map push_data ds) @ post) fin (length ds)
      (length (pre @ push_data d)) =
      Inr (map (decode_state_int I) ds, length (pre @ push_data d) + length (concat (map push_data ds)))"
    using Cons.prems by (intro Cons.IH) auto
  ultimately show ?case by simp
qed simp

definition agent_artifact :: "scrypt_artifact_t \<Rightarrow> bool" where
  "agent_artifact art \<longleftrightarrow> stateful art \<and>
     map param_type (state_props art) = SCRYPT_TYPE_PUBKEY # replicate 5 SCRYPT_TYPE_INT"

definition state_nonneg :: "agent_tea_state_t \<Rightarrow> bool" where
  "state_nonneg s \<longleftrightarrow> 0 \<le> tx_count s \<and> 0 \<le> at_spent_in_window s \<and> 0 \<le> at_window_start s \<and> 0 \<le> tier s \<and>
     0 \<le> recovery_count s"

lemma agent_artifact_props:
  assumes "agent_artifact art"
  obtains p0 p1 p2 p3 p4 p5 where "state_props art = [p0, p1, p2, p3, p4, p5]" "param_type p0 = SCRYPT_TYPE_PUBKEY"
    "param_type p1 = SCRYPT_TYPE_INT" "param_type p2 = SCRYPT_TYPE_INT" "param_type p3 = SCRYPT_TYPE_INT"
    "param_type p4 = SCRYPT_TYPE_INT" "param_type p5 = SCRYPT_TYPE_INT"
  using assms by (auto simp: agent_artifact_def map_eq_Cons_conv numeral_eq_Suc)

lemma agent_state_vals:
  assumes "bn_lib_ok L" "bn_in_ok I" "agent_artifact art" "state_nonneg s" "ag \<noteq> []"
    and "state_values_push L (state_props art) 0 (agent_state_args ag s) = Inr vals"
  obtains ds where "vals = push_data ag @ concat (map push_data ds)" "length ds = 5"
    "map (decode_state_int I) ds = [tx_count s, at_spent_in_window s, at_window_start s, tier s, recovery_count s]"
proof -
  obtain p0 p1 p2 p3 p4 p5 where p: "state_props art = [p0, p1, p2, p3, p4, p5]"
    and t: "param_type p0 = SCRYPT_TYPE_PUBKEY" "param_type p1 = SCRYPT_TYPE_INT" "param_type p2 = SCRYPT_TYPE_INT"
      "param_type p3 = SCRYPT_TYPE_INT" "param_type p4 = SCRYPT_TYPE_INT" "param_type p5 = SCRYPT_TYPE_INT"
    using agent_artifact_props[OF assms(3)] by blast
  note dec = state_int_push_decodes[OF assms(1,2)]
  obtain d1 d2 d3 d4 d5 where
    d: "state_int_push L (tx_count s) = Inr (push_data d1)" "decode_state_int I d1 = tx_count s"
      "state_int_push L (at_spent_in_window s) = Inr (push_data d2)" "decode_state_int I d2 = at_spent_in_window s"
      "state_int_push L (at_window_start s) = Inr (push_data d3)" "decode_state_int I d3 = at_window_start s"
      "state_int_push L (tier s) = Inr (push_data d4)" "decode_state_int I d4 = tier s"
      "state_int_push L (recovery_count s) = Inr (push_data d5)" "decode_state_int I d5 = recovery_count s"
    using assms(4) dec[of "tx_count s"] dec[of "at_spent_in_window s"] dec[of "at_window_start s"]
      dec[of "tier s"] dec[of "recovery_count s"] unfolding state_nonneg_def by metis
  have "vals = push_data ag @ concat (map push_data [d1, d2, d3, d4, d5])"
    using assms(5,6) d t by (auto simp: p agent_state_args_def state_value_push_def)
  then show thesis using d by (intro that[of "[d1, d2, d3, d4, d5]"]) simp_all
qed

lemma le_nat_4: "length lf = 4 \<Longrightarrow>
  le_nat lf = unat (lf ! 0) + 256 * unat (lf ! 1) + 65536 * unat (lf ! 2) + 16777216 * unat (lf ! 3)"
  by (subst list_eq_nth_4) auto

lemma nth_lf: "length lf = 4 \<Longrightarrow> k < 4 \<Longrightarrow> (pre @ lf @ [v]) ! (length pre + k) = lf ! k"
  by (simp add: nth_append)

lemma agent_tea_from_tx_blob:
  assumes "length lf = 4" "le_nat lf = Suc (length (push_data ag @ concat (map push_data ds)))"
    and "length ag = 33" "length ds = 5" "length (concat (map push_data ds)) < 2 ^ 32"
    and "map (decode_state_int I) ds = [a, b, c, d, e]"
  shows "agent_tea_from_tx I (code @ fl # push_data ag @ concat (map push_data ds) @ lf @ [v]) =
    Inr (\<lparr>tx_count = a, at_spent_in_window = b, at_window_start = c, tier = d, recovery_count = e\<rparr>, ag)"
proof -
  let ?c = "concat (map push_data ds)"
  let ?pre = "code @ [fl]"
  define scr where "scr = ?pre @ push_data ag @ ?c @ lf @ [v]"
  define fin where "fin = length ?pre + length (push_data ag) + length ?c"
  have len: "length scr = fin + 5" using assms(1) by (simp add: scr_def fin_def)
  have nth: "scr ! (fin + k) = lf ! k" if "k < 4" for k
    using nth_lf[OF assms(1) that, of "?pre @ push_data ag @ ?c" v] by (simp add: scr_def fin_def add.assoc)
  have idx: "length scr - 5 = fin + 0" "length scr - 4 = fin + 1" "length scr - 3 = fin + 2" "length scr - 2 = fin + 3"
    unfolding len by simp_all
  have sl: "unat (scr ! (length scr - 5)) + 256 * unat (scr ! (length scr - 4)) + 65536 * unat (scr ! (length scr - 3))
      + 16777216 * unat (scr ! (length scr - 2)) = Suc (length (push_data ag) + length ?c)"
    unfolding idx using le_nat_4[OF assms(1)] assms(2) nth[of 0] nth[of 1] nth[of 2] nth[of 3] by simp
  have bs: "length scr - 5 - Suc (length (push_data ag) + length ?c) + 1 = length ?pre" unfolding len fin_def by simp
  have r1: "read_push scr fin (length ?pre) = Inr (ag, length (?pre @ push_data ag))"
    using read_push_push_data[of ag ?pre fin "?c @ lf @ [v]"] assms(3) by (simp add: scr_def fin_def)
  have r2: "read_state_ints I scr fin 5 (length (?pre @ push_data ag)) = Inr (map (decode_state_int I) ds, fin)"
    using read_state_ints_pushes[OF assms(5), of "?pre @ push_data ag" fin I "lf @ [v]"] assms(4)
    by (simp add: scr_def fin_def)
  have f5: "length scr - 5 = fin" unfolding len by simp
  have "agent_tea_from_tx I scr = Inr (\<lparr>tx_count = a, at_spent_in_window = b, at_window_start = c, tier = d, recovery_count = e\<rparr>, ag)"
  proof -
    have "\<not> (Suc (length (push_data ag) + length ?c) < 1 \<or> Suc (length (push_data ag) + length ?c) + 5 > length scr)"
      "\<not> length scr < 5" unfolding len fin_def by auto
    then show ?thesis unfolding agent_tea_from_tx_def Let_def sl bs unfolding f5 r1 using r2 assms(3,6)
      by (simp add: numeral_eq_Suc)
  qed
  then have "agent_tea_from_tx I (?pre @ push_data ag @ ?c @ lf @ [v]) =
      Inr (\<lparr>tx_count = a, at_spent_in_window = b, at_window_start = c, tier = d, recovery_count = e\<rparr>, ag)"
    unfolding scr_def .
  then show ?thesis by simp
qed

lemma reconstruct_stateful_InrD:
  assumes "reconstruct_locking_script L art cvs svs g = Inr scr" "stateful art"
  shows "\<exists>code blob. build_state L (state_props art) svs g = Inr blob \<and> scr = code @ [0x6a] @ blob"
proof -
  obtain lfs tmpl where t: "flatten_args art cvs = Inr lfs" "substitute_leaves L lfs (hex_template art) = Inr tmpl"
    using assms(1) by (auto simp: reconstruct_locking_script_def res_bind_Inr_iff)
  show ?thesis
    by (cases "hex_decode tmpl") (use assms t in \<open>auto simp: reconstruct_locking_script_def res_bind_Inr_iff\<close>)
qed

section \<open>Properties\<close>

text \<open>
  C29. A restarted agent resumes exactly where the chain is: whatever locking script is built for
  an agent with non-negative counters, with its own key or a rotated one, decoding that script
  returns the very state and key it was built from.
\<close>

theorem agent_tea_from_tx_resumes:
  assumes "bn_lib_ok L" "bn_in_ok I" "agent_artifact (artifact c)" "state_nonneg (at_state c)"
    and "ag = (case state_agent of Some a \<Rightarrow> a | None \<Rightarrow> agent (params c))" "length ag = 33"
    and "agent_tea_locking_script_ex L c g state_agent = Inr scr"
  shows "agent_tea_from_tx I scr = Inr (at_state c, ag)"
proof -
  let ?ps = "state_props (artifact c)" and ?vs = "agent_state_args ag (at_state c)"
  have st: "stateful (artifact c)" using assms(3) by (simp add: agent_artifact_def)
  obtain code blob where b: "build_state L ?ps ?vs g = Inr blob" "scr = code @ [0x6a] @ blob"
    using reconstruct_stateful_InrD[OF assms(7)[unfolded agent_tea_locking_script_ex_def assms(5)[symmetric]] st]
    by blast
  obtain vals lf where v: "state_values_push L ?ps 0 ?vs = Inr vals" "length lf = 4" "sm_val lf = int (Suc (length vals))"
    "blob = (if g then 0x01 else 0x00) # vals @ lf @ [BONSAI_SCRYPT_STATE_VERSION]"
    using build_state_shape[OF assms(1) b(1)] by blast
  have ne: "ag \<noteq> []" using assms(6) by auto
  obtain ds where d: "vals = push_data ag @ concat (map push_data ds)" "length ds = 5"
    "map (decode_state_int I) ds = [tx_count (at_state c), at_spent_in_window (at_state c), at_window_start (at_state c),
       tier (at_state c), recovery_count (at_state c)]"
    using agent_state_vals[OF assms(1-4) ne v(1)] by blast
  have "?ps \<noteq> []" by (rule agent_artifact_props[OF assms(3)]) simp
  then have "length vals < 2 ^ 31" using build_state_succeeds[OF assms(1) v(1) disjI2, of g] b(1) by auto
  then have l: "length (concat (map push_data ds)) < 2 ^ 32" using d(1) by simp
  have "le_nat lf = Suc (length vals)" using sm_val_pos[of lf] v(3) by simp
  from agent_tea_from_tx_blob[OF v(2) this[unfolded d(1)] assms(6) d(2) l d(3),
      of "code @ [0x6a]" "if g then 0x01 else 0x00" BONSAI_SCRYPT_STATE_VERSION]
  show ?thesis unfolding b(2) v(4) d(1) by simp
qed

definition demo_agent_artifact :: scrypt_artifact_t where
  "demo_agent_artifact = \<lparr>contract = ''AgentTea'', hex_template = ''51'',
     ctor_params = replicate 12 \<lparr>param_name = ''p'', param_type = SCRYPT_TYPE_INT, type_name = ''int''\<rparr>,
     structs = [],
     state_props = \<lparr>param_name = ''agent'', param_type = SCRYPT_TYPE_PUBKEY, type_name = ''PubKey''\<rparr> #
       replicate 5 \<lparr>param_name = ''n'', param_type = SCRYPT_TYPE_INT, type_name = ''int''\<rparr>,
     stateful = True\<rparr>"

definition demo_agent :: agent_tea_t where
  "demo_agent = \<lparr>artifact = demo_agent_artifact,
     params = \<lparr>owner = replicate 33 2, agent = replicate 33 2, ricardian_hash = replicate 32 7,
       at_per_tx_limit = 5, at_daily_limit = 5, at_window_duration = 5, graduation_threshold = 5,
       validator_threshold = 5, designated_validator_pubkey = 5, validator_rabin_pubkey = 5,
       recovery_keys = [5, 5, 5], recovery_threshold = 5\<rparr>,
     at_state = agent_tea_genesis_state\<rparr>"

lemma demo_agent_script: "\<exists>scr. agent_tea_locking_script_ex bn_reference demo_agent True None = Inr scr"
proof -
  have t: "to_script_hex bn_reference (ArgBytes TagPubKey (replicate 33 2)) SCRYPT_TYPE_PUBKEY = Inr (33 # replicate 33 2)"
    "to_script_hex bn_reference (ArgBytes TagSha256 (replicate 32 7)) SCRYPT_TYPE_SHA256 = Inr (32 # replicate 32 7)"
    "to_script_hex bn_reference (ArgInt 5) SCRYPT_TYPE_INT = Inr [0x55]"
    "to_script_hex bn_reference (ArgRabin 5) SCRYPT_TYPE_RABIN_PUBKEY = Inr [0x55]"
    by code_simp+
  have h: "hex_encode (33 # replicate 33 2) = Some (hex_encode_loop (33 # replicate 33 2))"
    "hex_encode (32 # replicate 32 7) = Some (hex_encode_loop (32 # replicate 32 7))"
    "hex_encode [0x55] = Some (hex_encode_loop [0x55])"
    by (rule hex_encode_small, simp add: SIZE_MAX_def)+
  have r: "hex_template_replace ''51'' nm v = ''51''" for nm v
    using replace_marker_skip[of "''51''" nm v "[]"] by (simp add: hex_template_replace_def)
  obtain lfs where l: "flatten_args demo_agent_artifact (agent_ctor_args (params demo_agent)) = Inr lfs"
    "map leaf_value lfs = [ArgBytes TagPubKey (replicate 33 2), ArgBytes TagPubKey (replicate 33 2),
       ArgBytes TagSha256 (replicate 32 7), ArgInt 5, ArgInt 5, ArgInt 5, ArgInt 5, ArgInt 5,
       ArgRabin 5, ArgRabin 5, ArgRabin 5, ArgRabin 5, ArgRabin 5, ArgInt 5]"
    by (simp add: flatten_args_def demo_agent_artifact_def demo_agent_def agent_ctor_args_def numeral_eq_Suc)
  have s: "substitute_leaves bn_reference ls ''51'' = Inr ''51''"
    if "set (map leaf_value ls) \<subseteq> {ArgBytes TagPubKey (replicate 33 2), ArgBytes TagSha256 (replicate 32 7), ArgInt 5, ArgRabin 5}"
    for ls using that by (induction ls) (auto simp: t h r)
  have "set (map leaf_value lfs) \<subseteq> {ArgBytes TagPubKey (replicate 33 2), ArgBytes TagSha256 (replicate 32 7), ArgInt 5, ArgRabin 5}"
    unfolding l(2) by simp
  then have "substitute_leaves bn_reference lfs ''51'' = Inr ''51''" by (rule s)
  moreover have "hex_decode ''51'' = Inr [0x51]" by code_simp
  moreover have "\<exists>blob. build_state bn_reference (state_props demo_agent_artifact)
      (agent_state_args (agent (params demo_agent)) (at_state demo_agent)) True = Inr blob"
  proof -
    have "state_values_push bn_reference (state_props demo_agent_artifact) 0
        (agent_state_args (agent (params demo_agent)) (at_state demo_agent)) =
      Inr ((33 # replicate 33 2) @ [1, 0, 1, 0, 1, 0, 1, 1, 1, 0])" by code_simp
    from build_state_succeeds[OF bn_reference_ok this] show ?thesis by (simp add: demo_agent_artifact_def)
  qed
  ultimately show ?thesis
    using l(1) by (auto simp: agent_tea_locking_script_ex_def reconstruct_locking_script_def demo_agent_def
        demo_agent_artifact_def)
qed

theorem agent_tea_from_tx_resumes_witness:
  "\<exists>scr. agent_tea_locking_script_ex bn_reference demo_agent True None = Inr scr \<and>
     agent_tea_from_tx demo_bn_in scr = Inr (agent_tea_genesis_state, replicate 33 2)"
proof -
  obtain scr where scr: "agent_tea_locking_script_ex bn_reference demo_agent True None = Inr scr"
    using demo_agent_script by blast
  have d: "at_state demo_agent = agent_tea_genesis_state" "agent (params demo_agent) = replicate 33 2"
    by (simp_all add: demo_agent_def)
  have "bn_in_ok demo_bn_in" by (simp add: bn_in_ok_def demo_bn_in_def)
  moreover have "agent_artifact (artifact demo_agent)"
    by (simp add: agent_artifact_def demo_agent_def demo_agent_artifact_def)
  moreover have "state_nonneg (at_state demo_agent)"
    by (simp add: state_nonneg_def demo_agent_def agent_tea_genesis_state_def)
  ultimately show ?thesis
    using agent_tea_from_tx_resumes[OF bn_reference_ok _ _ _ _ _ scr, of demo_bn_in "replicate 33 2"] scr d by simp
qed

text \<open>
  One request at both meters: the broker charges its accountant and, when it grants the charge,
  the contract is moved by the same amount at the same time.
\<close>

fun meter_run :: "window_accountant_t \<times> agent_tea_t \<Rightarrow> (int \<times> int) list \<Rightarrow> window_accountant_t \<times> agent_tea_t" where
  "meter_run (acc, c) [] = (acc, c)"
| "meter_run (acc, c) ((amount, now) # rs) =
     (case window_accountant_charge acc amount now of (acc', r) \<Rightarrow>
        meter_run (acc', if ch_allowed r then c\<lparr>at_state := agent_tea_apply_action c amount now\<rparr> else c) rs)"

definition meters_match :: "window_accountant_t \<Rightarrow> agent_tea_t \<Rightarrow> bool" where
  "meters_match acc c \<longleftrightarrow>
     per_call (acc_envelope acc) = at_per_tx_limit (params c) \<and>
     per_window (acc_envelope acc) = at_daily_limit (params c) \<and>
     window_duration (acc_envelope acc) = at_window_duration (params c) \<and>
     window_accountant_snapshot acc = (at_spent_in_window (at_state c), at_window_start (at_state c)) \<and>
     0 \<le> spent_in_window acc \<and> spent_in_window acc \<le> per_window (acc_envelope acc) \<and>
     (\<not> started acc \<longrightarrow> at_spent_in_window (at_state c) = 0 \<and> at_window_start (at_state c) = 0)"

lemma meters_match_step:
  assumes m: "meters_match acc c" and i: "i64 (at_daily_limit (params c))"
    and n: "at_window_duration (params c) \<le> now"
    and r: "window_accountant_charge acc amount now = (acc', r)"
  shows "meters_match acc' (if ch_allowed r then c\<lparr>at_state := agent_tea_apply_action c amount now\<rparr> else c)"
    and "ch_allowed r \<Longrightarrow> 0 < amount \<and> amount \<le> at_per_tx_limit (params c)"
proof -
  let ?roll = "\<not> started acc \<or> now - window_start acc \<ge> window_duration (acc_envelope acc)"
  let ?next = "(if ?roll then 0 else spent_in_window acc) + amount"
  have roll: "?roll \<longleftrightarrow> now - at_window_start (at_state c) \<ge> at_window_duration (params c)"
    using m n by (auto simp: meters_match_def window_accountant_snapshot_def)
  consider "amount \<le> 0 \<or> amount > per_call (acc_envelope acc)" "\<not> ch_allowed r" "acc' = acc"
    | "0 < amount" "amount \<le> per_call (acc_envelope acc)" "?next > per_window (acc_envelope acc)" "\<not> ch_allowed r" "acc' = acc"
    | "0 < amount" "amount \<le> per_call (acc_envelope acc)" "\<not> ?next > per_window (acc_envelope acc)" "ch_allowed r"
      "acc' = acc\<lparr>spent_in_window := to_i64 ?next, window_start := (if ?roll then now else window_start acc), started := True\<rparr>"
    using r by (auto simp: window_accountant_charge_def accountant_deny_def Let_def split: if_splits)
  then have "meters_match acc' (if ch_allowed r then c\<lparr>at_state := agent_tea_apply_action c amount now\<rparr> else c) \<and>
    (ch_allowed r \<longrightarrow> 0 < amount \<and> amount \<le> at_per_tx_limit (params c))"
  proof cases
    case 3
    have "0 \<le> ?next" using 3(1) m by (auto simp: meters_match_def)
    then have "to_i64 ?next = ?next"
      using 3(3) i m by (intro to_i64_id) (auto simp: i64_def meters_match_def)
    then show ?thesis using 3 m roll
      by (auto simp: meters_match_def window_accountant_snapshot_def agent_tea_apply_action_def Let_def)
  qed (use m in auto)
  then show "meters_match acc' (if ch_allowed r then c\<lparr>at_state := agent_tea_apply_action c amount now\<rparr> else c)"
    "ch_allowed r \<Longrightarrow> 0 < amount \<and> amount \<le> at_per_tx_limit (params c)" by auto
qed

lemma meter_run_match:
  "meters_match acc c \<Longrightarrow> i64 (at_daily_limit (params c)) \<Longrightarrow>
   list_all (\<lambda>(amount, now). at_window_duration (params c) \<le> now) rs \<Longrightarrow>
   meter_run (acc, c) rs = (acc', c') \<Longrightarrow> meters_match acc' c' \<and> params c' = params c"
proof (induction rs arbitrary: acc c)
  case (Cons r rs)
  obtain amount now where r: "r = (amount, now)" by (cases r)
  obtain acc1 res where ch: "window_accountant_charge acc amount now = (acc1, res)"
    by (cases "window_accountant_charge acc amount now")
  let ?c = "if ch_allowed res then c\<lparr>at_state := agent_tea_apply_action c amount now\<rparr> else c"
  have "meters_match acc1 ?c"
    using meters_match_step(1)[OF Cons.prems(1,2) _ ch] Cons.prems(3) r by simp
  moreover have "params ?c = params c" by simp
  ultimately show ?case using Cons.IH[of acc1 ?c] Cons.prems r ch by simp
qed simp

text \<open>
  C27. The broker's meter is the contract's meter. Starting a key from the limits of an identity
  at genesis and moving the contract by every granted charge, the accountant's snapshot is at all
  times the contract's window, so the contract's spending in its window never exceeds the daily
  limit; the clock only has to be past one window duration, which Unix time is.
\<close>

theorem broker_meter_is_contract_meter:
  assumes "at_state c = agent_tea_genesis_state" "i64 (at_daily_limit (params c))" "0 \<le> at_daily_limit (params c)"
    and "list_all (\<lambda>(amount, now). at_window_duration (params c) \<le> now) rs"
    and "meter_run (window_accountant_init (envelope_from_identity
        \<lparr>per_tx_limit = at_per_tx_limit (params c), daily_limit = at_daily_limit (params c),
         window_duration_p = at_window_duration (params c)\<rparr> scs), c) rs = (acc, c')"
  shows "window_accountant_snapshot acc = (at_spent_in_window (at_state c'), at_window_start (at_state c')) \<and>
    0 \<le> at_spent_in_window (at_state c') \<and> at_spent_in_window (at_state c') \<le> at_daily_limit (params c')"
proof -
  have "meters_match (window_accountant_init (envelope_from_identity
        \<lparr>per_tx_limit = at_per_tx_limit (params c), daily_limit = at_daily_limit (params c),
         window_duration_p = at_window_duration (params c)\<rparr> scs)) c"
    using assms(1,3) by (simp add: meters_match_def window_accountant_init_def envelope_from_identity_def
        window_accountant_snapshot_def agent_tea_genesis_state_def)
  from meter_run_match[OF this assms(2,4,5)] show ?thesis
    by (auto simp: meters_match_def window_accountant_snapshot_def)
qed


theorem broker_meter_is_contract_meter_witness:
  "window_accountant_snapshot (fst (meter_run (window_accountant_init (envelope_from_identity
      \<lparr>per_tx_limit = 5, daily_limit = 5, window_duration_p = 5\<rparr> []), demo_agent) [(3, 100), (4, 102), (2, 103)])) = (5, 100)"
proof -
  obtain acc c' where r: "meter_run (window_accountant_init (envelope_from_identity
      \<lparr>per_tx_limit = 5, daily_limit = 5, window_duration_p = 5\<rparr> []), demo_agent) [(3, 100), (4, 102), (2, 103)] = (acc, c')"
    by (cases "meter_run (window_accountant_init (envelope_from_identity
      \<lparr>per_tx_limit = 5, daily_limit = 5, window_duration_p = 5\<rparr> []), demo_agent) [(3, 100), (4, 102), (2, 103)]")
  have "window_accountant_snapshot acc = (at_spent_in_window (at_state c'), at_window_start (at_state c'))"
    using broker_meter_is_contract_meter[of demo_agent "[(3, 100), (4, 102), (2, 103)]" "[]" acc c'] r
    by (simp add: demo_agent_def i64_def)
  moreover have "at_state (snd (meter_run (window_accountant_init (envelope_from_identity
      \<lparr>per_tx_limit = 5, daily_limit = 5, window_duration_p = 5\<rparr> []), demo_agent) [(3, 100), (4, 102), (2, 103)])) =
      \<lparr>tx_count = 2, at_spent_in_window = 5, at_window_start = 100, tier = 1, recovery_count = 0\<rparr>" by code_simp
  ultimately show ?thesis using r by simp
qed

section \<open>Messages commit to their fields\<close>

lemma receipt_preimage_inj:
  assumes L: "bn_lib_ok L" and len: "length cp = 33" "length cp' = 33" "length ah = 32" "length ah' = 32"
      "length ph = 32" "length ph' = 32"
    and p: "agent_tea_receipt_preimage L c cp amt ah ph now = Inr x"
      "agent_tea_receipt_preimage L c' cp' amt' ah' ph' now' = Inr x"
  shows "ricardian_hash (params c) = ricardian_hash (params c') \<and> agent (params c) = agent (params c') \<and> cp = cp' \<and>
    amt = amt' \<and> ah = ah' \<and> ph = ph' \<and> tx_count (at_state c) = tx_count (at_state c') \<and> now = now'"
proof -
  obtain a t n where e: "int2bytestring_sized L amt 8 = Inr a" "int2bytestring_sized L (tx_count (at_state c)) 8 = Inr t"
      "int2bytestring_sized L now 4 = Inr n" "length (ricardian_hash (params c)) = 32" "length (agent (params c)) = 33"
      "x = ricardian_hash (params c) @ agent (params c) @ cp @ a @ ah @ ph @ t @ n"
    using p(1) by (auto simp: agent_tea_receipt_preimage_def res_bind_Inr_iff split: if_splits)
  obtain a' t' n' where e': "int2bytestring_sized L amt' 8 = Inr a'" "int2bytestring_sized L (tx_count (at_state c')) 8 = Inr t'"
      "int2bytestring_sized L now' 4 = Inr n'" "length (ricardian_hash (params c')) = 32" "length (agent (params c')) = 33"
      "x = ricardian_hash (params c') @ agent (params c') @ cp' @ a' @ ah' @ ph' @ t' @ n'"
    using p(2) by (auto simp: agent_tea_receipt_preimage_def res_bind_Inr_iff split: if_splits)
  have l: "length a = 8" "length a' = 8" "length t = 8" "length t' = 8"
    using e(1,2) e'(1,2) sized_length[OF L] by auto
  have f: "ricardian_hash (params c) = ricardian_hash (params c')" "agent (params c) = agent (params c')"
    "cp = cp'" "a = a'" "ah = ah'" "ph = ph'" "t = t'" "n = n'"
    using e(4-6) e'(4-6) len l by auto
  have "amt = amt'" using e(1) e'(1) f(4) sized_inj[OF L] by simp
  moreover have "tx_count (at_state c) = tx_count (at_state c')" using e(2) e'(2) f(7) sized_inj[OF L] by simp
  moreover have "now = now'" using e(3) e'(3) f(8) sized_inj[OF L] by simp
  ultimately show ?thesis using f by simp
qed

text \<open>
  What the agent's counterparties and guardians sign or hash is unambiguous. Two equal
  receipt hashes come from the same charter, agent key, counterparty, amount, action, provenance,
  action number and time, unless SHA-256 collides on the two preimages; two equal attestation
  messages from the same charter, key, validator, amount, limit and receipt, although the
  validator's key is written in variable width; and no attestation is ever a recovery message.
\<close>

theorem agent_messages_commit:
  assumes "bn_lib_ok L" "\<forall>x. length (sha x) = 32"
    and "length cp = 33" "length cp' = 33" "length ah = 32" "length ah' = 32" "length ph = 32" "length ph' = 32"
    and "length rh = 32" "length rh' = 32" "length ag = 33" "length ag' = 33" "length rcp = 32" "length rcp' = 32"
  shows "(agent_tea_receipt_preimage L c cp amt ah ph now = Inr x \<and>
     agent_tea_receipt_preimage L c' cp' amt' ah' ph' now' = Inr y \<and> (x = y \<or> sha x \<noteq> sha y) \<and>
     agent_tea_receipt_hash L sha c cp amt ah ph now = agent_tea_receipt_hash L sha c' cp' amt' ah' ph' now' \<longrightarrow>
     ricardian_hash (params c) = ricardian_hash (params c') \<and> agent (params c) = agent (params c') \<and> cp = cp' \<and>
     amt = amt' \<and> ah = ah' \<and> ph = ph' \<and> tx_count (at_state c) = tx_count (at_state c') \<and> now = now') \<and>
   (agent_tea_attestation_msg L rh ag vp amt lim rcp = Inr m \<and> agent_tea_attestation_msg L rh' ag' vp' amt' lim' rcp' = Inr m \<longrightarrow>
     rh = rh' \<and> ag = ag' \<and> vp = vp' \<and> amt = amt' \<and> lim = lim' \<and> rcp = rcp') \<and>
   \<not> (agent_tea_attestation_msg L rh ag vp amt lim rcp = Inr m \<and> agent_tea_recovery_msg L rh' ag' rc = Inr m)"
proof (intro conjI impI notI; elim conjE)
  assume p: "agent_tea_receipt_preimage L c cp amt ah ph now = Inr x"
      "agent_tea_receipt_preimage L c' cp' amt' ah' ph' now' = Inr y" "x = y \<or> sha x \<noteq> sha y"
      "agent_tea_receipt_hash L sha c cp amt ah ph now = agent_tea_receipt_hash L sha c' cp' amt' ah' ph' now'"
  have h: "hex_encode (sha z) = Some (hex_encode_loop (sha z))" for z
    using assms(2) by (intro hex_encode_small) (simp add: SIZE_MAX_def)
  have "sha x = sha y" using p(1,2,4) by (simp add: agent_tea_receipt_hash_def h)
  then have "x = y" using p(3) by blast
  then show "ricardian_hash (params c) = ricardian_hash (params c')" "agent (params c) = agent (params c')" "cp = cp'"
    "amt = amt'" "ah = ah'" "ph = ph'" "tx_count (at_state c) = tx_count (at_state c')" "now = now'"
    using receipt_preimage_inj[OF assms(1,3-8) p(1)] p(2) by blast+
next
  assume m: "agent_tea_attestation_msg L rh ag vp amt lim rcp = Inr m" "agent_tea_attestation_msg L rh' ag' vp' amt' lim' rcp' = Inr m"
  obtain v a l where e: "int2bytestring_minimal L vp = Inr v" "int2bytestring_sized L amt 8 = Inr a"
    "int2bytestring_sized L lim 8 = Inr l" "m = AGNT_ATTEST_TAG @ rh @ ag @ v @ a @ l @ rcp"
    using m(1) by (auto simp: agent_tea_attestation_msg_def res_bind_Inr_iff)
  obtain v' a' l' where e': "int2bytestring_minimal L vp' = Inr v'" "int2bytestring_sized L amt' 8 = Inr a'"
    "int2bytestring_sized L lim' 8 = Inr l'" "m = AGNT_ATTEST_TAG @ rh' @ ag' @ v' @ a' @ l' @ rcp'"
    using m(2) by (auto simp: agent_tea_attestation_msg_def res_bind_Inr_iff)
  have l: "length a = 8" "length a' = 8" "length l = 8" "length l' = 8"
    using e(2,3) e'(2,3) sized_length[OF assms(1)] by auto
  have eq: "AGNT_ATTEST_TAG @ rh @ ag @ v @ a @ l @ rcp = AGNT_ATTEST_TAG @ rh' @ ag' @ v' @ a' @ l' @ rcp'"
    using e(4) e'(4) by simp
  have "length v = length v'" using arg_cong[OF eq, of length] l assms by simp
  then have f: "rh = rh'" "ag = ag'" "v = v'" "a = a'" "l = l'" "rcp = rcp'" using eq l assms by auto
  show "rh = rh'" "ag = ag'" "rcp = rcp'" by (fact f)+
  show "vp = vp'" using e(1) e'(1) f(3) minimal_inj[OF assms(1)] by simp
  show "amt = amt'" using e(2) e'(2) f(4) sized_inj[OF assms(1)] by simp
  show "lim = lim'" using e(3) e'(3) f(5) sized_inj[OF assms(1)] by simp
next
  assume "agent_tea_attestation_msg L rh ag vp amt lim rcp = Inr m" "agent_tea_recovery_msg L rh' ag' rc = Inr m"
  then show False
    by (auto simp: agent_tea_attestation_msg_def agent_tea_recovery_msg_def res_bind_Inr_iff
        AGNT_ATTEST_TAG_def AGNT_RECOVER_TAG_def)
qed

theorem agent_messages_commit_witness:
  "\<nexists>m. agent_tea_attestation_msg bn_reference (replicate 32 1) (replicate 33 2) 77 5 6 (replicate 32 3) = Inr m \<and>
      agent_tea_recovery_msg bn_reference (replicate 32 1) (replicate 33 2) 0 = Inr m"
  using agent_messages_commit[where L = bn_reference and sha = pad32 and cp = "replicate 33 0" and cp' = "replicate 33 0"
      and ah = "replicate 32 0" and ah' = "replicate 32 0" and ph = "replicate 32 0" and ph' = "replicate 32 0"
      and rh = "replicate 32 1" and rh' = "replicate 32 1" and ag = "replicate 33 2" and ag' = "replicate 33 2"
      and rcp = "replicate 32 3" and rcp' = "replicate 32 3" and vp = 77 and amt = 5 and lim = 6 and rc = 0,
      OF bn_reference_ok pad32_length] by auto

end
