(* ===== verification/PrimeNum.thy ===== *)
theory PrimeNum
  imports Prelude
begin

text \<open>
  The elementary number theory that the Rabin signature scheme rests on: Euclid's lemma,
  Fermat's little theorem, square roots modulo a prime of the form \<open>4k + 3\<close>, the Chinese
  remainder step, and the unboundedness of the primes of that form. Integers are used
  throughout, as the model of the sources' big numbers.
\<close>

definition zprime :: "int \<Rightarrow> bool" where
  "zprime p \<longleftrightarrow> 1 < p \<and> (\<forall>d. 0 < d \<longrightarrow> d dvd p \<longrightarrow> d = 1 \<or> d = p)"

lemma zprime_gt1: "zprime p \<Longrightarrow> 1 < p"
  by (simp add: zprime_def)

lemma zprime_coprime: "zprime p \<Longrightarrow> \<not> p dvd a \<Longrightarrow> coprime p a"
proof -
  assume p: "zprime p" and a: "\<not> p dvd a"
  have "0 < gcd p a" using zprime_gt1[OF p] by (simp add: gcd_pos_int)
  then have "gcd p a = 1 \<or> gcd p a = p" using p by (simp add: zprime_def)
  moreover have "gcd p a \<noteq> p" using a by (metis gcd_dvd2)
  ultimately show ?thesis by (simp add: coprime_iff_gcd_eq_1)
qed

lemma zprime_dvd_mult: "zprime p \<Longrightarrow> p dvd a * b \<longleftrightarrow> p dvd a \<or> p dvd b"
  using zprime_coprime[of p a] coprime_dvd_mult_right_iff[of p a b] by auto

lemma zprime_distinct: "zprime p \<Longrightarrow> zprime q \<Longrightarrow> p \<noteq> q \<Longrightarrow> \<not> p dvd q"
  using zprime_gt1[of p] unfolding zprime_def by (metis less_irrefl less_trans zero_less_one)

lemma zprime_choose:
  assumes "zprime p" "0 < k" "k < nat p"
  shows "p dvd int (nat p choose k)"
proof -
  have "k * (nat p choose k) = nat p * ((nat p - 1) choose (k - 1))"
    using assms(2,3) times_binomial_minus1_eq[of k "nat p"] by simp
  then have "int k * int (nat p choose k) = p * int ((nat p - 1) choose (k - 1))"
    using zprime_gt1[OF assms(1)] by (metis int_nat_eq less_imp_le of_nat_mult less_trans zero_less_one)
  then have "p dvd int k * int (nat p choose k)" by simp
  moreover have "\<not> p dvd int k"
    using assms(2,3) zdvd_not_zless[of "int k" p] by simp
  ultimately show ?thesis using zprime_dvd_mult[OF assms(1)] by blast
qed

lemma zprime_binomial:
  assumes "zprime p"
  shows "p dvd (a + 1) ^ nat p - (a ^ nat p + 1)"
proof -
  define n where "n = nat p"
  have n: "1 < n" using zprime_gt1[OF assms] by (simp add: n_def)
  have "(a + 1) ^ n = (\<Sum>k\<le>n. int (n choose k) * a ^ k)"
    using binomial_ring[of a 1 n] by simp
  also have "\<dots> = (\<Sum>k\<in>{0, n}. int (n choose k) * a ^ k) + (\<Sum>k\<in>{..n} - {0, n}. int (n choose k) * a ^ k)"
    using sum.subset_diff[of "{0, n}" "{..n}" "\<lambda>k. int (n choose k) * a ^ k"] n by simp
  also have "(\<Sum>k\<in>{0, n}. int (n choose k) * a ^ k) = a ^ n + 1" using n by simp
  finally have "(a + 1) ^ n - (a ^ n + 1) = (\<Sum>k\<in>{..n} - {0, n}. int (n choose k) * a ^ k)"
    by simp
  also have "p dvd \<dots>"
    using zprime_choose[OF assms] by (intro dvd_sum) (auto simp: n_def)
  finally show ?thesis by (simp add: n_def)
qed

lemma fermat_nat: "zprime p \<Longrightarrow> p dvd int a ^ nat p - int a"
proof (induction a)
  case 0
  then show ?case using zprime_gt1[of p] by (simp add: zero_power)
next
  case (Suc a)
  have "p dvd ((int a + 1) ^ nat p - (int a ^ nat p + 1)) + (int a ^ nat p - int a)"
    using zprime_binomial[OF Suc.prems, of "int a"] Suc by (intro dvd_add) auto
  then show ?case by (simp add: algebra_simps)
qed

lemma fermat_little_int:
  assumes "zprime p" "0 \<le> a" "\<not> p dvd a"
  shows "a ^ (nat p - 1) mod p = 1"
proof -
  have "p dvd a ^ nat p - a" using fermat_nat[OF assms(1), of "nat a"] assms(2) by simp
  moreover have "nat p = Suc (nat p - 1)" using zprime_gt1[OF assms(1)] by simp
  then have "a ^ nat p = a * a ^ (nat p - 1)" by (metis power_Suc)
  ultimately have "p dvd a * (a ^ (nat p - 1) - 1)" by (simp add: algebra_simps)
  then have "p dvd a ^ (nat p - 1) - 1" using assms zprime_dvd_mult by blast
  then have "a ^ (nat p - 1) mod p = 1 mod p" by (simp add: mod_eq_dvd_iff)
  then show ?thesis using zprime_gt1[OF assms(1)] by simp
qed

text \<open>The inverse of a residue by exponentiation, as \<^verbatim>\<open>powerMod(q, p - 2, p) * q\<close>.\<close>

lemma fermat_inverse:
  assumes "zprime p" "0 \<le> a" "\<not> p dvd a"
  shows "(a ^ nat (p - 2) mod p) * a mod p = 1"
proof -
  have "nat p - 1 = Suc (nat (p - 2))" using zprime_gt1[OF assms(1)] by simp
  then have "a ^ nat (p - 2) * a mod p = 1"
    using fermat_little_int[OF assms] by (simp add: mult.commute)
  then show ?thesis by (simp add: mod_mult_left_eq)
qed

text \<open>A square modulo \<open>p = 4k + 3\<close> has \<open>x ^ ((p + 1) / 4)\<close> as a root.\<close>

lemma square_root_3mod4:
  assumes "zprime p" "p mod 4 = 3" "y * y mod p = x mod p"
  shows "(x ^ nat ((p + 1) div 4)) * (x ^ nat ((p + 1) div 4)) mod p = x mod p"
proof -
  define e where "e = nat ((p + 1) div 4)"
  have p: "1 < p" by (rule zprime_gt1[OF assms(1)])
  have "4 * ((p + 1) div 4) = p + 1" using assms(2) by presburger
  then have e4: "4 * e = Suc (nat p)" using p unfolding e_def by linarith
  define z where "z = y mod p"
  have z0: "0 \<le> z" using p by (simp add: z_def)
  have zx: "z * z mod p = x mod p" using assms(3) by (simp add: z_def mod_mult_eq)
  have "x ^ e * x ^ e mod p = x ^ (2 * e) mod p" by (simp add: power_add[symmetric] mult_2)
  also have "\<dots> = (x mod p) ^ (2 * e) mod p" by (simp add: power_mod)
  also have "\<dots> = (z * z) ^ (2 * e) mod p" by (simp add: zx[symmetric] power_mod)
  also have "(z * z) ^ (2 * e) = z ^ (4 * e)"
    by (metis power_mult power2_eq_square mult.assoc mult_2_right numeral_Bit0 mult.left_commute)
  also have "\<dots> = z ^ nat p * z" unfolding e4 by simp
  also have "\<dots> mod p = (z ^ nat p mod p) * z mod p" by (simp add: mod_mult_left_eq)
  also have "z ^ nat p mod p = z mod p"
    using fermat_nat[OF assms(1), of "nat z"] z0 by (simp add: mod_eq_dvd_iff)
  also have "(z mod p) * z mod p = x mod p" by (simp add: mod_mult_left_eq zx)
  finally show ?thesis by (simp add: e_def)
qed

lemma coprime_mod_eq:
  assumes "coprime p (q :: int)" "a mod p = b mod p" "a mod q = b mod q"
  shows "a mod (p * q) = b mod (p * q)"
  using assms by (simp add: mod_eq_dvd_iff divides_mult)

section \<open>Primes of the form 4k + 3\<close>

lemma zprime_divisor:
  fixes n :: int
  assumes "1 < n"
  shows "\<exists>p. zprime p \<and> p dvd n"
  using assms
proof (induction "nat n" arbitrary: n rule: less_induct)
  case less
  show ?case
  proof (cases "zprime n")
    case False
    then obtain d where d: "0 < d" "d dvd n" "d \<noteq> 1" "d \<noteq> n" using less.prems by (auto simp: zprime_def)
    then have "d < n" using less.prems by (metis dual_order.strict_iff_order less_trans zdvd_imp_le zero_less_one)
    then have "\<exists>p. zprime p \<and> p dvd d" using d(1,3) by (intro less.hyps) auto
    with d(2) show ?thesis by (blast intro: dvd_trans)
  qed auto
qed

text \<open>A number that is 3 modulo 4 has a prime factor that is 3 modulo 4.\<close>

lemma zprime_divisor_3mod4:
  fixes n :: int
  assumes "0 < n" "n mod 4 = 3"
  shows "\<exists>p. zprime p \<and> p dvd n \<and> p mod 4 = 3"
  using assms
proof (induction "nat n" arbitrary: n rule: less_induct)
  case less
  have "1 < n" using less.prems by presburger
  then obtain p where p: "zprime p" "p dvd n" using zprime_divisor by blast
  from p(2) obtain m where m: "n = p * m" by (auto simp: dvd_def)
  have p1: "1 < p" by (rule zprime_gt1[OF p(1)])
  have "0 < m" using m less.prems(1) p1 by (simp add: zero_less_mult_iff)
  have "odd n" using less.prems(2) by presburger
  then have odd: "odd p" "odd m" unfolding m by simp_all
  show ?case
  proof (cases "p mod 4 = 3")
    case False
    then have "p mod 4 = 1" using odd(1) by presburger
    then have "n mod 4 = m mod 4" unfolding m by (metis mod_mult_left_eq mult_1)
    then have "m mod 4 = 3" using less.prems by simp
    moreover have "nat m < nat n" unfolding m using p1 \<open>0 < m\<close> by simp
    ultimately have "\<exists>r. zprime r \<and> r dvd m \<and> r mod 4 = 3" using less.hyps \<open>0 < m\<close> by blast
    then show ?thesis unfolding m by (blast intro: dvd_mult)
  qed (use p in blast)
qed

lemma dvd_fact_int: "0 < d \<Longrightarrow> d \<le> int n \<Longrightarrow> d dvd (fact n :: int)"
  by (metis dvd_fact int_dvd_int_iff nat_0_less_mult_iff nat_le_iff of_nat_fact pos_int_cases zero_less_imp_eq_int
      of_nat_0_less_iff of_nat_le_iff less_eq_Suc_le One_nat_def)

lemma primes_3mod4_unbounded: "\<exists>p. zprime p \<and> p mod 4 = 3 \<and> N < p"
proof -
  define F where "F = (fact (nat \<bar>N\<bar> + 1) :: int)"
  have F: "1 \<le> F" unfolding F_def by (rule fact_ge_1)
  have "(4 * F - 1) mod 4 = 3" by presburger
  then obtain p where p: "zprime p" "p dvd 4 * F - 1" "p mod 4 = 3"
    using zprime_divisor_3mod4[of "4 * F - 1"] F by auto
  have "N < p"
  proof (rule ccontr)
    assume "\<not> N < p"
    then have "p dvd F" unfolding F_def
      using zprime_gt1[OF p(1)] by (intro dvd_fact_int) auto
    then have "p dvd 4 * F - (4 * F - 1)" using dvd_diff[of p "4 * F" "4 * F - 1"] p(2) by simp
    moreover have "4 * F - (4 * F - 1) = 1" by simp
    ultimately show False using zprime_gt1[OF p(1)] zdvd_imp_le[of p 1] by simp
  qed
  with p show ?thesis by blast
qed

end
