(* ===== verification/Loops.thy ===== *)
theory Loops
  imports Prelude
begin

text \<open>
  The unbounded loop \<^verbatim>\<open>for (;;) { ... }\<close>. The body maps the loop variables either to their
  values for the next round (\<open>Inl\<close>, the end of the body or a \<^verbatim>\<open>continue\<close>) or to what the loop
  leaves with (\<open>Inr\<close>, a \<^verbatim>\<open>break\<close> or \<^verbatim>\<open>return\<close>). A loop that runs forever is \<open>None\<close>.
\<close>

partial_function (option) until_loop :: "('s \<Rightarrow> 's + 'r) \<Rightarrow> 's \<Rightarrow> 'r option" where
  "until_loop body s = (case body s of Inl s' \<Rightarrow> until_loop body s' | Inr r \<Rightarrow> Some r)"

declare until_loop.simps [code]

lemma until_loop_step: "body s = Inl s' \<Longrightarrow> until_loop body s = until_loop body s'"
  by (simp add: until_loop.simps[of body s])

lemma until_loop_exit: "body s = Inr r \<Longrightarrow> until_loop body s = Some r"
  by (simp add: until_loop.simps[of body s])

text \<open>Partial correctness by an invariant of the loop variables.\<close>

lemma until_loop_inv:
  assumes "until_loop body s = Some r" "P s"
    and "\<And>s s'. P s \<Longrightarrow> body s = Inl s' \<Longrightarrow> P s'"
    and "\<And>s r. P s \<Longrightarrow> body s = Inr r \<Longrightarrow> Q r"
  shows "Q r"
proof -
  have "(\<forall>s s'. P s \<longrightarrow> body s = Inl s' \<longrightarrow> P s') \<longrightarrow> (\<forall>s r. P s \<longrightarrow> body s = Inr r \<longrightarrow> Q r) \<longrightarrow> P s \<longrightarrow> Q r"
  proof (rule until_loop.raw_induct[OF _ assms(1),
        where P = "\<lambda>body s r. (\<forall>s s'. P s \<longrightarrow> body s = Inl s' \<longrightarrow> P s') \<longrightarrow>
          (\<forall>s r. P s \<longrightarrow> body s = Inr r \<longrightarrow> Q r) \<longrightarrow> P s \<longrightarrow> Q r"])
    fix loop body s r
    assume IH: "\<And>body s r. loop body s = Some r \<Longrightarrow> (\<forall>s s'. P s \<longrightarrow> body s = Inl s' \<longrightarrow> P s') \<longrightarrow>
          (\<forall>s r. P s \<longrightarrow> body s = Inr r \<longrightarrow> Q r) \<longrightarrow> P s \<longrightarrow> Q r"
      and r: "(case body s of Inl s' \<Rightarrow> loop body s' | Inr r \<Rightarrow> Some r) = Some r"
    show "(\<forall>s s'. P s \<longrightarrow> body s = Inl s' \<longrightarrow> P s') \<longrightarrow> (\<forall>s r. P s \<longrightarrow> body s = Inr r \<longrightarrow> Q r) \<longrightarrow> P s \<longrightarrow> Q r"
      using IH r by (cases "body s") auto
  qed
  then show ?thesis using assms(2-) by blast
qed

text \<open>Termination by a measure that every further round decreases.\<close>

lemma until_loop_total:
  fixes m :: "'s \<Rightarrow> nat"
  assumes "P s"
    and "\<And>s s'. P s \<Longrightarrow> body s = Inl s' \<Longrightarrow> P s' \<and> m s' < m s"
  shows "\<exists>r. until_loop body s = Some r"
  using assms(1)
proof (induction "m s" arbitrary: s rule: less_induct)
  case less
  show ?case
  proof (cases "body s")
    case (Inl s')
    then show ?thesis using less assms(2)[OF less.prems Inl] by (simp add: until_loop_step)
  qed (simp add: until_loop_exit)
qed

text \<open>A loop whose \<open>k\<close>-th round is the first to leave.\<close>

lemma until_loop_first:
  assumes "\<And>i. i < k \<Longrightarrow> body (st i) = Inl (st (Suc i))" "body (st k) = Inr r"
  shows "until_loop body (st 0) = Some r"
proof -
  have "until_loop body (st (k - j)) = Some r" if "j \<le> k" for j
    using that
  proof (induction j)
    case (Suc j)
    then have "body (st (k - Suc j)) = Inl (st (k - j))"
      using assms(1)[of "k - Suc j"] by (simp add: Suc_diff_Suc)
    with Suc show ?case by (simp add: until_loop_step)
  qed (use assms(2) in \<open>simp add: until_loop_exit\<close>)
  from this[of k] show ?thesis by simp
qed

text \<open>A loop that leaves in no round.\<close>

lemma until_loop_never:
  assumes "\<And>i. body (st i) = Inl (st (Suc i))"
  shows "until_loop body (st 0) = None"
proof (rule ccontr)
  assume "until_loop body (st 0) \<noteq> None"
  then obtain r where "until_loop body (st 0) = Some r" by blast
  then have False
    by (rule until_loop_inv[where P = "\<lambda>s. \<exists>i. s = st i"]) (use assms in auto)
  then show False .
qed

end
