(* ===== verification/Rabin.thy ===== *)
theory Rabin
  imports Spv PrimeNum Loops
begin

text \<open>
  The Rabin signature scheme of \<^verbatim>\<open>src/crypto/rabin.c\<close> and the contract-side adapter of
  \<^verbatim>\<open>src/lib/rabin_verifier.c\<close>: the expanded hash, key generation with its prime search,
  signing by Chinese-remainder square roots, and verification. The modular operations of the
  bignum library are a parameter that may fail; addition, subtraction, multiplication and
  comparison of big numbers are those of the integers. The searches have no bound in the
  sources; they are instances of \<open>until_loop\<close>, and a run that does not end is \<open>None\<close>.
\<close>

section \<open>Model\<close>

record bn_arith =
  BN_nnmod :: "int \<Rightarrow> int \<Rightarrow> int option"
  BN_mod_sqr :: "int \<Rightarrow> int \<Rightarrow> int option"
  BN_mod_exp_consttime :: "int \<Rightarrow> int \<Rightarrow> int \<Rightarrow> int option"

text \<open>
  What the library documents: the least non-negative residue, and modular exponentiation for
  a non-negative exponent and an odd positive modulus, which the constant-time variant needs.
\<close>

definition bn_arith_ok :: "bn_arith \<Rightarrow> bool" where
  "bn_arith_ok A \<longleftrightarrow>
     (\<forall>a m. 0 < m \<longrightarrow> BN_nnmod A a m = Some (a mod m)) \<and>
     (\<forall>a m. 0 < m \<longrightarrow> BN_mod_sqr A a m = Some (a * a mod m)) \<and>
     (\<forall>b e m. 0 < m \<longrightarrow> odd m \<longrightarrow> 0 \<le> e \<longrightarrow> BN_mod_exp_consttime A b e m = Some (b ^ nat e mod m))"

definition bn_ok :: "'a option \<Rightarrow> 'a res" where
  "bn_ok r = (case r of None \<Rightarrow> Inl BNS_ENOMEM | Some x \<Rightarrow> Inr x)"

definition bn_mod :: "bn_arith \<Rightarrow> bn_t \<Rightarrow> bn_t \<Rightarrow> bn_t res" where
  "bn_mod A a m = (if m = 0 then Inl BNS_EINVAL else bn_ok (BN_nnmod A a m))"

definition bn_mod_sqr :: "bn_arith \<Rightarrow> bn_t \<Rightarrow> bn_t \<Rightarrow> bn_t res" where
  "bn_mod_sqr A a m = (if m = 0 then Inl BNS_EINVAL else bn_ok (BN_mod_sqr A a m))"

definition bn_mod_exp_secret :: "bn_arith \<Rightarrow> bn_t \<Rightarrow> bn_t \<Rightarrow> bn_t \<Rightarrow> bn_t res" where
  "bn_mod_exp_secret A base ex m =
     (if m = 0 then Inl BNS_EINVAL else bn_ok (BN_mod_exp_consttime A base ex m))"

text \<open>Long division of a big-endian byte string by a small divisor.\<close>

fun div_loop :: "u32 \<Rightarrow> u32 \<Rightarrow> bytes \<Rightarrow> bytes" where
  "div_loop d r [] = []"
| "div_loop d r (b # bs) =
     (let cur = push_bit 8 r OR ucast b in ucast (cur div d) # div_loop d (cur mod d) bs)"

definition bn_div_small :: "bn_lib \<Rightarrow> bn_in \<Rightarrow> bn_t \<Rightarrow> u32 \<Rightarrow> bn_t res" where
  "bn_div_small L I a d =
     res_bind (bn_to_be_bytes L a) (\<lambda>be. Inr (BN_bin2bn I (div_loop d 0 be)))"

definition BONSAI_RABIN_SECURITY_LEVEL :: nat where "BONSAI_RABIN_SECURITY_LEVEL = 6"
definition BONSAI_RABIN_BIN2HASH_SPLIT :: nat where "BONSAI_RABIN_BIN2HASH_SPLIT = 16"
definition RABIN_MAX_PADDING_BYTES :: nat where "RABIN_MAX_PADDING_BYTES = 4096"

definition rabin_bin2hash :: "(bytes \<Rightarrow> bytes) \<Rightarrow> bytes \<Rightarrow> bytes" where
  "rabin_bin2hash sha d =
     (let h = sha d in
      sha (take BONSAI_RABIN_BIN2HASH_SPLIT h) @
      sha (take (32 - BONSAI_RABIN_BIN2HASH_SPLIT) (drop BONSAI_RABIN_BIN2HASH_SPLIT h)))"

fun expand_loop :: "(bytes \<Rightarrow> bytes) \<Rightarrow> nat \<Rightarrow> bytes \<Rightarrow> bytes" where
  "expand_loop sha 0 acc = acc"
| "expand_loop sha (Suc k) acc = expand_loop sha k (acc @ rabin_bin2hash sha acc)"

definition rabin_hash :: "bn_in \<Rightarrow> (bytes \<Rightarrow> bytes) \<Rightarrow> bytes \<Rightarrow> bn_t" where
  "rabin_hash I sha d =
     BN_lebin2bn I (expand_loop sha (BONSAI_RABIN_SECURITY_LEVEL - 1) (rabin_bin2hash sha d))"

record rabin_key_t =
  key_p :: bn_t
  key_q :: bn_t

record rabin_sig_t =
  sig_s :: bn_t
  padding_byte_count :: nat

subsection \<open>Key generation\<close>

definition gcd_body :: "bn_arith \<Rightarrow> bn_t \<times> bn_t \<Rightarrow> (bn_t \<times> bn_t) + bn_t res" where
  "gcd_body A ab =
     (case ab of (a, b) \<Rightarrow>
        if b = 0 then Inr (Inr a)
        else case bn_mod A a b of Inl e \<Rightarrow> Inr (Inl e) | Inr r \<Rightarrow> Inl (b, r))"

definition bn_gcd_euclid :: "bn_arith \<Rightarrow> bn_t \<Rightarrow> bn_t \<Rightarrow> bn_t res option" where
  "bn_gcd_euclid A a b = until_loop (gcd_body A) (if b > a then (b, a) else (a, b))"

definition small_primes_product :: int where
  "small_primes_product = 3234846615"

text \<open>
  The inner loop of the prime search skips candidates with a small factor. A nested loop that
  does not end leaves the outer one with \<open>None\<close>.
\<close>

definition sieve_body :: "bn_arith \<Rightarrow> bn_t \<Rightarrow> bn_t + bn_t res option" where
  "sieve_body A p =
     (case bn_gcd_euclid A p small_primes_product of
        None \<Rightarrow> Inr None
      | Some (Inl e) \<Rightarrow> Inr (Some (Inl e))
      | Some (Inr g) \<Rightarrow> if g = 1 then Inr (Some (Inr p)) else Inl (p + 4))"

definition sieve_loop :: "bn_arith \<Rightarrow> bn_t \<Rightarrow> bn_t res option" where
  "sieve_loop A p = Option.bind (until_loop (sieve_body A) p) (\<lambda>r. r)"

text \<open>The Fermat tests, left at the first base that fails.\<close>

fun fermat_tests :: "bn_arith \<Rightarrow> bn_t \<Rightarrow> bn_t list \<Rightarrow> bool res" where
  "fermat_tests A p [] = Inr True"
| "fermat_tests A p (a # as) =
     res_bind (bn_mod_exp_secret A a (p - 1) p) (\<lambda>r.
     if r \<noteq> 1 then Inr False else fermat_tests A p as)"

definition next_prime_body :: "bn_arith \<Rightarrow> bn_t \<Rightarrow> bn_t + bn_t res option" where
  "next_prime_body A p0 =
     (case sieve_loop A p0 of
        None \<Rightarrow> Inr None
      | Some (Inl e) \<Rightarrow> Inr (Some (Inl e))
      | Some (Inr p) \<Rightarrow> (case fermat_tests A p [2, 3, 5, 17] of
           Inl e \<Rightarrow> Inr (Some (Inl e))
         | Inr passed \<Rightarrow> if passed then Inr (Some (Inr p)) else Inl (p + 4)))"

definition rabin_calc_next_prime :: "bn_arith \<Rightarrow> bn_t \<Rightarrow> bn_t res option" where
  "rabin_calc_next_prime A p = Option.bind (until_loop (next_prime_body A) p) (\<lambda>r. r)"

definition mod4_body :: "bn_arith \<Rightarrow> bn_t \<Rightarrow> bn_t + bn_t res" where
  "mod4_body A p =
     (case bn_mod A p 4 of
        Inl e \<Rightarrow> Inr (Inl e)
      | Inr r \<Rightarrow> if r = 3 then Inr (Inr p) else Inl (p + 1))"

definition rabin_get_prime_number :: "bn_arith \<Rightarrow> bn_t \<Rightarrow> bn_t res option" where
  "rabin_get_prime_number A p =
     (case until_loop (mod4_body A) p of
        None \<Rightarrow> None
      | Some (Inl e) \<Rightarrow> Some (Inl e)
      | Some (Inr p') \<Rightarrow> rabin_calc_next_prime A p')"

definition rabin_range :: "bn_in \<Rightarrow> bn_t" where
  "rabin_range I = BN_bin2bn I ((replicate 193 0)[0 := 0x01])"

definition rabin_keygen_from_seed ::
  "bn_in \<Rightarrow> bn_arith \<Rightarrow> (bytes \<Rightarrow> bytes) \<Rightarrow> bytes \<Rightarrow> rabin_key_t res option" where
  "rabin_keygen_from_seed I A sha seed =
     (let range' = rabin_range I in
      case bn_mod A (rabin_hash I sha seed) range' of
        Inl e \<Rightarrow> Some (Inl e)
      | Inr p0 \<Rightarrow> (case rabin_get_prime_number A p0 of
          None \<Rightarrow> None
        | Some (Inl e) \<Rightarrow> Some (Inl e)
        | Some (Inr p) \<Rightarrow> (case bn_mod A (rabin_hash I sha (seed @ [0x00])) range' of
            Inl e \<Rightarrow> Some (Inl e)
          | Inr q0 \<Rightarrow> (case rabin_get_prime_number A q0 of
              None \<Rightarrow> None
            | Some (Inl e) \<Rightarrow> Some (Inl e)
            | Some (Inr q) \<Rightarrow> Some (Inr \<lparr>key_p = p, key_q = q\<rparr>)))))"

text \<open>\<open>rnd\<close> is the outcome of \<^verbatim>\<open>rand_bytes_secure(seed, 2048)\<close>.\<close>

definition rabin_keygen ::
  "bn_in \<Rightarrow> bn_arith \<Rightarrow> (bytes \<Rightarrow> bytes) \<Rightarrow> bytes res \<Rightarrow> rabin_key_t res option" where
  "rabin_keygen I A sha rnd =
     (case rnd of
        Inl e \<Rightarrow> Some (Inl BNS_ECRYPTO)
      | Inr seed \<Rightarrow> map_option (\<lambda>r. case r of
            Inl rc \<Rightarrow> Inl (if rc \<noteq> BNS_OK \<and> rc \<noteq> BNS_ENOMEM then BNS_ECRYPTO else rc)
          | Inr k \<Rightarrow> Inr k) (rabin_keygen_from_seed I A sha seed))"

definition rabin_pubkey :: "rabin_key_t \<Rightarrow> bn_t" where
  "rabin_pubkey key = key_p key * key_q key"

subsection \<open>Signing and verification\<close>

definition rabin_crt_root ::
  "bn_lib \<Rightarrow> bn_in \<Rightarrow> bn_arith \<Rightarrow> bn_t \<Rightarrow> bn_t \<Rightarrow> bn_t \<Rightarrow> bn_t \<Rightarrow> bn_t res" where
  "rabin_crt_root L I A x p q n =
     (let pm2 = p - 2; qm2 = q - 2; pp1 = p + 1; qp1 = q + 1 in
      res_bind (bn_div_small L I pp1 4) (\<lambda>exp_p.
      res_bind (bn_div_small L I qp1 4) (\<lambda>exp_q.
      res_bind (bn_mod_exp_secret A q pm2 p) (\<lambda>inv_q_p.
      res_bind (bn_mod_exp_secret A p qm2 q) (\<lambda>inv_p_q.
      res_bind (bn_mod_exp_secret A x exp_p p) (\<lambda>xsp.
      res_bind (bn_mod_exp_secret A x exp_q q) (\<lambda>xsq.
      let termp = inv_q_p * q * xsp; termq = inv_p_q * p * xsq in
      bn_mod A (termp + termq) n)))))))"

definition sign_body ::
  "bn_lib \<Rightarrow> bn_in \<Rightarrow> bn_arith \<Rightarrow> (bytes \<Rightarrow> bytes) \<Rightarrow> rabin_key_t \<Rightarrow> bn_t \<Rightarrow> bytes \<times> nat \<Rightarrow>
   (bytes \<times> nat) + rabin_sig_t res" where
  "sign_body L I A sha key n st =
     (case st of (d, padding) \<Rightarrow>
        (case bn_mod A (rabin_hash I sha d) n of
           Inl e \<Rightarrow> Inr (Inl e)
         | Inr x \<Rightarrow> (case rabin_crt_root L I A x (key_p key) (key_q key) n of
             Inl e \<Rightarrow> Inr (Inl e)
           | Inr s \<Rightarrow> (case bn_mod_sqr A s n of
               Inl e \<Rightarrow> Inr (Inl e)
             | Inr s2 \<Rightarrow>
                 if s2 = x then Inr (Inr \<lparr>sig_s = s, padding_byte_count = padding\<rparr>)
                 else Inl (d @ [0x00], padding + 1)))))"

definition rabin_sign ::
  "bn_lib \<Rightarrow> bn_in \<Rightarrow> bn_arith \<Rightarrow> (bytes \<Rightarrow> bytes) \<Rightarrow> bytes \<Rightarrow> rabin_key_t \<Rightarrow> rabin_sig_t res option" where
  "rabin_sign L I A sha msg key =
     map_option (\<lambda>r. case r of
         Inl rc \<Rightarrow> Inl (if rc \<noteq> BNS_OK \<and> rc \<noteq> BNS_ENOMEM \<and> rc \<noteq> BNS_EINVAL then BNS_ECRYPTO else rc)
       | Inr sg \<Rightarrow> Inr sg)
       (until_loop (sign_body L I A sha key (key_p key * key_q key)) (msg, 0))"

definition rabin_verify ::
  "bn_in \<Rightarrow> bn_arith \<Rightarrow> (bytes \<Rightarrow> bytes) \<Rightarrow> bytes \<Rightarrow> rabin_sig_t \<Rightarrow> bn_t \<Rightarrow> bool" where
  "rabin_verify I A sha msg sg n =
     (if padding_byte_count sg > RABIN_MAX_PADDING_BYTES then False
      else let d = msg @ replicate (padding_byte_count sg) 0x00 in
        case bn_mod A (rabin_hash I sha d) n of
          Inl _ \<Rightarrow> False
        | Inr hmod \<Rightarrow> (case bn_mod_sqr A (sig_s sg) n of Inl _ \<Rightarrow> False | Inr s2 \<Rightarrow> hmod = s2))"

record rabin_verifier_sig_t =
  vsig_s :: bn_t
  vpadding :: "bytes option"
  padding_len :: nat

definition rabin_verifier_verify_sig ::
  "bn_in \<Rightarrow> bn_arith \<Rightarrow> (bytes \<Rightarrow> bytes) \<Rightarrow> bytes \<Rightarrow> rabin_verifier_sig_t \<Rightarrow> bn_t \<Rightarrow> bool" where
  "rabin_verifier_verify_sig I A sha msg sg n =
     (if padding_len sg > RABIN_MAX_PADDING_BYTES then False
      else if padding_len sg > 0 \<and> vpadding sg = None then False
      else if list_ex (\<lambda>b. b \<noteq> 0x00)
                (case vpadding sg of None \<Rightarrow> [] | Some pad \<Rightarrow> take (padding_len sg) pad) then False
      else rabin_verify I A sha msg \<lparr>sig_s = vsig_s sg, padding_byte_count = padding_len sg\<rparr> n)"

definition rabin_verifier_hash :: "bn_in \<Rightarrow> (bytes \<Rightarrow> bytes) \<Rightarrow> bytes \<Rightarrow> bn_t" where
  "rabin_verifier_hash I sha msg = rabin_hash I sha msg"

section \<open>The library operations\<close>

lemma bn_mod_ok: "bn_arith_ok A \<Longrightarrow> 0 < m \<Longrightarrow> bn_mod A a m = Inr (a mod m)"
  by (auto simp: bn_arith_ok_def bn_mod_def bn_ok_def)

lemma bn_mod_sqr_ok: "bn_arith_ok A \<Longrightarrow> 0 < m \<Longrightarrow> bn_mod_sqr A a m = Inr (a * a mod m)"
  by (auto simp: bn_arith_ok_def bn_mod_sqr_def bn_ok_def)

lemma bn_mod_exp_ok:
  "bn_arith_ok A \<Longrightarrow> 0 < m \<Longrightarrow> odd m \<Longrightarrow> 0 \<le> e \<Longrightarrow> bn_mod_exp_secret A b e m = Inr (b ^ nat e mod m)"
  by (auto simp: bn_arith_ok_def bn_mod_exp_secret_def bn_ok_def)

lemmas bn_arith_simps = bn_mod_ok bn_mod_sqr_ok bn_mod_exp_ok

lemma push_or_byte: "unat (r :: u32) < 2 ^ 24 \<Longrightarrow> unat (push_bit 8 r OR ucast (b :: byte)) = 256 * unat r + unat b"
proof -
  assume r: "unat r < 2 ^ 24"
  have "push_bit 8 r AND ucast b = 0"
    by (rule bit_word_eqI) (auto simp: bit_and_iff bit_push_bit_iff bit_ucast_iff dest: bit_byte_iff)
  then have "push_bit 8 r OR ucast b = push_bit 8 r + ucast b" by (simp add: disjunctive_add_eq_or)
  moreover have "unat (push_bit 8 r) = 256 * unat r"
    using r by (simp add: push_bit_eq_mult unat_word_ariths)
  moreover have b: "unat b < 256" using unsigned_less[of b, where 'a = nat] by simp
  moreover have "unat (ucast b :: u32) = unat b" using b by (simp add: unsigned_ucast_eq take_bit_eq_mod)
  ultimately show ?thesis using r by (simp add: unat_word_ariths)
qed

lemma le_nat_rev_Cons: "le_nat (rev (b # bs)) = unat b * 256 ^ length bs + le_nat (rev bs)"
  by (simp add: le_nat_append)

lemma div_loop_length [simp]: "length (div_loop d r bs) = length bs"
  by (induction d r bs rule: div_loop.induct) (auto simp: Let_def)

text \<open>Each step keeps the remainder below the divisor, so a quotient digit fits a byte.\<close>

lemma div_loop_correct:
  assumes "r < d" "unat d \<le> 2 ^ 24"
  shows "le_nat (rev (div_loop d r bs)) = (unat r * 256 ^ length bs + le_nat (rev bs)) div unat d"
  using assms
proof (induction d r bs rule: div_loop.induct)
  case (1 d r)
  then show ?case by (simp add: word_less_nat_alt)
next
  case (2 d r b bs)
  define cur where "cur = push_bit 8 r OR ucast b"
  have r: "unat r < unat d" using "2.prems"(1) by (simp add: word_less_nat_alt)
  have cur: "unat cur = 256 * unat r + unat b"
    unfolding cur_def using r "2.prems"(2) by (intro push_or_byte) linarith
  have b: "unat b < 256" using unsigned_less[of b, where 'a = nat] by simp
  have "unat cur < 256 * unat d" using r b cur by linarith
  then have q: "unat cur div unat d < 256" by (simp add: less_mult_imp_div_less)
  have digit: "unat (ucast (cur div d) :: byte) = unat cur div unat d"
    using q by (simp add: unsigned_ucast_eq unat_div take_bit_eq_mod)
  have "cur mod d < d" using r by (simp add: word_less_nat_alt unat_mod)
  then have IH: "le_nat (rev (div_loop d (cur mod d) bs)) =
      (unat (cur mod d) * 256 ^ length bs + le_nat (rev bs)) div unat d"
    using "2.IH"[OF cur_def] "2.prems"(2) by blast
  have "le_nat (rev (div_loop d r (b # bs))) =
      unat cur div unat d * 256 ^ length bs + (unat cur mod unat d * 256 ^ length bs + le_nat (rev bs)) div unat d"
    using IH digit by (simp only: div_loop.simps Let_def cur_def[symmetric] le_nat_rev_Cons div_loop_length unat_mod)
  also have "\<dots> = (unat d * (unat cur div unat d * 256 ^ length bs) +
      (unat cur mod unat d * 256 ^ length bs + le_nat (rev bs))) div unat d"
    using r by simp
  also have "unat d * (unat cur div unat d * 256 ^ length bs) + (unat cur mod unat d * 256 ^ length bs + le_nat (rev bs)) =
      (unat d * (unat cur div unat d) + unat cur mod unat d) * 256 ^ length bs + le_nat (rev bs)"
    by (simp only: algebra_simps)
  also have "unat d * (unat cur div unat d) + unat cur mod unat d = unat cur" by simp
  finally show ?case unfolding le_nat_rev_Cons cur by (simp add: algebra_simps)
qed

lemma bn_div_small_ok:
  assumes "bn_lib_ok L" "bn_in_ok I" "0 \<le> a" "0 < d" "unat d \<le> 2 ^ 24"
  shows "bn_div_small L I a d = Inr (a div int (unat d))"
proof -
  obtain be where be: "bn_to_be_bytes L a = Inr be" "le_nat (rev be) = nat a"
  proof (cases "BN_num_bytes L a = 0")
    case True
    then have "nat \<bar>a\<bar> < 256 ^ 0" using assms(1) unfolding bn_lib_ok_def by (metis le_refl)
    then show ?thesis using True assms(3) by (intro that[of "[]"]) (auto simp: bn_to_be_bytes_def)
  next
    case False
    then show ?thesis using assms(1,3)
      by (intro that[of "BN_bn2bin L a"]) (auto simp: bn_to_be_bytes_def bn_lib_ok_def)
  qed
  have "le_nat (rev (div_loop d 0 be)) = nat a div unat d"
    using div_loop_correct[of 0 d be] assms(4,5) be(2) by simp
  then show ?thesis using be(1) assms(2,3) by (simp add: bn_div_small_def bn_in_ok_def zdiv_int)
qed

section \<open>Signing\<close>

definition blum_prime :: "int \<Rightarrow> bool" where
  "blum_prime p \<longleftrightarrow> zprime p \<and> p mod 4 = 3"

definition blum_key :: "rabin_key_t \<Rightarrow> bool" where
  "blum_key key \<longleftrightarrow> blum_prime (key_p key) \<and> blum_prime (key_q key) \<and> key_p key \<noteq> key_q key"

definition square_mod :: "int \<Rightarrow> int \<Rightarrow> bool" where
  "square_mod n x \<longleftrightarrow> (\<exists>y. y * y mod n = x mod n)"

lemma blum_prime_facts: "blum_prime p \<Longrightarrow> zprime p \<and> p mod 4 = 3 \<and> odd p \<and> 3 \<le> p"
proof -
  assume p: "blum_prime p"
  then have "1 < p" "p mod 4 = 3" using zprime_gt1[of p] by (auto simp: blum_prime_def)
  then show ?thesis using p unfolding blum_prime_def by presburger
qed

definition crt_root :: "int \<Rightarrow> int \<Rightarrow> int \<Rightarrow> int" where
  "crt_root p q x =
     ((q ^ nat (p - 2) mod p) * q * (x ^ nat ((p + 1) div 4) mod p) +
      (p ^ nat (q - 2) mod q) * p * (x ^ nat ((q + 1) div 4) mod q)) mod (p * q)"

lemma crt_root_commute: "crt_root p q x = crt_root q p x"
  by (simp add: crt_root_def ac_simps)

lemma rabin_crt_root_ok:
  assumes "bn_lib_ok L" "bn_in_ok I" "bn_arith_ok A" "blum_prime p" "blum_prime q"
  shows "rabin_crt_root L I A x p q (p * q) = Inr (crt_root p q x)"
proof -
  have p: "odd p" "3 \<le> p" and q: "odd q" "3 \<le> q"
    using blum_prime_facts[OF assms(4)] blum_prime_facts[OF assms(5)] by auto
  have n: "0 < p * q" using p q by simp
  have d: "bn_div_small L I (p + 1) 4 = Inr ((p + 1) div 4)" "bn_div_small L I (q + 1) 4 = Inr ((q + 1) div 4)"
    using bn_div_small_ok[OF assms(1,2), of "p + 1" 4] bn_div_small_ok[OF assms(1,2), of "q + 1" 4] p q by simp_all
  have e: "0 \<le> (p + 1) div 4" "0 \<le> (q + 1) div 4" "0 \<le> p - 2" "0 \<le> q - 2" "0 < p" "0 < q"
    using p(2) q(2) by (simp_all add: pos_imp_zdiv_nonneg_iff)
  note ex = bn_mod_exp_ok[OF assms(3)]
  show ?thesis
    by (simp only: rabin_crt_root_def Let_def d res_bind.simps ex[OF e(5) p(1) e(1)] ex[OF e(5) p(1) e(3)]
        ex[OF e(6) q(1) e(2)] ex[OF e(6) q(1) e(4)] bn_mod_ok[OF assms(3) n] crt_root_def)
qed

text \<open>Modulo one prime the term of the other vanishes.\<close>

lemma crt_root_mod_p:
  assumes "blum_prime p" "blum_prime q" "p \<noteq> q"
  shows "crt_root p q x mod p = x ^ nat ((p + 1) div 4) mod p"
proof -
  define e where "e = x ^ nat ((p + 1) div 4)"
  define t where "t = (p ^ nat (q - 2) mod q) * (x ^ nat ((q + 1) div 4) mod q)"
  have facts: "zprime p" "zprime q" "3 \<le> q" using blum_prime_facts assms by blast+
  have "(q ^ nat (p - 2) mod p) * q mod p = 1"
    using fermat_inverse[OF facts(1), of q] zprime_distinct[OF facts(1,2) assms(3)] facts(3) by simp
  then have inv: "(q ^ nat (p - 2) mod p) * q * (e mod p) mod p = e mod p"
    by (metis mod_mult_eq mod_mod_trivial mult_1)
  have "crt_root p q x mod p = ((q ^ nat (p - 2) mod p) * q * (e mod p) + t * p) mod p"
    unfolding crt_root_def e_def t_def by (simp add: mod_mod_cancel ac_simps)
  also have "\<dots> = (q ^ nat (p - 2) mod p) * q * (e mod p) mod p" by (simp only: mod_mult_self1)
  finally show ?thesis using inv by (simp add: e_def)
qed

lemma square_mod_dvd: "square_mod n x \<Longrightarrow> p dvd n \<Longrightarrow> square_mod p x"
  unfolding square_mod_def by (metis mod_mod_cancel)

lemma crt_root_square_p:
  assumes "blum_prime p" "blum_prime q" "p \<noteq> q" "square_mod p x"
  shows "crt_root p q x * crt_root p q x mod p = x mod p"
proof -
  define r where "r = x ^ nat ((p + 1) div 4)"
  have "crt_root p q x * crt_root p q x mod p = r * r mod p"
    using crt_root_mod_p[OF assms(1-3), of x] unfolding r_def by (metis mod_mult_eq)
  also have "\<dots> = x mod p"
    using assms(1,4) unfolding r_def square_mod_def blum_prime_def by (metis square_root_3mod4)
  finally show ?thesis .
qed

lemma crt_root_square:
  assumes "blum_prime p" "blum_prime q" "p \<noteq> q" "square_mod (p * q) x"
  shows "crt_root p q x * crt_root p q x mod (p * q) = x mod (p * q)"
proof (rule coprime_mod_eq)
  show "coprime p q"
    using assms zprime_coprime zprime_distinct by (auto simp: blum_prime_def)
  show "crt_root p q x * crt_root p q x mod p = x mod p"
    using assms square_mod_dvd[of "p * q" x p] by (intro crt_root_square_p) auto
  show "crt_root p q x * crt_root p q x mod q = x mod q"
    using assms square_mod_dvd[of "p * q" x q] unfolding crt_root_commute[of p q]
    by (intro crt_root_square_p) auto
qed

text \<open>What the loop signs after appending \<open>k\<close> zero bytes.\<close>

definition padded_hash :: "bn_in \<Rightarrow> (bytes \<Rightarrow> bytes) \<Rightarrow> bytes \<Rightarrow> nat \<Rightarrow> int" where
  "padded_hash I sha msg k = rabin_hash I sha (msg @ replicate k 0)"

text \<open>The least padding at which a sequence of hashes is a square.\<close>

definition first_square :: "int \<Rightarrow> (nat \<Rightarrow> int) \<Rightarrow> nat \<Rightarrow> bool" where
  "first_square n h k \<longleftrightarrow> square_mod n (h k) \<and> (\<forall>j<k. \<not> square_mod n (h j))"

lemma padded_hash_shift: "padded_hash I sha (d @ [0]) k = padded_hash I sha d (Suc k)"
  by (simp add: padded_hash_def)


lemma sign_body_ok:
  assumes "bn_arith_ok A" "0 < n"
  shows "sign_body L I A sha key n (d, padding) =
    (case rabin_crt_root L I A (rabin_hash I sha d mod n) (key_p key) (key_q key) n of
       Inl e \<Rightarrow> Inr (Inl e)
     | Inr s \<Rightarrow> if s * s mod n = rabin_hash I sha d mod n
         then Inr (Inr \<lparr>sig_s = s, padding_byte_count = padding\<rparr>) else Inl (d @ [0], padding + 1))"
  using assms by (simp add: sign_body_def bn_arith_simps split: sum.splits)

text \<open>Whatever the key, what the loop returns is a root of the padded hash.\<close>

lemma sign_loop_sound:
  assumes "until_loop (sign_body L I A sha key n) (msg, 0) = Some (Inr sg)" "bn_arith_ok A" "0 < n"
  shows "sig_s sg * sig_s sg mod n = padded_hash I sha msg (padding_byte_count sg) mod n"
proof -
  have "\<forall>sg. Inr sg = r \<longrightarrow> sig_s sg * sig_s sg mod n = padded_hash I sha msg (padding_byte_count sg) mod n"
    if "until_loop (sign_body L I A sha key n) (msg, 0) = Some r" for r
    using that
  proof (rule until_loop_inv[where P = "\<lambda>st. st = (msg @ replicate (snd st) 0, snd st)"])
    fix st st' assume P: "st = (msg @ replicate (snd st) 0, snd st)" "sign_body L I A sha key n st = Inl st'"
    obtain d k where st: "st = (d, k)" by (cases st)
    show "st' = (msg @ replicate (snd st') 0, snd st')"
      using P unfolding st sign_body_ok[OF assms(2,3)]
      by (auto simp: replicate_append_same split: sum.splits if_splits)
  next
    fix st r assume P: "st = (msg @ replicate (snd st) 0, snd st)" "sign_body L I A sha key n st = Inr r"
    obtain d k where st: "st = (d, k)" by (cases st)
    show "\<forall>sg. Inr sg = r \<longrightarrow> sig_s sg * sig_s sg mod n = padded_hash I sha msg (padding_byte_count sg) mod n"
      using P unfolding st sign_body_ok[OF assms(2,3)]
      by (auto simp: padded_hash_def split: sum.splits if_splits)
  qed simp
  then show ?thesis using assms(1) by blast
qed

lemma sign_body_blum:
  assumes "bn_lib_ok L" "bn_in_ok I" "bn_arith_ok A" "blum_key key" "n = rabin_pubkey key"
  shows "sign_body L I A sha key n (msg @ replicate k 0, k) =
    (if square_mod n (padded_hash I sha msg k)
     then Inr (Inr \<lparr>sig_s = crt_root (key_p key) (key_q key) (padded_hash I sha msg k mod n), padding_byte_count = k\<rparr>)
     else Inl (msg @ replicate (Suc k) 0, Suc k))"
proof -
  define p q where "p = key_p key" and "q = key_q key"
  have key: "blum_prime p" "blum_prime q" "p \<noteq> q" using assms(4) by (auto simp: blum_key_def p_def q_def)
  have n: "n = p * q" using assms(5) by (simp add: rabin_pubkey_def p_def q_def)
  have n0: "0 < n" using blum_prime_facts[OF key(1)] blum_prime_facts[OF key(2)] unfolding n by simp
  define x where "x = padded_hash I sha msg k mod n"
  have sq: "crt_root p q x * crt_root p q x mod n = x \<longleftrightarrow> square_mod n (padded_hash I sha msg k)"
    using crt_root_square[OF key, of x] unfolding n x_def square_mod_def by (metis mod_mod_trivial)
  have root: "rabin_crt_root L I A x p q n = Inr (crt_root p q x)"
    unfolding n by (rule rabin_crt_root_ok[OF assms(1-3) key(1,2)])
  have x: "rabin_hash I sha (msg @ replicate k 0) mod n = x" by (simp add: x_def padded_hash_def)
  show ?thesis
    unfolding sign_body_ok[OF assms(3) n0] x p_def[symmetric] q_def[symmetric] root x_def[symmetric] sum.case sq
    by (simp add: replicate_append_same)
qed

lemma rabin_verify_iff:
  assumes "bn_arith_ok A" "0 < n"
  shows "rabin_verify I A sha msg sg n \<longleftrightarrow> padding_byte_count sg \<le> RABIN_MAX_PADDING_BYTES \<and>
    padded_hash I sha msg (padding_byte_count sg) mod n = sig_s sg * sig_s sg mod n"
  using assms by (auto simp: rabin_verify_def padded_hash_def bn_arith_simps Let_def)

lemma rabin_sign_Inr:
  "rabin_sign L I A sha msg key = Some (Inr sg) \<longleftrightarrow>
     until_loop (sign_body L I A sha key (rabin_pubkey key)) (msg, 0) = Some (Inr sg)"
proof -
  define r where "r = until_loop (sign_body L I A sha key (rabin_pubkey key)) (msg, 0)"
  have "rabin_sign L I A sha msg key = map_option (\<lambda>r. case r of
      Inl rc \<Rightarrow> Inl (if rc \<noteq> BNS_OK \<and> rc \<noteq> BNS_ENOMEM \<and> rc \<noteq> BNS_EINVAL then BNS_ECRYPTO else rc)
    | Inr sg \<Rightarrow> Inr sg) r"
    by (simp add: rabin_sign_def r_def rabin_pubkey_def)
  then show ?thesis unfolding r_def[symmetric] by (cases r) (auto split: sum.splits)
qed

lemma crt_root_range: "0 < p \<Longrightarrow> 0 < q \<Longrightarrow> 0 \<le> crt_root p q x \<and> crt_root p q x < p * q"
  by (simp add: crt_root_def)

lemma rabin_sign_facts:
  assumes "bn_lib_ok L" "bn_in_ok I" "bn_arith_ok A" "blum_key key"
  shows "(case rabin_sign L I A sha msg key of
      None \<Rightarrow> \<nexists>k. square_mod (rabin_pubkey key) (padded_hash I sha msg k)
    | Some (Inl e) \<Rightarrow> False
    | Some (Inr sg) \<Rightarrow>
        square_mod (rabin_pubkey key) (padded_hash I sha msg (padding_byte_count sg)) \<and>
        (\<nexists>k. k < padding_byte_count sg \<and> square_mod (rabin_pubkey key) (padded_hash I sha msg k)) \<and>
        0 \<le> sig_s sg \<and> sig_s sg < rabin_pubkey key \<and>
        (rabin_verify I A sha msg sg (rabin_pubkey key) \<longleftrightarrow>
           padding_byte_count sg \<le> RABIN_MAX_PADDING_BYTES))"
proof -
  define n where "n = rabin_pubkey key"
  define good where "good = (\<lambda>k. square_mod n (padded_hash I sha msg k))"
  define st where "st = (\<lambda>k. (msg @ replicate k (0 :: byte), k))"
  have st0: "st 0 = (msg, 0)" by (simp add: st_def)
  have body: "sign_body L I A sha key n (st k) =
      (if good k then Inr (Inr \<lparr>sig_s = crt_root (key_p key) (key_q key) (padded_hash I sha msg k mod n),
         padding_byte_count = k\<rparr>) else Inl (st (Suc k)))" for k
    unfolding good_def st_def by (rule sign_body_blum[OF assms n_def])
  have pq: "3 \<le> key_p key" "3 \<le> key_q key" using assms(4) blum_prime_facts by (auto simp: blum_key_def)
  then have n0: "0 < n" by (simp add: n_def rabin_pubkey_def)
  show ?thesis
  proof (cases "\<exists>k. good k")
    case False
    have "until_loop (sign_body L I A sha key n) (st 0) = None"
      by (rule until_loop_never) (use body False in simp)
    then have "rabin_sign L I A sha msg key = None"
      unfolding rabin_sign_def n_def rabin_pubkey_def st0 by simp
    then show ?thesis using False unfolding good_def n_def by simp
  next
    case True
    define k where "k = (LEAST k. good k)"
    have k: "good k" unfolding k_def by (rule LeastI_ex[OF True])
    have lt: "\<not> good i" if "i < k" for i using not_less_Least that unfolding k_def by blast
    define s where "s = crt_root (key_p key) (key_q key) (padded_hash I sha msg k mod n)"
    have "until_loop (sign_body L I A sha key n) (st 0) = Some (Inr \<lparr>sig_s = s, padding_byte_count = k\<rparr>)"
      by (rule until_loop_first[where k = k]) (use body k lt in \<open>simp_all add: s_def\<close>)
    then have run: "until_loop (sign_body L I A sha key n) (msg, 0) = Some (Inr \<lparr>sig_s = s, padding_byte_count = k\<rparr>)"
      unfolding st0 .
    have "s * s mod n = padded_hash I sha msg k mod n"
      using sign_loop_sound[OF run assms(3) n0] by simp
    moreover have "0 \<le> s \<and> s < n"
      using crt_root_range[of "key_p key" "key_q key"] pq unfolding s_def n_def rabin_pubkey_def by simp
    moreover have "rabin_sign L I A sha msg key = Some (Inr \<lparr>sig_s = s, padding_byte_count = k\<rparr>)"
      using run unfolding rabin_sign_Inr n_def .
    ultimately show ?thesis
      using k lt n0 unfolding good_def n_def by (auto simp: rabin_verify_iff[OF assms(3)])
  qed
qed

text \<open>
  C14. Signing with a key of two distinct primes of the form \<open>4k + 3\<close> returns at the first padding
  for which the padded hash is a square modulo the public key, with that padding count and a
  root in range, and runs forever exactly when no padding gives a square. The signature is
  accepted by verification exactly when the padding count is within the verifier's cap, which
  the signer does not check.
\<close>

theorem rabin_sign_correct:
  assumes "bn_lib_ok L" "bn_in_ok I" "bn_arith_ok A" "blum_key key"
  shows "(case rabin_sign L I A sha msg key of
      None \<Rightarrow> \<nexists>k. square_mod (rabin_pubkey key) (padded_hash I sha msg k)
    | Some (Inl e) \<Rightarrow> False
    | Some (Inr sg) \<Rightarrow>
        square_mod (rabin_pubkey key) (padded_hash I sha msg (padding_byte_count sg)) \<and>
        (\<nexists>k. k < padding_byte_count sg \<and> square_mod (rabin_pubkey key) (padded_hash I sha msg k)) \<and>
        0 \<le> sig_s sg \<and> sig_s sg < rabin_pubkey key \<and>
        (rabin_verify I A sha msg sg (rabin_pubkey key) \<longleftrightarrow>
           padding_byte_count sg \<le> RABIN_MAX_PADDING_BYTES))"
  using rabin_sign_facts[OF assms] .

definition demo_bn_arith :: bn_arith where
  "demo_bn_arith = \<lparr>BN_nnmod = \<lambda>a m. Some (a mod m), BN_mod_sqr = \<lambda>a m. Some (a * a mod m),
     BN_mod_exp_consttime = \<lambda>b e m. Some (b ^ nat e mod m)\<rparr>"

lemma demo_bn_arith_ok: "bn_arith_ok demo_bn_arith"
  by (simp add: bn_arith_ok_def demo_bn_arith_def)

lemma demo_bn_in_ok: "bn_in_ok demo_bn_in"
  by (simp add: bn_in_ok_def demo_bn_in_def)

definition demo_rabin_key :: rabin_key_t where
  "demo_rabin_key = \<lparr>key_p = 7, key_q = 11\<rparr>"

definition demo_rabin_sha :: "bytes \<Rightarrow> bytes" where
  "demo_rabin_sha d = [foldr (+) d (of_nat (length d))]"

lemma zprime_small: "p \<in> {7, 11} \<Longrightarrow> zprime p"
proof -
  assume p: "p \<in> {7, 11}"
  have "d = 1 \<or> d = p" if "0 < d" "d dvd p" for d
  proof -
    have "d \<in> {1..11}" using zdvd_imp_le[OF that(2)] p that by auto
    then have "d \<in> set (map int [1..<12])" by (auto simp: image_iff intro!: bexI[of _ "nat d"])
    then show ?thesis using p that(2) by (auto simp: upt_rec)
  qed
  then show ?thesis using p by (auto simp: zprime_def)
qed

lemma demo_blum_key: "blum_key demo_rabin_key"
  by (simp add: blum_key_def blum_prime_def demo_rabin_key_def zprime_small)

lemma demo_square:
  "square_mod 77 x \<longleftrightarrow> list_ex (\<lambda>y. y * y mod 77 = x mod 77) (map int [0..<77])"
proof
  assume "square_mod 77 x"
  then obtain y where y: "y * y mod 77 = x mod 77" by (auto simp: square_mod_def)
  have "(y mod 77) * (y mod 77) mod 77 = x mod 77" using y by (simp add: mod_mult_eq)
  then show "list_ex (\<lambda>y. y * y mod 77 = x mod 77) (map int [0..<77])"
    unfolding list_ex_iff by (intro bexI[of _ "y mod 77"]) (auto simp: image_iff intro!: bexI[of _ "nat (y mod 77)"])
qed (auto simp: square_mod_def list_ex_iff)

lemma demo_hash:
  "padded_hash demo_bn_in demo_rabin_sha [6] 0 = 249040600422582980279205896"
  "padded_hash demo_bn_in demo_rabin_sha [6] 1 = 268383561111495545247760393"
proof -
  have rounds: "BONSAI_RABIN_SECURITY_LEVEL - 1 = Suc (Suc (Suc (Suc (Suc 0))))"
    by (simp add: BONSAI_RABIN_SECURITY_LEVEL_def)
  note simps = rabin_bin2hash_def demo_rabin_sha_def demo_bn_in_def BONSAI_RABIN_BIN2HASH_SPLIT_def Let_def
  show "padded_hash demo_bn_in demo_rabin_sha [6] 0 = 249040600422582980279205896"
    by (simp only: padded_hash_def rabin_hash_def rounds) (simp add: simps)
  show "padded_hash demo_bn_in demo_rabin_sha [6] 1 = 268383561111495545247760393"
    by (simp only: padded_hash_def rabin_hash_def rounds) (simp add: simps)
qed

theorem rabin_sign_correct_witness:
  "\<exists>s. rabin_sign bn_reference demo_bn_in demo_bn_arith demo_rabin_sha [6] demo_rabin_key =
      Some (Inr \<lparr>sig_s = s, padding_byte_count = 1\<rparr>) \<and>
    rabin_verify demo_bn_in demo_bn_arith demo_rabin_sha [6] \<lparr>sig_s = s, padding_byte_count = 1\<rparr> 77"
proof -
  define good where "good = (\<lambda>k. square_mod 77 (padded_hash demo_bn_in demo_rabin_sha [6] k))"
  have n: "rabin_pubkey demo_rabin_key = 77" by (simp add: rabin_pubkey_def demo_rabin_key_def)
  have "\<not> list_ex (\<lambda>y. y * y mod 77 = 249040600422582980279205896 mod 77) (map int [0..<77])"
    by code_simp
  then have g0: "\<not> good 0" unfolding good_def demo_square demo_hash .
  have "33 * 33 mod 77 = (268383561111495545247760393 :: int) mod 77" by simp
  then have g1: "good 1" unfolding good_def demo_hash square_mod_def by blast
  define r where "r = rabin_sign bn_reference demo_bn_in demo_bn_arith demo_rabin_sha [6] demo_rabin_key"
  note main = rabin_sign_correct[OF bn_reference_ok demo_bn_in_ok demo_bn_arith_ok demo_blum_key,
      of demo_rabin_sha "[6]", unfolded n, folded r_def]
  have good: "square_mod 77 (padded_hash demo_bn_in demo_rabin_sha [6] k) = good k" for k
    by (simp add: good_def)
  obtain sg where r: "r = Some (Inr sg)" using main g1 unfolding good by (auto split: option.splits sum.splits)
  have pad: "good (padding_byte_count sg)" "\<not> (\<exists>k < padding_byte_count sg. good k)" using main r unfolding good by auto
  have one: "padding_byte_count sg = 1" using pad g0 g1 by (metis less_one linorder_neqE_nat)
  have v: "rabin_verify demo_bn_in demo_bn_arith demo_rabin_sha [6] sg 77"
    using main r one by (simp add: RABIN_MAX_PADDING_BYTES_def)
  have eq: "\<lparr>sig_s = sig_s sg, padding_byte_count = 1\<rparr> = sg" using one by (cases sg) simp
  show ?thesis unfolding r_def[symmetric] by (rule exI[of _ "sig_s sg"]) (simp only: eq r v simp_thms)
qed

section \<open>Key generation\<close>

text \<open>What the prime search establishes of the number it returns.\<close>

definition rabin_candidate :: "int \<Rightarrow> bool" where
  "rabin_candidate p \<longleftrightarrow> p mod 4 = 3 \<and> coprime p small_primes_product \<and>
     list_all (\<lambda>a. a ^ nat (p - 1) mod p = 1) [2, 3, 5, 17]"

lemma gcd_euclid_ok:
  assumes "bn_arith_ok A" "0 \<le> a" "0 \<le> b"
  shows "bn_gcd_euclid A a b = Some (Inr (gcd a b))"
proof -
  define P where "P = (\<lambda>ab. 0 \<le> fst ab \<and> 0 \<le> snd ab \<and> gcd (fst ab) (snd ab) = gcd a b)"
  have step: "P s' \<and> nat (snd s') < nat (snd s)" if "P s" "gcd_body A s = Inl s'" for s s'
  proof -
    obtain x y where s: "s = (x, y)" by (cases s)
    have y: "0 < y" "s' = (y, x mod y)"
      using that unfolding P_def s gcd_body_def by (auto simp: bn_mod_ok[OF assms(1)] split: if_splits)
    then show ?thesis using that(1) unfolding P_def s by (simp add: gcd.commute gcd_red_int[symmetric])
  qed
  have exit: "r = Inr (gcd a b)" if "P s" "gcd_body A s = Inr r" for s r
  proof -
    obtain x y where s: "s = (x, y)" by (cases s)
    show ?thesis using that unfolding P_def s gcd_body_def
      by (auto simp: bn_mod_ok[OF assms(1)] split: if_splits)
  qed
  have P0: "P (if b > a then (b, a) else (a, b))" using assms by (simp add: P_def gcd.commute)
  obtain r where r: "bn_gcd_euclid A a b = Some r"
    using until_loop_total[where P = P and body = "gcd_body A" and m = "\<lambda>s. nat (snd s)", OF P0 step]
    unfolding bn_gcd_euclid_def by blast
  then have "r = Inr (gcd a b)"
    using until_loop_inv[where P = P and body = "gcd_body A" and Q = "\<lambda>r. r = Inr (gcd a b)", OF _ P0]
      step exit unfolding bn_gcd_euclid_def by blast
  with r show ?thesis by simp
qed

lemma blum_prime_candidate:
  assumes "blum_prime r" "29 < r"
  shows "rabin_candidate r"
proof -
  have r: "zprime r" "r mod 4 = 3" "1 < r" using assms(1) zprime_gt1 by (auto simp: blum_prime_def)
  have small: "\<not> r dvd a" if "0 < a" "a \<le> 29" for a using zdvd_imp_le[OF _ that(1), of r] that(2) assms(2) by auto
  have "small_primes_product = 3 * (5 * (7 * (11 * (13 * (17 * (19 * (23 * 29)))))))"
    by (simp add: small_primes_product_def)
  moreover have "\<not> r dvd 3 * (5 * (7 * (11 * (13 * (17 * (19 * (23 * 29)))))))"
    unfolding zprime_dvd_mult[OF r(1)] using small by simp
  ultimately have "coprime r small_primes_product" using zprime_coprime[OF r(1)] by simp
  moreover have "a ^ nat (r - 1) mod r = 1" if "0 < a" "a \<le> 29" for a
    using fermat_little_int[OF r(1), of a] small[OF that] that r(3) by (simp add: nat_diff_distrib)
  ultimately show ?thesis by (simp add: rabin_candidate_def r(2))
qed

text \<open>Two numbers that are 3 modulo 4 differ by a multiple of 4.\<close>

lemma mod4_gap: "s mod 4 = (3 :: int) \<Longrightarrow> r mod 4 = 3 \<Longrightarrow> s < r \<Longrightarrow> s + 4 \<le> r \<and> (s + 4) mod 4 = 3"
  by presburger

text \<open>
  A loop over the numbers that are 3 modulo 4 from \<open>p\<close> on which leaves at \<open>r\<close> at the latest:
  it returns, and what it returns satisfies whatever every exit of the body satisfies.
\<close>

lemma search_loop:
  assumes "p mod 4 = 3" "p \<le> (r :: int)" "r mod 4 = 3"
    and next_step: "\<And>s s'. p \<le> s \<Longrightarrow> s mod 4 = 3 \<Longrightarrow> s \<le> r \<Longrightarrow> body s = Inl s' \<Longrightarrow>
      s < s' \<and> s' \<le> r \<and> s' mod 4 = 3"
    and exit: "\<And>s y. p \<le> s \<Longrightarrow> s mod 4 = 3 \<Longrightarrow> s \<le> r \<Longrightarrow> body s = Inr y \<Longrightarrow> Q y"
  shows "\<exists>y. until_loop body p = Some y \<and> Q y"
proof -
  define P where "P = (\<lambda>s. p \<le> s \<and> s mod 4 = 3 \<and> s \<le> r)"
  have P0: "P p" using assms(1,2) by (simp add: P_def)
  have step: "P s' \<and> nat (r - s') < nat (r - s)" if "P s" "body s = Inl s'" for s s'
    using next_step[of s s'] that unfolding P_def by auto
  obtain y where y: "until_loop body p = Some y"
    using until_loop_total[where P = P and body = body and m = "\<lambda>s. nat (r - s)", OF P0 step] by blast
  moreover have "Q y"
  proof (rule until_loop_inv[where P = P, OF y P0])
    show "P s'" if "P s" "body s = Inl s'" for s s' using step[OF that] by blast
    show "Q z" if "P s" "body s = Inr z" for s z using exit that unfolding P_def by blast
  qed
  ultimately show ?thesis by blast
qed

lemma sieve_loop_ok:
  assumes "bn_arith_ok A" "0 \<le> p" "p mod 4 = 3" "p \<le> r" "r mod 4 = 3" "coprime r small_primes_product"
  shows "\<exists>p'. sieve_loop A p = Some (Inr p') \<and> p \<le> p' \<and> p' \<le> r \<and> p' mod 4 = 3 \<and>
    coprime p' small_primes_product"
proof -
  have body: "sieve_body A s = (if coprime s small_primes_product then Inr (Some (Inr s)) else Inl (s + 4))"
    if "p \<le> s" for s
    using gcd_euclid_ok[OF assms(1), of s small_primes_product] that assms(2)
    by (simp add: sieve_body_def small_primes_product_def coprime_iff_gcd_eq_1)
  have "\<exists>y. until_loop (sieve_body A) p = Some y \<and> (\<exists>p'. y = Some (Inr p') \<and> p \<le> p' \<and> p' \<le> r \<and>
      p' mod 4 = 3 \<and> coprime p' small_primes_product)"
  proof (rule search_loop[OF assms(3,4,5)])
    fix s s' assume s: "p \<le> s" "s mod 4 = 3" "s \<le> r" "sieve_body A s = Inl s'"
    then have "s' = s + 4" "s \<noteq> r" using body assms(6) by (auto split: if_splits)
    then show "s < s' \<and> s' \<le> r \<and> s' mod 4 = 3" using mod4_gap[OF s(2) assms(5)] s(3) by simp
  qed (use body in \<open>auto split: if_splits\<close>)
  then show ?thesis by (auto simp: sieve_loop_def)
qed

lemma fermat_tests_ok:
  assumes "bn_arith_ok A" "1 < p" "odd p"
  shows "fermat_tests A p as = Inr (list_all (\<lambda>a. a ^ nat (p - 1) mod p = 1) as)"
  using assms by (induction as) (simp_all add: bn_mod_exp_ok)

text \<open>The search returns a candidate and passes over no prime above 29.\<close>

lemma next_prime_ok:
  assumes "bn_arith_ok A" "0 \<le> p" "p mod 4 = 3" "p \<le> r" "blum_prime r" "29 < r"
  shows "\<exists>p'. rabin_calc_next_prime A p = Some (Inr p') \<and> p \<le> p' \<and> p' \<le> r \<and> rabin_candidate p'"
proof -
  have cand: "rabin_candidate r" by (rule blum_prime_candidate[OF assms(5,6)])
  then have r: "r mod 4 = 3" "coprime r small_primes_product" by (auto simp: rabin_candidate_def)
  have body: "\<exists>p'. s \<le> p' \<and> p' \<le> r \<and> p' mod 4 = 3 \<and>
      next_prime_body A s = (if rabin_candidate p' then Inr (Some (Inr p')) else Inl (p' + 4))"
    if s: "p \<le> s" "s mod 4 = 3" "s \<le> r" for s
  proof -
    obtain p' where p': "sieve_loop A s = Some (Inr p')" "s \<le> p'" "p' \<le> r" "p' mod 4 = 3"
        "coprime p' small_primes_product"
      using sieve_loop_ok[OF assms(1) _ s(2,3) r] s(1) assms(2) by auto
    have "1 < p'" using p'(2,4) s(1) assms(2) by (cases "p' = 0 \<or> p' = 1") auto
    moreover have "odd p'" using p'(4) by presburger
    ultimately have "next_prime_body A s = (if rabin_candidate p' then Inr (Some (Inr p')) else Inl (p' + 4))"
      using p' fermat_tests_ok[OF assms(1), of p' "[2, 3, 5, 17]"]
      unfolding next_prime_body_def rabin_candidate_def by (simp del: fermat_tests.simps list.pred_inject)
    with p' show ?thesis by blast
  qed
  have "\<exists>y. until_loop (next_prime_body A) p = Some y \<and>
      (\<exists>p'. y = Some (Inr p') \<and> p \<le> p' \<and> p' \<le> r \<and> rabin_candidate p')"
  proof (rule search_loop[OF assms(3,4) r(1)])
    fix s s' assume s: "p \<le> s" "s mod 4 = 3" "s \<le> r" "next_prime_body A s = Inl s'"
    obtain p' where p': "s \<le> p'" "p' \<le> r" "p' mod 4 = 3" "\<not> rabin_candidate p'" "s' = p' + 4"
      using body[OF s(1-3)] s(4) by (auto split: if_splits)
    have "p' < r" using p'(2,4) cand by (cases "p' = r") auto
    then show "s < s' \<and> s' \<le> r \<and> s' mod 4 = 3" using mod4_gap[OF p'(3) r(1)] p'(1,5) by simp
  next
    fix s y assume s: "p \<le> s" "s mod 4 = 3" "s \<le> r" "next_prime_body A s = Inr y"
    then show "\<exists>p'. y = Some (Inr p') \<and> p \<le> p' \<and> p' \<le> r \<and> rabin_candidate p'"
      using body[OF s(1-3)] by (auto split: if_splits)
  qed
  then show ?thesis by (auto simp: rabin_calc_next_prime_def)
qed

lemma get_prime_number_ok:
  assumes "bn_arith_ok A" "0 \<le> p" "p \<le> r" "blum_prime r" "29 < r"
  shows "\<exists>p'. rabin_get_prime_number A p = Some (Inr p') \<and> p \<le> p' \<and> p' \<le> r \<and> rabin_candidate p'"
proof -
  define P where "P = (\<lambda>s. p \<le> s \<and> s \<le> r)"
  have P0: "P p" using assms by (simp add: P_def)
  have body: "mod4_body A s = (if s mod 4 = 3 then Inr (Inr s) else Inl (s + 1))" for s
    by (simp add: mod4_body_def bn_mod_ok[OF assms(1)])
  have r: "r mod 4 = 3" using assms(4) by (simp add: blum_prime_def)
  have step: "P s' \<and> nat (r - s') < nat (r - s)" if "P s" "mod4_body A s = Inl s'" for s s'
    using that r unfolding P_def body by (cases "s = r") (auto split: if_splits)
  obtain y where y: "until_loop (mod4_body A) p = Some y"
    using until_loop_total[where P = P and body = "mod4_body A" and m = "\<lambda>s. nat (r - s)", OF P0 step] by blast
  have "\<exists>s. y = Inr s \<and> p \<le> s \<and> s \<le> r \<and> s mod 4 = 3"
  proof (rule until_loop_inv[where P = P, OF y P0])
    show "P s'" if "P s" "mod4_body A s = Inl s'" for s s' using step[OF that] by blast
    show "\<exists>t. z = Inr t \<and> p \<le> t \<and> t \<le> r \<and> t mod 4 = 3" if "P s" "mod4_body A s = Inr z" for s z
      using that unfolding P_def body by (auto split: if_splits)
  qed
  then obtain s where s: "y = Inr s" "p \<le> s" "s \<le> r" "s mod 4 = 3" by blast
  obtain p' where "rabin_calc_next_prime A s = Some (Inr p')" "s \<le> p'" "p' \<le> r" "rabin_candidate p'"
    using next_prime_ok[OF assms(1) _ s(4,3) assms(4,5)] s(2) assms(2) by auto
  then show ?thesis using y s by (intro exI[of _ p']) (simp add: rabin_get_prime_number_def)
qed

text \<open>
  The candidate at or after a start: the first number from there on that the tests accept, so
  far as the primes go.
\<close>

definition found_from :: "int \<Rightarrow> int \<Rightarrow> bool" where
  "found_from start p \<longleftrightarrow> start \<le> p \<and> rabin_candidate p \<and>
     (\<nexists>r. start \<le> r \<and> r < p \<and> blum_prime r \<and> 29 < r)"

lemma get_prime_number_found:
  assumes "bn_arith_ok A" "0 \<le> p"
  shows "\<exists>p'. rabin_get_prime_number A p = Some (Inr p') \<and> found_from p p'"
proof -
  obtain r0 where "zprime r0" "r0 mod 4 = 3" "max p 29 < r0" using primes_3mod4_unbounded by blast
  then obtain p' where p': "rabin_get_prime_number A p = Some (Inr p')" "p \<le> p'" "rabin_candidate p'"
    using get_prime_number_ok[OF assms, of r0] by (auto simp: blum_prime_def)
  have "p' \<le> r" if "p \<le> r" "blum_prime r" "29 < r" for r
    using get_prime_number_ok[OF assms that] p'(1) by auto
  then have "found_from p p'" using p'(2,3) unfolding found_from_def by (meson not_less)
  with p'(1) show ?thesis by blast
qed

lemma rabin_range_ok: "bn_in_ok I \<Longrightarrow> rabin_range I = 2 ^ 1536"
proof -
  assume I: "bn_in_ok I"
  have "(replicate 193 (0 :: byte))[0 := 1] = 1 # replicate 192 0"
    by (simp add: numeral_eq_Suc)
  moreover have "le_nat (replicate k 0) = 0" for k by (induction k) simp_all
  ultimately have "rabin_range I = int (256 ^ 192)"
    using I by (simp add: rabin_range_def bn_in_ok_def le_nat_append)
  then show ?thesis by simp
qed

text \<open>
  C18. Key generation from a seed always returns. Each factor is at least the residue of the
  expanded hash modulo \<open>2 ^ 1536\<close>, is 3 modulo 4, has no factor among the primes from 3 to 29,
  passes the Fermat tests to the bases 2, 3, 5 and 17, and no prime of that form above 29 lies
  between; only that the factors are prime, or distinct, is not established by the code.
\<close>

theorem rabin_keygen_from_seed_total:
  assumes "bn_in_ok I" "bn_arith_ok A"
  shows "\<exists>key. rabin_keygen_from_seed I A sha seed = Some (Inr key) \<and>
    found_from (rabin_hash I sha seed mod 2 ^ 1536) (key_p key) \<and>
    found_from (rabin_hash I sha (seed @ [0]) mod 2 ^ 1536) (key_q key)"
proof -
  have pos: "0 < rabin_range I" unfolding rabin_range_ok[OF assms(1)] by simp
  obtain p where p: "rabin_get_prime_number A (rabin_hash I sha seed mod rabin_range I) = Some (Inr p)"
      "found_from (rabin_hash I sha seed mod rabin_range I) p"
    using get_prime_number_found[OF assms(2) pos_mod_sign[OF pos]] by blast
  obtain q where q: "rabin_get_prime_number A (rabin_hash I sha (seed @ [0]) mod rabin_range I) = Some (Inr q)"
      "found_from (rabin_hash I sha (seed @ [0]) mod rabin_range I) q"
    using get_prime_number_found[OF assms(2) pos_mod_sign[OF pos]] by blast
  have "rabin_keygen_from_seed I A sha seed = Some (Inr \<lparr>key_p = p, key_q = q\<rparr>)"
    using p(1) q(1) by (simp add: rabin_keygen_from_seed_def Let_def bn_mod_ok[OF assms(2) pos])
  then show ?thesis using p(2) q(2) unfolding rabin_range_ok[OF assms(1)]
    by (intro exI[of _ "\<lparr>key_p = p, key_q = q\<rparr>"]) simp
qed

theorem rabin_keygen_from_seed_total_witness:
  "\<exists>key. rabin_keygen_from_seed demo_bn_in demo_bn_arith demo_rabin_sha [6] = Some (Inr key) \<and>
    rabin_candidate (key_p key) \<and> 249040600422582980279205896 \<le> key_p key"
proof -
  have "rabin_hash demo_bn_in demo_rabin_sha [6] = 249040600422582980279205896"
    using demo_hash(1) by (simp add: padded_hash_def)
  then show ?thesis
    using rabin_keygen_from_seed_total[OF demo_bn_in_ok demo_bn_arith_ok, of demo_rabin_sha "[6]"]
    unfolding found_from_def by auto
qed

section \<open>The contract-side verifier\<close>

text \<open>
  The adapter accepts exactly what the contract accepts, which hashes the message with the
  padding bytes it is given, among the signatures whose padding is at most 4096 zero bytes.
\<close>

theorem rabin_verifier_verify_sig_iff:
  assumes "bn_arith_ok A" "0 < n" "vpadding sg = Some pad" "padding_len sg = length pad"
  shows "rabin_verifier_verify_sig I A sha msg sg n \<longleftrightarrow>
    length pad \<le> RABIN_MAX_PADDING_BYTES \<and> list_all (\<lambda>b. b = 0) pad \<and>
    rabin_hash I sha (msg @ pad) mod n = vsig_s sg * vsig_s sg mod n"
proof -
  have "list_all (\<lambda>b. b = 0) pad \<Longrightarrow> pad = replicate (length pad) 0"
    by (simp add: list_all_iff replicate_length_same)
  moreover have "list_ex (\<lambda>b. b \<noteq> 0) pad \<longleftrightarrow> \<not> list_all (\<lambda>b. b = 0) pad"
    by (simp add: list_ex_iff list_all_iff)
  ultimately show ?thesis
    using assms by (auto simp: rabin_verifier_verify_sig_def rabin_verify_iff padded_hash_def)
qed

end
