(* ===== verification/Arp.thy ===== *)
theory Arp
  imports ScriptCodec Rabin
begin

text \<open>
  The release protocol contracts: the sequenced attestation message of
  \<^verbatim>\<open>src/contracts_next/arp_attest.c\<close>, the publisher identity of
  \<^verbatim>\<open>src/contracts_next/publisher_tea.c\<close> with its receipts and its quorum check, and the bonded
  attestor of \<^verbatim>\<open>src/contracts_next/attestor_tea.c\<close> with its equivocation test.
\<close>

section \<open>Model\<close>

definition ARP_ATTEST_TAG :: bytes where
  "ARP_ATTEST_TAG = [0x41, 0x52, 0x50, 0x31, 0x5f, 0x41, 0x54, 0x54, 0x45, 0x53, 0x54, 0x5f, 0x56, 0x31]"

definition arp_attestation_msg :: "bn_lib \<Rightarrow> bn_t \<Rightarrow> bytes \<Rightarrow> bytes res" where
  "arp_attestation_msg L seq activate_digest =
     res_bind (int2bytestring_sized L seq 8) (\<lambda>s. Inr (ARP_ATTEST_TAG @ s @ activate_digest))"

subsection \<open>Publisher\<close>

definition ANNOUNCE_TAG :: bytes where
  "ANNOUNCE_TAG = [0x41, 0x52, 0x50, 0x31, 0x5f, 0x41, 0x4e, 0x4e,
     0x4f, 0x55, 0x4e, 0x43, 0x45, 0x5f, 0x56, 0x31]"

definition ACTRCPT_TAG :: bytes where
  "ACTRCPT_TAG = [0x41, 0x52, 0x50, 0x31, 0x5f, 0x41, 0x43, 0x54,
     0x52, 0x43, 0x50, 0x54, 0x5f, 0x56, 0x31]"

definition CANCEL_TAG :: bytes where
  "CANCEL_TAG = [0x41, 0x52, 0x50, 0x31, 0x5f, 0x43, 0x41, 0x4e, 0x43, 0x45, 0x4c, 0x5f, 0x56, 0x31]"

definition INVALIDATE_TAG :: bytes where
  "INVALIDATE_TAG = [0x41, 0x52, 0x50, 0x31, 0x5f, 0x49, 0x4e, 0x56,
     0x41, 0x4c, 0x49, 0x44, 0x41, 0x54, 0x45, 0x5f, 0x56, 0x31]"

definition ZERO32 :: bytes where
  "ZERO32 = replicate 32 0"

definition BONSAI_PUBLISHER_TEA_ATTESTORS :: nat where "BONSAI_PUBLISHER_TEA_ATTESTORS = 3"

record publisher_tea_params_t =
  publisher_key :: bytes
  approver_key :: bytes
  cancel_key :: bytes
  publisher_hash :: bytes
  delay_seconds :: bn_t
  attestor_pubkeys :: "bn_t list"
  quorum :: bn_t

record publisher_tea_state_t =
  pending_bundle_hash :: bytes
  pending_file_set_root :: bytes
  pending_announce_time :: bn_t
  release_count :: bn_t

record publisher_tea_t =
  pub_artifact :: scrypt_artifact_t
  pub_params :: publisher_tea_params_t
  pub_state :: publisher_tea_state_t

definition publisher_tea_genesis_state :: publisher_tea_state_t where
  "publisher_tea_genesis_state =
     \<lparr>pending_bundle_hash = ZERO32, pending_file_set_root = ZERO32,
      pending_announce_time = 0, release_count = 0\<rparr>"

definition publisher_tea_locking_script :: "bn_lib \<Rightarrow> publisher_tea_t \<Rightarrow> bool \<Rightarrow> bytes res" where
  "publisher_tea_locking_script L c is_genesis =
     (let p = pub_params c; s = pub_state c in
      reconstruct_locking_script L (pub_artifact c)
        [ArgBytes TagPubKey (publisher_key p), ArgBytes TagPubKey (approver_key p),
         ArgBytes TagPubKey (cancel_key p), ArgBytes TagSha256 (publisher_hash p),
         ArgInt (delay_seconds p), ArgArray (map ArgInt (attestor_pubkeys p)), ArgInt (quorum p)]
        [ArgBytes TagSha256 (pending_bundle_hash s), ArgBytes TagSha256 (pending_file_set_root s),
         ArgInt (pending_announce_time s), ArgInt (release_count s)] is_genesis)"

definition append_now4 :: "bn_lib \<Rightarrow> int \<Rightarrow> bytes res" where
  "append_now4 L now = int2bytestring_sized L now 4"

definition publisher_tea_announce_receipt ::
  "bn_lib \<Rightarrow> publisher_tea_t \<Rightarrow> bytes \<Rightarrow> bytes \<Rightarrow> int \<Rightarrow> bytes res" where
  "publisher_tea_announce_receipt L c bundle_hash file_set_root now =
     res_bind (int2bytestring_sized L (release_count (pub_state c)) 8) (\<lambda>r.
     res_bind (append_now4 L now) (\<lambda>n.
     Inr (ANNOUNCE_TAG @ publisher_hash (pub_params c) @ bundle_hash @ file_set_root @ r @ n)))"

definition publisher_tea_activate_receipt :: "bn_lib \<Rightarrow> publisher_tea_t \<Rightarrow> bytes \<Rightarrow> bytes res" where
  "publisher_tea_activate_receipt L c activate_digest =
     res_bind (int2bytestring_sized L (release_count (pub_state c)) 8) (\<lambda>r.
     res_bind (int2bytestring_sized L (pending_announce_time (pub_state c)) 4) (\<lambda>n.
     Inr (ACTRCPT_TAG @ publisher_hash (pub_params c) @ activate_digest @ r @ n)))"

definition publisher_tea_cancel_receipt :: "bn_lib \<Rightarrow> publisher_tea_t \<Rightarrow> bytes res" where
  "publisher_tea_cancel_receipt L c =
     res_bind (int2bytestring_sized L (pending_announce_time (pub_state c)) 4) (\<lambda>n.
     Inr (CANCEL_TAG @ publisher_hash (pub_params c) @ pending_bundle_hash (pub_state c) @ n))"

definition publisher_tea_invalidate_receipt :: "bn_lib \<Rightarrow> publisher_tea_t \<Rightarrow> bytes \<Rightarrow> bytes res" where
  "publisher_tea_invalidate_receipt L c activate_digest =
     res_bind (int2bytestring_sized L (pending_announce_time (pub_state c)) 4) (\<lambda>n.
     Inr (INVALIDATE_TAG @ publisher_hash (pub_params c) @ activate_digest @ n))"

text \<open>
  What the caller supplies for one attestor: the two pointers, which may be NULL, and the flag.
  The loop answers \<open>None\<close> when a used signature is invalid, else the number of valid ones.
\<close>

type_synonym attestation = "bn_t option \<times> rabin_verifier_sig_t option \<times> bool"

fun quorum_loop ::
  "bn_lib \<Rightarrow> bn_in \<Rightarrow> bn_arith \<Rightarrow> (bytes \<Rightarrow> bytes) \<Rightarrow> bytes \<Rightarrow> (bn_t \<times> attestation) list \<Rightarrow> int \<Rightarrow> int option res" where
  "quorum_loop L I A sha digest [] valid_count = Inr (Some valid_count)"
| "quorum_loop L I A sha digest ((pk, seq, sg, used) # rest) valid_count =
     (if \<not> used then quorum_loop L I A sha digest rest valid_count
      else case (seq, sg) of
        (Some sq, Some s) \<Rightarrow>
          res_bind (arp_attestation_msg L sq digest) (\<lambda>msg.
          if \<not> rabin_verifier_verify_sig I A sha msg s pk then Inr None
          else quorum_loop L I A sha digest rest (valid_count + 1))
      | _ \<Rightarrow> Inl BNS_EINVAL)"

definition publisher_tea_check_quorum ::
  "bn_lib \<Rightarrow> bn_in \<Rightarrow> bn_arith \<Rightarrow> (bytes \<Rightarrow> bytes) \<Rightarrow> publisher_tea_t \<Rightarrow> bytes \<Rightarrow> attestation list \<Rightarrow> bool res" where
  "publisher_tea_check_quorum L I A sha c activate_digest atts =
     res_bind (quorum_loop L I A sha activate_digest (zip (attestor_pubkeys (pub_params c)) atts) 0) (\<lambda>r.
     case r of None \<Rightarrow> Inr False | Some valid_count \<Rightarrow> Inr (valid_count \<ge> quorum (pub_params c)))"

subsection \<open>Attestor\<close>

record attestor_tea_params_t =
  operator_pubkey :: bytes
  attestor_rabin_pubkey :: bn_t
  unbond_not_before :: bn_t

record attestor_tea_t =
  att_artifact :: scrypt_artifact_t
  att_params :: attestor_tea_params_t

definition attestor_tea_locking_script :: "bn_lib \<Rightarrow> attestor_tea_t \<Rightarrow> bytes res" where
  "attestor_tea_locking_script L c =
     (let p = att_params c in
      reconstruct_locking_script L (att_artifact c)
        [ArgBytes TagPubKey (operator_pubkey p), ArgInt (attestor_rabin_pubkey p), ArgInt (unbond_not_before p)]
        [] False)"

definition attestor_tea_check_equivocation ::
  "bn_lib \<Rightarrow> bn_in \<Rightarrow> bn_arith \<Rightarrow> (bytes \<Rightarrow> bytes) \<Rightarrow> attestor_tea_t \<Rightarrow> bn_t \<Rightarrow>
   bytes \<Rightarrow> rabin_verifier_sig_t \<Rightarrow> bytes \<Rightarrow> rabin_verifier_sig_t \<Rightarrow> bool res" where
  "attestor_tea_check_equivocation L I A sha c seq digest_a sig_a digest_b sig_b =
     (if digest_a = digest_b then Inr False
      else
        res_bind (arp_attestation_msg L seq digest_a) (\<lambda>msg_a.
        if \<not> rabin_verifier_verify_sig I A sha msg_a sig_a (attestor_rabin_pubkey (att_params c)) then Inr False
        else
          res_bind (arp_attestation_msg L seq digest_b) (\<lambda>msg_b.
          if \<not> rabin_verifier_verify_sig I A sha msg_b sig_b (attestor_rabin_pubkey (att_params c)) then Inr False
          else Inr True)))"

section \<open>The quorum check\<close>

definition valid_att ::
  "bn_lib \<Rightarrow> bn_in \<Rightarrow> bn_arith \<Rightarrow> (bytes \<Rightarrow> bytes) \<Rightarrow> bytes \<Rightarrow> bn_t \<Rightarrow> attestation \<Rightarrow> bool" where
  "valid_att L I A sha digest pk a \<longleftrightarrow> (case a of
     (Some sq, Some s, _) \<Rightarrow> (case arp_attestation_msg L sq digest of
        Inl _ \<Rightarrow> False | Inr msg \<Rightarrow> rabin_verifier_verify_sig I A sha msg s pk)
   | _ \<Rightarrow> False)"

definition att_used :: "attestation \<Rightarrow> bool" where
  "att_used a = snd (snd a)"

lemma quorum_loop_iff:
  "quorum_loop L I A sha digest xs vc = Inr (Some n) \<longleftrightarrow>
     list_all (\<lambda>(pk, a). att_used a \<longrightarrow> valid_att L I A sha digest pk a) xs \<and>
     n = vc + int (length (filter (\<lambda>x. att_used (snd x)) xs))"
proof (induction xs arbitrary: vc)
  case (Cons x xs)
  obtain pk seq sg used where x: "x = (pk, seq, sg, used)" by (cases x)
  show ?case
  proof (cases "used \<and> seq \<noteq> None \<and> sg \<noteq> None")
    case False
    then show ?thesis using Cons.IH
      by (auto simp: x att_used_def valid_att_def split: option.splits)
  next
    case True
    then obtain sq s where s: "seq = Some sq" "sg = Some s" "used" by auto
    show ?thesis
    proof (cases "arp_attestation_msg L sq digest")
      case (Inr msg)
      then show ?thesis using Cons.IH[of "vc + 1"] by (auto simp: x s att_used_def valid_att_def)
    qed (simp add: x s att_used_def valid_att_def)
  qed
qed auto

lemma check_quorum_iff:
  assumes "length atts = length (attestor_pubkeys (pub_params c))"
  shows "publisher_tea_check_quorum L I A sha c digest atts = Inr True \<longleftrightarrow>
    list_all (\<lambda>i. att_used (atts ! i) \<longrightarrow> valid_att L I A sha digest (attestor_pubkeys (pub_params c) ! i) (atts ! i))
      [0..<length atts] \<and>
    quorum (pub_params c) \<le> int (card {i. i < length atts \<and> att_used (atts ! i)})"
proof -
  define xs where "xs = zip (attestor_pubkeys (pub_params c)) atts"
  have xs: "length xs = length atts" "\<And>i. i < length atts \<Longrightarrow> xs ! i = (attestor_pubkeys (pub_params c) ! i, atts ! i)"
    using assms by (auto simp: xs_def)
  have all: "list_all (\<lambda>(pk, a). att_used a \<longrightarrow> valid_att L I A sha digest pk a) xs \<longleftrightarrow>
      list_all (\<lambda>i. att_used (atts ! i) \<longrightarrow> valid_att L I A sha digest (attestor_pubkeys (pub_params c) ! i) (atts ! i))
        [0..<length atts]"
    using xs by (auto simp: list_all_length)
  have n: "length (filter (\<lambda>x. att_used (snd x)) xs) = card {i. i < length atts \<and> att_used (atts ! i)}"
    using xs by (auto simp: length_filter_conv_card intro!: arg_cong[of _ _ card])
  have "publisher_tea_check_quorum L I A sha c digest atts = Inr True \<longleftrightarrow>
      (\<exists>n. quorum_loop L I A sha digest xs 0 = Inr (Some n) \<and> quorum (pub_params c) \<le> n)"
    by (auto simp: publisher_tea_check_quorum_def res_bind_Inr_iff xs_def split: option.splits)
  then show ?thesis unfolding quorum_loop_iff all n by simp
qed

text \<open>An index whose attestations count for both releases is evidence against its attestor.\<close>

lemma both_used_slashable:
  assumes "valid_att L I A sha digest pk x" "valid_att L I A sha digest' pk x'"
    and "att_used x" "att_used x'" "digest \<noteq> digest'"
  shows "\<exists>sq sq' sg sg'. x = (Some sq, Some sg, True) \<and> x' = (Some sq', Some sg', True) \<and>
    (sq = sq' \<longrightarrow> (\<forall>a. attestor_rabin_pubkey (att_params a) = pk \<longrightarrow>
       attestor_tea_check_equivocation L I A sha a sq digest sg digest' sg' = Inr True))"
proof -
  obtain sq sg where a: "x = (Some sq, Some sg, True)"
    using assms(1,3) by (cases x) (auto simp: valid_att_def att_used_def split: option.splits)
  obtain sq' sg' where a': "x' = (Some sq', Some sg', True)"
    using assms(2,4) by (cases x') (auto simp: valid_att_def att_used_def split: option.splits)
  have "attestor_tea_check_equivocation L I A sha t sq digest sg digest' sg' = Inr True"
    if "sq = sq'" "attestor_rabin_pubkey (att_params t) = pk" for t
    using assms that by (auto simp: attestor_tea_check_equivocation_def a a' valid_att_def split: sum.splits)
  then show ?thesis using a a' by blast
qed

text \<open>
  C20. Two conflicting releases cost bonds. When two releases with different digests both pass the
  quorum check of a publisher with \<open>n\<close> attestors, at least twice the quorum less \<open>n\<close> of them
  vouched for both, which is someone as soon as the quorum is a majority. Every attestor who
  vouched for both and used one sequence number in doing so is exposed: the equivocation
  test of any bond under its key accepts the two attestations.
\<close>

theorem conflicting_releases_slashable:
  assumes "length atts = length (attestor_pubkeys (pub_params c))" "length atts' = length (attestor_pubkeys (pub_params c))"
    and "publisher_tea_check_quorum L I A sha c digest atts = Inr True"
    and "publisher_tea_check_quorum L I A sha c digest' atts' = Inr True"
    and "digest \<noteq> digest'"
  shows "2 * quorum (pub_params c) - int (length (attestor_pubkeys (pub_params c)))
      \<le> int (card {i. i < length atts \<and> att_used (atts ! i) \<and> att_used (atts' ! i)}) \<and>
    (\<forall>i<length atts. att_used (atts ! i) \<longrightarrow> att_used (atts' ! i) \<longrightarrow>
      (\<exists>sq sq' sg sg'. atts ! i = (Some sq, Some sg, True) \<and> atts' ! i = (Some sq', Some sg', True) \<and>
        (sq = sq' \<longrightarrow> (\<forall>a. attestor_rabin_pubkey (att_params a) = attestor_pubkeys (pub_params c) ! i \<longrightarrow>
           attestor_tea_check_equivocation L I A sha a sq digest sg digest' sg' = Inr True))))"
proof -
  note q = assms(3)[unfolded check_quorum_iff[OF assms(1)]] and q' = assms(4)[unfolded check_quorum_iff[OF assms(2)]]
  have len: "length atts' = length atts" using assms(1,2) by simp
  let ?U = "{i. i < length atts \<and> att_used (atts ! i)}" and ?U' = "{i. i < length atts \<and> att_used (atts' ! i)}"
  have "card ?U + card ?U' \<le> card {..<length atts} + card (?U \<inter> ?U')" by (rule parts_overlap) auto
  moreover have "?U \<inter> ?U' = {i. i < length atts \<and> att_used (atts ! i) \<and> att_used (atts' ! i)}" by auto
  ultimately have "2 * quorum (pub_params c) - int (length (attestor_pubkeys (pub_params c)))
      \<le> int (card {i. i < length atts \<and> att_used (atts ! i) \<and> att_used (atts' ! i)})"
    using conjunct2[OF q] conjunct2[OF q'] assms(1) unfolding len by simp
  moreover have "valid_att L I A sha digest (attestor_pubkeys (pub_params c) ! i) (atts ! i)"
    "valid_att L I A sha digest' (attestor_pubkeys (pub_params c) ! i) (atts' ! i)"
    if "i < length atts" "att_used (atts ! i)" "att_used (atts' ! i)" for i
    using conjunct1[OF q] conjunct1[OF q'] that unfolding len by (simp_all add: list_all_iff)
  ultimately show ?thesis using both_used_slashable[OF _ _ _ _ assms(5)] by blast
qed

section \<open>Messages\<close>

lemma arp_attestation_msg_inj:
  assumes "bn_lib_ok L" "arp_attestation_msg L sq d = Inr m" "arp_attestation_msg L sq' d' = Inr m"
  shows "sq = sq' \<and> d = d'"
proof -
  obtain s s' where s: "int2bytestring_sized L sq 8 = Inr s" "m = ARP_ATTEST_TAG @ s @ d"
    "int2bytestring_sized L sq' 8 = Inr s'" "m = ARP_ATTEST_TAG @ s' @ d'"
    using assms(2,3) by (auto simp: arp_attestation_msg_def res_bind_Inr_iff)
  have "length s = length s'" using s(1,3) sized_length[OF assms(1)] by auto
  then have "s = s'" "d = d'" using s(2,4) by auto
  then show ?thesis using s(1,3) sized_inj[OF assms(1)] by blast
qed

text \<open>An accepted equivocation is two signatures of the attestor on different messages.\<close>

lemma check_equivocation_iff:
  "attestor_tea_check_equivocation L I A sha t sq da sa db sb = Inr True \<longleftrightarrow>
     da \<noteq> db \<and> (\<exists>ma mb. arp_attestation_msg L sq da = Inr ma \<and> arp_attestation_msg L sq db = Inr mb \<and>
       rabin_verifier_verify_sig I A sha ma sa (attestor_rabin_pubkey (att_params t)) \<and>
       rabin_verifier_verify_sig I A sha mb sb (attestor_rabin_pubkey (att_params t)))"
  by (auto simp: attestor_tea_check_equivocation_def res_bind_Inr_iff)

definition arp_messages :: "bn_lib \<Rightarrow> publisher_tea_t \<Rightarrow> bn_t \<Rightarrow> bytes \<Rightarrow> bytes \<Rightarrow> bytes \<Rightarrow> int \<Rightarrow> bytes res list" where
  "arp_messages L c sq digest bundle root now =
     [arp_attestation_msg L sq digest, publisher_tea_announce_receipt L c bundle root now,
      publisher_tea_activate_receipt L c digest, publisher_tea_cancel_receipt L c,
      publisher_tea_invalidate_receipt L c digest]"

lemmas arp_message_defs = arp_attestation_msg_def publisher_tea_announce_receipt_def
  publisher_tea_activate_receipt_def publisher_tea_cancel_receipt_def publisher_tea_invalidate_receipt_def
  append_now4_def

lemmas arp_tag_defs = ARP_ATTEST_TAG_def ANNOUNCE_TAG_def ACTRCPT_TAG_def CANCEL_TAG_def INVALIDATE_TAG_def

text \<open>The five kinds of message differ within their first eight bytes.\<close>

lemma arp_message_tag:
  assumes "i < 5" "arp_messages L c sq d b r now ! i = Inr m"
  shows "take 8 m = take 8 ([ARP_ATTEST_TAG, ANNOUNCE_TAG, ACTRCPT_TAG, CANCEL_TAG, INVALIDATE_TAG] ! i)"
proof -
  have "i = 0 \<or> i = 1 \<or> i = 2 \<or> i = 3 \<or> i = 4" using assms(1) by linarith
  then show ?thesis using assms(2)
    by (elim disjE) (auto simp: arp_messages_def arp_message_defs arp_tag_defs res_bind_Inr_iff)
qed

lemma arp_tags_differ:
  assumes "i < 5" "j < 5"
    and "arp_messages L c sq d b r now ! i = Inr m" "arp_messages L c' sq' d' b' r' now' ! j = Inr m"
  shows "i = j"
proof -
  define tags where "tags = map (take 8) [ARP_ATTEST_TAG, ANNOUNCE_TAG, ACTRCPT_TAG, CANCEL_TAG, INVALIDATE_TAG]"
  have "tags ! k = take 8 ([ARP_ATTEST_TAG, ANNOUNCE_TAG, ACTRCPT_TAG, CANCEL_TAG, INVALIDATE_TAG] ! k)"
    if "k < 5" for k unfolding tags_def by (rule nth_map) (use that in simp)
  then have "tags ! i = tags ! j"
    using arp_message_tag[OF assms(1,3)] arp_message_tag[OF assms(2,4)] assms(1,2) by simp
  moreover have "distinct tags" by (simp add: tags_def arp_tag_defs)
  moreover have "length tags = 5" by (simp add: tags_def)
  ultimately show ?thesis using assms(1,2) by (simp add: nth_eq_iff_index_eq)
qed

text \<open>The numbers and fixed-width fields behind equal tags.\<close>

lemma announce_inj:
  assumes "bn_lib_ok L" "length (publisher_hash (pub_params c)) = 32" "length (publisher_hash (pub_params c')) = 32"
    and "length b = 32" "length b' = 32" "length r = 32" "length r' = 32"
    and "publisher_tea_announce_receipt L c b r now = Inr m" "publisher_tea_announce_receipt L c' b' r' now' = Inr m"
  shows "publisher_hash (pub_params c) = publisher_hash (pub_params c') \<and> b = b' \<and> r = r' \<and>
    release_count (pub_state c) = release_count (pub_state c') \<and> now = now'"
proof -
  obtain x y where x: "int2bytestring_sized L (release_count (pub_state c)) 8 = Inr x" "int2bytestring_sized L now 4 = Inr y"
      "m = ANNOUNCE_TAG @ publisher_hash (pub_params c) @ b @ r @ x @ y"
    using assms(8) by (auto simp: arp_message_defs res_bind_Inr_iff)
  obtain x' y' where x': "int2bytestring_sized L (release_count (pub_state c')) 8 = Inr x'" "int2bytestring_sized L now' 4 = Inr y'"
      "m = ANNOUNCE_TAG @ publisher_hash (pub_params c') @ b' @ r' @ x' @ y'"
    using assms(9) by (auto simp: arp_message_defs res_bind_Inr_iff)
  have "length x = length x'" using x(1) x'(1) sized_length[OF assms(1)] by auto
  then have "publisher_hash (pub_params c) = publisher_hash (pub_params c')" "b = b'" "r = r'" "x = x'" "y = y'"
    using x(3) x'(3) assms(2-7) by auto
  then show ?thesis using x(1,2) x'(1,2) sized_inj[OF assms(1)] by blast
qed

lemma activate_inj:
  assumes "bn_lib_ok L" "length (publisher_hash (pub_params c)) = 32" "length (publisher_hash (pub_params c')) = 32"
    and "length d = 32" "length d' = 32"
    and "publisher_tea_activate_receipt L c d = Inr m" "publisher_tea_activate_receipt L c' d' = Inr m"
  shows "publisher_hash (pub_params c) = publisher_hash (pub_params c') \<and> d = d' \<and>
    release_count (pub_state c) = release_count (pub_state c') \<and>
    pending_announce_time (pub_state c) = pending_announce_time (pub_state c')"
proof -
  obtain x y where x: "int2bytestring_sized L (release_count (pub_state c)) 8 = Inr x"
      "int2bytestring_sized L (pending_announce_time (pub_state c)) 4 = Inr y"
      "m = ACTRCPT_TAG @ publisher_hash (pub_params c) @ d @ x @ y"
    using assms(6) by (auto simp: arp_message_defs res_bind_Inr_iff)
  obtain x' y' where x': "int2bytestring_sized L (release_count (pub_state c')) 8 = Inr x'"
      "int2bytestring_sized L (pending_announce_time (pub_state c')) 4 = Inr y'"
      "m = ACTRCPT_TAG @ publisher_hash (pub_params c') @ d' @ x' @ y'"
    using assms(7) by (auto simp: arp_message_defs res_bind_Inr_iff)
  have "length x = length x'" using x(1) x'(1) sized_length[OF assms(1)] by auto
  then have "publisher_hash (pub_params c) = publisher_hash (pub_params c')" "d = d'" "x = x'" "y = y'"
    using x(3) x'(3) assms(2-5) by auto
  then show ?thesis using x(1,2) x'(1,2) sized_inj[OF assms(1)] by blast
qed

text \<open>Cancel and invalidate share their shape: tag, publisher, digest, time.\<close>

lemma tagged_time_inj:
  assumes "bn_lib_ok L" "length p = 32" "length p' = 32" "length d = 32" "length d' = 32"
    and "int2bytestring_sized L t 4 = Inr y" "int2bytestring_sized L t' 4 = Inr y'"
    and "mark @ p @ d @ y = mark @ p' @ d' @ y'"
  shows "p = p' \<and> d = d' \<and> t = t'"
proof -
  have "p = p'" "d = d'" "y = y'" using assms(2-5,8) by auto
  then show ?thesis using assms(6,7) sized_inj[OF assms(1)] by blast
qed

definition receipts_agree :: "nat \<Rightarrow> publisher_tea_t \<Rightarrow> publisher_tea_t \<Rightarrow> bool" where
  "receipts_agree i c c' \<longleftrightarrow>
     publisher_hash (pub_params c) = publisher_hash (pub_params c') \<and>
     (i \<in> {1, 2} \<longrightarrow> release_count (pub_state c) = release_count (pub_state c')) \<and>
     (i \<in> {2, 3, 4} \<longrightarrow> pending_announce_time (pub_state c) = pending_announce_time (pub_state c')) \<and>
     (i = 3 \<longrightarrow> pending_bundle_hash (pub_state c) = pending_bundle_hash (pub_state c'))"

text \<open>
  C21. The protocol's messages are unambiguous. No attestation, announcement, activation,
  cancellation or invalidation message is a message of another kind, whatever its fields; and
  two equal messages of one kind agree in every field: the sequence number and digest that
  attestors sign, and the publisher, bundle, file set, digest, release number and time that
  receipts commit to.
\<close>

theorem arp_messages_commit:
  assumes "bn_lib_ok L" "length (publisher_hash (pub_params c)) = 32" "length (publisher_hash (pub_params c')) = 32"
    and "length (pending_bundle_hash (pub_state c)) = 32" "length (pending_bundle_hash (pub_state c')) = 32"
    and "length d = 32" "length d' = 32" "length b = 32" "length b' = 32" "length r = 32" "length r' = 32"
    and "i < 5" "j < 5"
    and "arp_messages L c sq d b r now ! i = Inr m" "arp_messages L c' sq' d' b' r' now' ! j = Inr m"
  shows "i = j \<and> (i = 0 \<longrightarrow> sq = sq') \<and> (i \<in> {0, 2, 4} \<longrightarrow> d = d') \<and>
    (i = 1 \<longrightarrow> b = b' \<and> r = r' \<and> now = now') \<and> (i \<noteq> 0 \<longrightarrow> receipts_agree i c c')"
proof -
  have ij: "i = j" using arp_tags_differ[OF assms(12-15)] .
  have m: "arp_messages L c sq d b r now ! i = Inr m" "arp_messages L c' sq' d' b' r' now' ! i = Inr m"
    using assms(14,15) ij by simp_all
  consider "i = 0" | "i = 1" | "i = 2" | "i = 3" | "i = 4" using assms(12) by linarith
  then show ?thesis
  proof cases
    case 1
    then show ?thesis using ij m arp_attestation_msg_inj[OF assms(1), of sq d m sq' d'] by (simp add: arp_messages_def)
  next
    case 2
    then show ?thesis
      using ij m announce_inj[OF assms(1-3,8-11), of now m now'] by (simp add: arp_messages_def receipts_agree_def)
  next
    case 3
    then show ?thesis
      using ij m activate_inj[OF assms(1-3,6,7), of m] by (simp add: arp_messages_def receipts_agree_def numeral_2_eq_2)
  next
    case 4
    then show ?thesis
      using ij m tagged_time_inj[OF assms(1-3,4,5)]
      by (auto simp: arp_messages_def receipts_agree_def publisher_tea_cancel_receipt_def res_bind_Inr_iff numeral_3_eq_3)
  next
    case 5
    then show ?thesis
      using ij m tagged_time_inj[OF assms(1-3,6,7)]
      by (auto simp: arp_messages_def receipts_agree_def publisher_tea_invalidate_receipt_def res_bind_Inr_iff)
  qed
qed

definition demo_publisher :: publisher_tea_t where
  "demo_publisher =
     \<lparr>pub_artifact = \<lparr>contract = ''PublisherTea'', hex_template = [], ctor_params = [], structs = [],
        state_props = [], stateful = True\<rparr>,
      pub_params = \<lparr>publisher_key = replicate 33 2, approver_key = replicate 33 3, cancel_key = replicate 33 2,
        publisher_hash = replicate 32 7, delay_seconds = 60, attestor_pubkeys = [77, 77, 77], quorum = 2\<rparr>,
      pub_state = publisher_tea_genesis_state\<rparr>"

definition demo_attestor :: attestor_tea_t where
  "demo_attestor = \<lparr>att_artifact = pub_artifact demo_publisher,
     att_params = \<lparr>operator_pubkey = replicate 33 2, attestor_rabin_pubkey = 77, unbond_not_before = 0\<rparr>\<rparr>"

text \<open>With a hash that is constantly zero, zero is a root of every message.\<close>

definition zero_sig :: rabin_verifier_sig_t where
  "zero_sig = \<lparr>vsig_s = 0, vpadding = Some [], padding_len = 0\<rparr>"

lemma zero_sig_valid: "rabin_verifier_verify_sig demo_bn_in demo_bn_arith (\<lambda>_. []) m zero_sig 77"
proof -
  have "rabin_hash demo_bn_in (\<lambda>_. []) d = 0" for d
  proof -
    have "expand_loop (\<lambda>_. []) k [] = []" for k by (induction k) (simp_all add: rabin_bin2hash_def)
    then show ?thesis by (simp add: rabin_hash_def demo_bn_in_def rabin_bin2hash_def)
  qed
  then show ?thesis
    using rabin_verifier_verify_sig_iff[OF demo_bn_arith_ok, of 77 zero_sig "[]"] by (simp add: zero_sig_def)
qed

theorem conflicting_releases_slashable_witness:
  "attestor_tea_check_equivocation bn_reference demo_bn_in demo_bn_arith (\<lambda>_. []) demo_attestor 5
     (replicate 32 1) zero_sig (replicate 32 2) zero_sig = Inr True \<and>
   card {i. i < 3 \<and> att_used ([(Some 5, Some zero_sig, True), (Some 5, Some zero_sig, True), (None, None, False)] ! i) \<and>
     att_used ([(None, None, False), (Some 5, Some zero_sig, True), (Some 5, Some zero_sig, True)] ! i)} \<ge> 1"
proof -
  define att no :: attestation where "att = (Some 5, Some zero_sig, True)" and "no = (None, None, False)"
  have n: "length [att, att, no] = length (attestor_pubkeys (pub_params demo_publisher))"
    "length [no, att, att] = length (attestor_pubkeys (pub_params demo_publisher))"
    "attestor_pubkeys (pub_params demo_publisher) = [77, 77, 77]" "quorum (pub_params demo_publisher) = 2"
    by (simp_all add: demo_publisher_def)
  have msg: "\<exists>m. arp_attestation_msg bn_reference 5 d = Inr m" for d
  proof -
    have "\<exists>s. int2bytestring_sized bn_reference 5 8 = Inr s"
      using int2bytestring_sized_spec[OF bn_reference_ok, of 5 8]
      by (auto simp: sm_fits_def split: sum.splits)
    then show ?thesis by (auto simp: arp_attestation_msg_def)
  qed
  have q: "publisher_tea_check_quorum bn_reference demo_bn_in demo_bn_arith (\<lambda>_. []) demo_publisher d [att, att, no] = Inr True"
      "publisher_tea_check_quorum bn_reference demo_bn_in demo_bn_arith (\<lambda>_. []) demo_publisher d [no, att, att] = Inr True"
    for d using msg[of d] zero_sig_valid by (auto simp: publisher_tea_check_quorum_def n att_def no_def)
  have d: "replicate 32 (1 :: byte) \<noteq> replicate 32 2" by simp
  have a: "attestor_rabin_pubkey (att_params demo_attestor) = 77" by (simp add: demo_attestor_def)
  note main = conflicting_releases_slashable[OF n(1,2) q(1)[of "replicate 32 1"] q(2)[of "replicate 32 2"] d, unfolded n(3,4)]
  have three: "length [77, 77, 77 :: int] = 3" "length [att, att, no] = 3" by simp_all
  have "card {i. i < 3 \<and> att_used ([att, att, no] ! i) \<and> att_used ([no, att, att] ! i)} \<ge> 1"
    using conjunct1[OF main] unfolding three by linarith
  moreover have one: "1 < length [att, att, no]" "att_used ([att, att, no] ! 1)" "att_used ([no, att, att] ! 1)"
    by (simp_all add: att_def att_used_def)
  obtain sq sq' sg sg' where i: "[att, att, no] ! 1 = (Some sq, Some sg, True)" "[no, att, att] ! 1 = (Some sq', Some sg', True)"
      and e: "sq = sq' \<longrightarrow> (\<forall>a. attestor_rabin_pubkey (att_params a) = [77, 77, 77] ! 1 \<longrightarrow>
         attestor_tea_check_equivocation bn_reference demo_bn_in demo_bn_arith (\<lambda>_. []) a sq
           (replicate 32 1) sg (replicate 32 2) sg' = Inr True)"
    using conjunct2[OF main, rule_format, OF one] by blast
  have v: "sq = 5" "sq' = 5" "sg = zero_sig" "sg' = zero_sig" using i by (simp_all add: att_def)
  have "attestor_tea_check_equivocation bn_reference demo_bn_in demo_bn_arith (\<lambda>_. []) demo_attestor 5
     (replicate 32 1) zero_sig (replicate 32 2) zero_sig = Inr True"
    using e a unfolding v by simp
  ultimately show ?thesis unfolding att_def no_def by blast
qed

theorem arp_messages_commit_witness:
  "\<nexists>m. arp_messages bn_reference demo_publisher 5 (replicate 32 1) (replicate 32 2) (replicate 32 3) 9 ! 2 = Inr m \<and>
     arp_messages bn_reference demo_publisher 5 (replicate 32 1) (replicate 32 2) (replicate 32 3) 9 ! 4 = Inr m"
proof -
  have l: "length (publisher_hash (pub_params demo_publisher)) = 32"
    "length (pending_bundle_hash (pub_state demo_publisher)) = 32"
    by (simp_all add: demo_publisher_def publisher_tea_genesis_state_def ZERO32_def)
  show ?thesis
    using arp_messages_commit[OF bn_reference_ok l(1) l(1) l(2) l(2), where i = 2 and j = 4
        and d = "replicate 32 1" and d' = "replicate 32 1" and b = "replicate 32 2" and b' = "replicate 32 2"
        and r = "replicate 32 3" and r' = "replicate 32 3"] by auto
qed

end
