(* ===== verification/Ecdsa.thy ===== *)
theory Ecdsa
  imports Sighash Base58 ScriptCodec
begin

text \<open>
  Signing keys and the spending of outputs: \<^verbatim>\<open>src/crypto/ecdsa.c\<close> over the curve library, and
  the unlocking-script helpers of \<^verbatim>\<open>src/scrypt/contract_call.c\<close>. The curve library is a
  parameter with its documented laws; a private key is its 32 secret bytes, a public key and a
  signature are values of the library's own types. Creating the shared library context and
  scrubbing secrets are not modelled.
\<close>

section \<open>Model\<close>

record ('p, 's) secp =
  ec_seckey_verify :: "bytes \<Rightarrow> bool"
  ec_pubkey_create :: "bytes \<Rightarrow> 'p option"
  ec_pubkey_parse :: "bytes \<Rightarrow> 'p option"
  ec_pubkey_serialize :: "'p \<Rightarrow> bytes option"
  ec_sign :: "bytes \<Rightarrow> bytes \<Rightarrow> 's option"
  ec_normalize :: "'s \<Rightarrow> 's"
  ec_serialize_der :: "'s \<Rightarrow> bytes option"
  ec_parse_der :: "bytes \<Rightarrow> 's option"
  ec_verify :: "'s \<Rightarrow> bytes \<Rightarrow> 'p \<Rightarrow> bool"

text \<open>
  The documented laws: a verified secret has a public key, whose compressed form is 33 bytes and
  parses back; signing a 32-byte digest with it gives a signature that verifies under that key
  after normalization; normalization is idempotent; the DER form is not empty, has at most 72
  bytes, and parses back.
\<close>

definition secp_ok :: "('p, 's) secp \<Rightarrow> bool" where
  "secp_ok S \<longleftrightarrow>
     (\<forall>k. ec_seckey_verify S k \<longrightarrow> (\<exists>p b. ec_pubkey_create S k = Some p \<and>
        ec_pubkey_serialize S p = Some b \<and> length b = 33 \<and> ec_pubkey_parse S b = Some p)) \<and>
     (\<forall>k p d. ec_seckey_verify S k \<longrightarrow> ec_pubkey_create S k = Some p \<longrightarrow> length d = 32 \<longrightarrow>
        (\<exists>s. ec_sign S d k = Some s \<and> ec_verify S (ec_normalize S s) d p)) \<and>
     (\<forall>s. ec_normalize S (ec_normalize S s) = ec_normalize S s) \<and>
     (\<forall>s. \<exists>b. ec_serialize_der S s = Some b \<and> 0 < length b \<and> length b \<le> 72 \<and> ec_parse_der S b = Some s)"

subsection \<open>Keys\<close>

definition ecdsa_key_from_bytes :: "('p, 's) secp \<Rightarrow> bytes \<Rightarrow> bytes res" where
  "ecdsa_key_from_bytes S secret =
     (if \<not> ec_seckey_verify S secret then Inl BNS_EINVAL else Inr secret)"

definition ecdsa_key_from_wif :: "('p, 's) secp \<Rightarrow> (bytes \<Rightarrow> bytes) \<Rightarrow> string \<Rightarrow> (bytes \<times> bool) res" where
  "ecdsa_key_from_wif S sha wif =
     (case base58check_decode sha wif of
        Inl _ \<Rightarrow> Inl BNS_EPARSE
      | Inr payload \<Rightarrow>
          let compressed = (length payload = 34 \<and> payload ! 33 = 0x01);
              len_ok = (length payload = 33 \<or> compressed);
              version' = (if len_ok then payload ! 0 else 0);
              secret = take 32 (drop 1 payload) in
          if \<not> len_ok \<or> (version' \<noteq> 0x80 \<and> version' \<noteq> 0xef) then Inl BNS_EPARSE
          else case ecdsa_key_from_bytes S secret of
              Inl rc \<Rightarrow> Inl (if rc = BNS_ENOMEM then BNS_ENOMEM else BNS_EPARSE)
            | Inr key \<Rightarrow> Inr (key, compressed))"

text \<open>The random source answers one draw per attempt.\<close>

fun key_random_loop :: "('p, 's) secp \<Rightarrow> bytes res list \<Rightarrow> bytes res" where
  "key_random_loop S [] = Inl BNS_ECRYPTO"
| "key_random_loop S (draw # draws) =
     (case draw of
        Inl _ \<Rightarrow> Inl BNS_ECRYPTO
      | Inr secret \<Rightarrow>
          if ec_seckey_verify S secret then ecdsa_key_from_bytes S secret else key_random_loop S draws)"

definition ecdsa_key_random :: "('p, 's) secp \<Rightarrow> (nat \<Rightarrow> bytes res) \<Rightarrow> bytes res" where
  "ecdsa_key_random S rnd = key_random_loop S (map rnd [0..<16])"

definition ecdsa_key_derive_pubkey :: "('p, 's) secp \<Rightarrow> bytes \<Rightarrow> 'p res" where
  "ecdsa_key_derive_pubkey S key =
     (case ec_pubkey_create S key of None \<Rightarrow> Inl BNS_ECRYPTO | Some p \<Rightarrow> Inr p)"

definition ecdsa_key_to_bytes :: "bytes \<Rightarrow> bytes" where
  "ecdsa_key_to_bytes key = key"

definition ecdsa_pubkey_parse :: "('p, 's) secp \<Rightarrow> bytes \<Rightarrow> 'p res" where
  "ecdsa_pubkey_parse S sec =
     (if length sec \<noteq> 33 \<and> length sec \<noteq> 65 then Inl BNS_EPARSE
      else case ec_pubkey_parse S sec of None \<Rightarrow> Inl BNS_EPARSE | Some p \<Rightarrow> Inr p)"

definition ecdsa_pubkey_from_hex :: "('p, 's) secp \<Rightarrow> string \<Rightarrow> 'p res" where
  "ecdsa_pubkey_from_hex S hex =
     (case hex_decode hex of Inl _ \<Rightarrow> Inl BNS_EPARSE | Inr raw \<Rightarrow> ecdsa_pubkey_parse S raw)"

definition ecdsa_pubkey_serialize_compressed :: "('p, 's) secp \<Rightarrow> 'p \<Rightarrow> bytes res" where
  "ecdsa_pubkey_serialize_compressed S pub =
     (case ec_pubkey_serialize S pub of
        None \<Rightarrow> Inl BNS_ECRYPTO
      | Some b \<Rightarrow> if length b \<noteq> 33 then Inl BNS_ECRYPTO else Inr b)"

definition ecdsa_pubkey_to_hex :: "('p, 's) secp \<Rightarrow> 'p \<Rightarrow> string res" where
  "ecdsa_pubkey_to_hex S pub =
     res_bind (ecdsa_pubkey_serialize_compressed S pub) (\<lambda>sec.
     case hex_encode sec of None \<Rightarrow> Inl BNS_ENOMEM | Some hex \<Rightarrow> Inr hex)"

definition ecdsa_sign_low_s :: "('p, 's) secp \<Rightarrow> bytes \<Rightarrow> bytes \<Rightarrow> bytes res" where
  "ecdsa_sign_low_s S digest key =
     (case ec_sign S digest key of
        None \<Rightarrow> Inl BNS_ECRYPTO
      | Some sg \<Rightarrow> (case ec_serialize_der S (ec_normalize S sg) of
          None \<Rightarrow> Inl BNS_ECRYPTO
        | Some der \<Rightarrow> Inr der))"

definition ecdsa_verify :: "('p, 's) secp \<Rightarrow> bytes \<Rightarrow> bytes \<Rightarrow> 'p \<Rightarrow> bool" where
  "ecdsa_verify S digest der pub =
     (if length der = 0 then False
      else case ec_parse_der S der of
        None \<Rightarrow> False
      | Some sg \<Rightarrow> ec_verify S (ec_normalize S sg) digest pub)"

subsection \<open>Unlocking scripts\<close>

text \<open>\<open>len\<close> is a \<^verbatim>\<open>size_t\<close>; the casts to \<^verbatim>\<open>uint8_t\<close> keep its low byte.\<close>

definition contract_call_push_bytes :: "bytes \<Rightarrow> bytes" where
  "contract_call_push_bytes d =
     (let len = length d in
      if len = 0 then [0x00]
      else
        (if len \<le> 75 then [of_nat len]
         else if len \<le> 0xff then [0x4c, of_nat len]
         else if len \<le> 0xffff then [0x4d, of_nat (len mod 256), of_nat (len div 256 mod 256)]
         else [0x4e, of_nat (len mod 256), of_nat (len div 256 mod 256),
               of_nat (len div 65536 mod 256), of_nat (len div 16777216 mod 256)]) @ d)"

definition contract_call_push_int_bn :: "bn_lib \<Rightarrow> bn_t \<Rightarrow> bytes res" where
  "contract_call_push_int_bn L v = to_script_hex L (ArgInt v) SCRYPT_TYPE_INT"

definition contract_call_push_int_i64 :: "bn_lib \<Rightarrow> int \<Rightarrow> bytes res" where
  "contract_call_push_int_i64 L v = contract_call_push_int_bn L v"

definition contract_call_push_sig :: "bytes \<Rightarrow> byte \<Rightarrow> bytes" where
  "contract_call_push_sig der sighash_flag = contract_call_push_bytes (der @ [sighash_flag])"

fun contract_call_prevouts :: "bsv_txin_t list \<Rightarrow> bytes res" where
  "contract_call_prevouts [] = Inr []"
| "contract_call_prevouts (i # is) =
     (case hex_decode_fixed (prev_txid_display i) 32 of
        Inl _ \<Rightarrow> Inl BNS_EINVAL
      | Inr txid_be \<Rightarrow>
          let txid_le = map (\<lambda>j. txid_be ! (31 - j)) [0..<32] in
          res_bind (contract_call_prevouts is) (\<lambda>rest.
          Inr (txid_le @ [ucast (vout i AND 0xff), ucast (drop_bit 8 (vout i) AND 0xff),
                 ucast (drop_bit 16 (vout i) AND 0xff), ucast (drop_bit 24 (vout i) AND 0xff)] @ rest)))"

definition contract_call_sign_preimage ::
  "('p, 's) secp \<Rightarrow> (bytes \<Rightarrow> bytes) \<Rightarrow> bytes \<Rightarrow> bytes \<Rightarrow> byte \<Rightarrow> bytes res" where
  "contract_call_sign_preimage S sha preimage key sighash_flag =
     res_bind (ecdsa_sign_low_s S (sha256d sha preimage) key) (\<lambda>der. Inr (der @ [sighash_flag]))"

definition contract_call_sign_input ::
  "('p, 's) secp \<Rightarrow> (bytes \<Rightarrow> bytes) \<Rightarrow> bsv_tx_t \<Rightarrow> nat \<Rightarrow> bytes \<Rightarrow> u64 \<Rightarrow> byte \<Rightarrow> bytes \<Rightarrow> bytes res" where
  "contract_call_sign_input S sha tx input_index script_code value sighash_flag key =
     res_bind (bip143_sighash sha tx input_index script_code value sighash_flag) (\<lambda>digest.
     res_bind (ecdsa_sign_low_s S digest key) (\<lambda>der. Inr (der @ [sighash_flag])))"

definition contract_call_p2pkh_scriptsig ::
  "('p, 's) secp \<Rightarrow> (bytes \<Rightarrow> bytes) \<Rightarrow> bsv_tx_t \<Rightarrow> nat \<Rightarrow> bytes \<Rightarrow> u64 \<Rightarrow> byte \<Rightarrow> bytes \<Rightarrow> bytes res" where
  "contract_call_p2pkh_scriptsig S sha tx input_index script_code value sighash_flag key =
     res_bind (contract_call_sign_input S sha tx input_index script_code value sighash_flag key) (\<lambda>sig_flag.
     res_bind (ecdsa_key_derive_pubkey S key) (\<lambda>pub.
     res_bind (ecdsa_pubkey_serialize_compressed S pub) (\<lambda>pubkey.
     Inr (contract_call_push_bytes sig_flag @ contract_call_push_bytes pubkey))))"

section \<open>Pushes\<close>

lemma push_bytes_eq: "contract_call_push_bytes d = push_data d"
  by (simp add: contract_call_push_bytes_def push_data_def Let_def)

text \<open>A script of two pushes parses into two chunks that leave the two items on the stack.\<close>

lemma parse_two_pushes:
  assumes "d \<noteq> []" "e \<noteq> []" "length d < 2 ^ 32" "length e < 2 ^ 32"
  shows "\<exists>c c'. script_parse (push_data d @ push_data e) 2 = Inr [c, c'] \<and>
    stack_item c = Some d \<and> stack_item c' = Some e"
proof -
  define c c' where "c = \<lparr>opcode = push_opcode (length d), chunk_data = Some d\<rparr>"
    and "c' = \<lparr>opcode = push_opcode (length e), chunk_data = Some e\<rparr>"
  note p = push_data_chunk[OF assms(1,3), folded c_def] push_data_chunk[OF assms(2,4), folded c'_def]
  have "script_parse (push_data d @ push_data e) 2 = Inr [c, c']"
    unfolding script_parse_def
    by (subst script_parse_loop_enc[of "[c, c']"]) (use p in auto)
  then show ?thesis by (auto simp: c_def c'_def stack_item_def)
qed

section \<open>Signatures\<close>

lemma sign_verifies:
  assumes "secp_ok S" "ec_seckey_verify S key" "length digest = 32"
  shows "\<exists>der p. ecdsa_sign_low_s S digest key = Inr der \<and> ecdsa_key_derive_pubkey S key = Inr p \<and>
    length der \<le> 72 \<and> ecdsa_verify S digest der p"
proof -
  obtain p where p: "ec_pubkey_create S key = Some p" using assms(1,2) unfolding secp_ok_def by blast
  obtain s where s: "ec_sign S digest key = Some s" "ec_verify S (ec_normalize S s) digest p"
    using assms p unfolding secp_ok_def by blast
  obtain der where der: "ec_serialize_der S (ec_normalize S s) = Some der" "0 < length der" "length der \<le> 72"
      "ec_parse_der S der = Some (ec_normalize S s)"
    using assms(1) unfolding secp_ok_def by blast
  have "ec_normalize S (ec_normalize S s) = ec_normalize S s" using assms(1) by (simp add: secp_ok_def)
  then show ?thesis using p s der
    by (auto simp: ecdsa_sign_low_s_def ecdsa_key_derive_pubkey_def ecdsa_verify_def)
qed

lemma pubkey_compressed:
  assumes "secp_ok S" "ec_seckey_verify S key" "ecdsa_key_derive_pubkey S key = Inr p"
  shows "\<exists>b. ecdsa_pubkey_serialize_compressed S p = Inr b \<and> length b = 33 \<and> ecdsa_pubkey_parse S b = Inr p"
proof -
  obtain p' b where "ec_pubkey_create S key = Some p'" "ec_pubkey_serialize S p' = Some b" "length b = 33"
      "ec_pubkey_parse S b = Some p'"
    using assms(1,2) unfolding secp_ok_def by blast
  then show ?thesis using assms(3)
    by (auto simp: ecdsa_key_derive_pubkey_def ecdsa_pubkey_serialize_compressed_def ecdsa_pubkey_parse_def)
qed

section \<open>The previous outputs a contract sees\<close>

lemma prevouts_eq:
  "contract_call_prevouts is = Inr b \<longleftrightarrow> enc_n append_outpoint is = Inr b"
proof (induction "is" arbitrary: b)
  case (Cons i "is")
  show ?case
  proof (cases "hex_decode_fixed (prev_txid_display i) 32")
    case (Inr be)
    then show ?thesis using Cons.IH
      by (auto simp: append_outpoint_def res_bind_Inr_iff Let_def append_u32_le_def)
  qed (simp add: append_outpoint_def)
qed simp

text \<open>The previous-output bytes pushed to a contract are those its signature hash commits to.\<close>

lemma prevouts_hashed:
  "contract_call_prevouts (inputs tx) = Inr b \<Longrightarrow> hash_prevouts sha tx = Inr (sha256d sha b)"
  by (simp add: prevouts_eq hash_prevouts_def)

section \<open>Keys from WIF\<close>

lemma key_from_wif_iff:
  "ecdsa_key_from_wif S sha wif = Inr (key, compressed) \<longleftrightarrow>
     (\<exists>net. wif_decode sha wif = Inr (key, compressed, net)) \<and> ec_seckey_verify S key"
proof (cases "base58check_decode sha wif")
  case (Inr payload)
  then show ?thesis
    by (auto simp: ecdsa_key_from_wif_def wif_decode_def ecdsa_key_from_bytes_def Let_def split: if_splits)
qed (simp add: ecdsa_key_from_wif_def wif_decode_def)

text \<open>A random key is always a verified secret, and one good draw in sixteen suffices.\<close>

lemma key_random_loop_iff:
  "key_random_loop S ds = Inr k \<longleftrightarrow>
     (\<exists>i < length ds. ds ! i = Inr k \<and> ec_seckey_verify S k \<and>
        (\<forall>j < i. \<exists>x. ds ! j = Inr x \<and> \<not> ec_seckey_verify S x))"
proof (induction ds)
  case (Cons d ds)
  show ?case
  proof (cases d)
    case (Inl e)
    then show ?thesis by (auto simp: less_Suc_eq_0_disj)
  next
    case (Inr x)
    show ?thesis
    proof (cases "ec_seckey_verify S x")
      case True
      then show ?thesis using Inr by (fastforce simp: ecdsa_key_from_bytes_def less_Suc_eq_0_disj)
    next
      case False
      then show ?thesis using Inr Cons.IH by (auto simp: Ex_less_Suc2 All_less_Suc2)
    qed
  qed
qed simp

section \<open>Spending an output\<close>

text \<open>
  What the network checks of a pay-to-public-key-hash input: the unlocking script pushes a
  signature with its flag byte and a public key, the key hashes to the one in the locking script,
  and the signature verifies under it for the digest of the spending transaction.
\<close>

definition p2pkh_unlocks ::
  "('p, 's) secp \<Rightarrow> (bytes \<Rightarrow> bytes) \<Rightarrow> (bytes \<Rightarrow> bytes) \<Rightarrow> bsv_tx_t \<Rightarrow> nat \<Rightarrow> bytes \<Rightarrow> u64 \<Rightarrow> bool" where
  "p2pkh_unlocks S sha ripemd tx idx lock value \<longleftrightarrow>
     (\<exists>c c' der flag pk p digest. script_parse (script_sig (inputs tx ! idx)) 2 = Inr [c, c'] \<and>
        stack_item c = Some (der @ [flag]) \<and> stack_item c' = Some pk \<and>
        is_p2pkh_out lock = Some (hash160 sha ripemd pk) \<and> ecdsa_pubkey_parse S pk = Inr p \<and>
        bip143_sighash sha tx idx lock value flag = Inr digest \<and> ecdsa_verify S digest der p)"

definition attach :: "bsv_tx_t \<Rightarrow> nat \<Rightarrow> bytes \<Rightarrow> bsv_tx_t" where
  "attach tx idx ss = tx\<lparr>inputs := (inputs tx)[idx := (inputs tx ! idx)\<lparr>script_sig := ss\<rparr>]\<rparr>"

lemma enc_n_update:
  "i < length xs \<Longrightarrow> f x = f (xs ! i) \<Longrightarrow> enc_n f (xs[i := x]) = enc_n f xs"
proof (induction xs arbitrary: i)
  case (Cons y ys)
  then show ?case by (cases i) auto
qed simp

text \<open>The digest does not depend on unlocking scripts.\<close>

lemma sighash_attach:
  "idx < length (inputs tx) \<Longrightarrow>
     bip143_sighash sha (attach tx idx ss) i lock value flag = bip143_sighash sha tx i lock value flag"
  by (cases "i = idx")
    (simp_all add: attach_def bip143_sighash_def bip143_preimage_def hash_prevouts_def hash_sequence_def
      hash_outputs_def enc_n_update append_outpoint_def Let_def)

lemma sighash_length:
  "\<forall>x. length (sha x) = 32 \<Longrightarrow> bip143_sighash sha tx idx lock value flag = Inr digest \<Longrightarrow> length digest = 32"
  by (auto simp: bip143_sighash_def res_bind_Inr_iff sha256d_def)

text \<open>
  C19. A key spends what is paid to it. For a valid private key, an output that pays to the hash of
  its public key, and a transaction whose digest for that input exists, the unlocking script is
  built, and the transaction with it attached satisfies the network's check, whatever other
  unlocking scripts the transaction carries.
\<close>

theorem p2pkh_spend_unlocks:
  assumes "secp_ok S" "ec_seckey_verify S key" "\<forall>x. length (sha x) = 32" "\<forall>x. length (ripemd x) = 20"
    and "ecdsa_key_derive_pubkey S key = Inr p" "ecdsa_pubkey_serialize_compressed S p = Inr pk"
    and "lock = build_p2pkh_script (hash160 sha ripemd pk)"
    and "bip143_sighash sha tx idx lock value flag = Inr digest"
  shows "\<exists>ss. contract_call_p2pkh_scriptsig S sha tx idx lock value flag key = Inr ss \<and>
    p2pkh_unlocks S sha ripemd (attach tx idx ss) idx lock value"
proof -
  obtain der where der: "ecdsa_sign_low_s S digest key = Inr der" "length der \<le> 72" "ecdsa_verify S digest der p"
    using sign_verifies[OF assms(1,2) sighash_length[OF assms(3,8)]] assms(5) by auto
  have pk: "length pk = 33" "ecdsa_pubkey_parse S pk = Inr p"
    using pubkey_compressed[OF assms(1,2,5)] assms(6) by auto
  define ss where "ss = push_data (der @ [flag]) @ push_data pk"
  have ss: "contract_call_p2pkh_scriptsig S sha tx idx lock value flag key = Inr ss"
    using assms(5,6,8) der(1)
    by (simp add: contract_call_p2pkh_scriptsig_def contract_call_sign_input_def push_bytes_eq ss_def)
  have "der @ [flag] \<noteq> []" "pk \<noteq> []" "length (der @ [flag]) < 2 ^ 32" "length pk < 2 ^ 32" using der(2) pk(1) by auto
  then obtain c c' where c: "script_parse ss 2 = Inr [c, c']" "stack_item c = Some (der @ [flag])" "stack_item c' = Some pk"
    using parse_two_pushes unfolding ss_def by blast
  have idx: "idx < length (inputs tx)"
    using assms(8) by (auto simp: bip143_sighash_def bip143_preimage_def res_bind_Inr_iff split: if_splits)
  have h: "is_p2pkh_out lock = Some (hash160 sha ripemd pk)"
    unfolding is_p2pkh_out_iff using assms(4,7) by (simp add: hash160_def)
  have "script_sig (inputs (attach tx idx ss) ! idx) = ss" using idx by (simp add: attach_def)
  then have "p2pkh_unlocks S sha ripemd (attach tx idx ss) idx lock value"
    unfolding p2pkh_unlocks_def sighash_attach[OF idx] using c h pk(2) assms(8) der(3)
    by (intro exI[of _ c] exI[of _ c'] exI[of _ der] exI[of _ flag] exI[of _ pk] exI[of _ p] exI[of _ digest]) simp
  with ss show ?thesis by blast
qed

definition demo_secp :: "(bytes, 256 word) secp" where
  "demo_secp = \<lparr>ec_seckey_verify = (\<lambda>k. length k = 32), ec_pubkey_create = (\<lambda>k. Some (2 # take 32 k)),
     ec_pubkey_parse = Some, ec_pubkey_serialize = Some, ec_sign = (\<lambda>d k. Some (le_val d)),
     ec_normalize = (\<lambda>s. s), ec_serialize_der = (\<lambda>s. Some (le_bytes 32 s)),
     ec_parse_der = (\<lambda>d. Some (le_val d)), ec_verify = (\<lambda>s d p. s = le_val d)\<rparr>"

lemma demo_secp_ok: "secp_ok demo_secp"
proof -
  have "le_bytes 32 (s :: 256 word) \<noteq> []" for s by (metis length_le_bytes list.size(3) zero_neq_numeral)
  then show ?thesis by (simp add: secp_ok_def demo_secp_def le_val_le_bytes)
qed

definition demo_spend :: bsv_tx_t where
  "demo_spend = \<lparr>version = 1, inputs = [\<lparr>prev_txid_display = replicate 64 (CHR ''a''), vout = 1, script_sig = [], sequence = 5\<rparr>],
     outputs = [], locktime = 0\<rparr>"

theorem p2pkh_spend_unlocks_witness:
  "\<exists>ss. p2pkh_unlocks demo_secp (\<lambda>_. replicate 32 7) (\<lambda>_. replicate 20 9) (attach demo_spend 0 ss) 0
     (build_p2pkh_script (replicate 20 9)) 1000"
proof -
  have hx: "is_hex_char (CHR ''a'')" by code_simp
  have "\<exists>digest. bip143_sighash (\<lambda>_. replicate 32 7) demo_spend 0 (build_p2pkh_script (replicate 20 9)) 1000 0x41 = Inr digest"
    using bip143_sighash_errors[where sha = "\<lambda>_. replicate 32 7" and tx = demo_spend and k = 0 and ty = "0x41"
        and sc = "build_p2pkh_script (replicate 20 9)" and amt = 1000]
      hx by (auto simp: demo_spend_def txid_ok_def is_hex_len_iff list_all_iff split: sum.splits)
  then obtain digest where d: "bip143_sighash (\<lambda>_. replicate 32 7) demo_spend 0 (build_p2pkh_script (replicate 20 9)) 1000 0x41 = Inr digest"
    by blast
  have k: "ec_seckey_verify demo_secp (replicate 32 1)" "ecdsa_key_derive_pubkey demo_secp (replicate 32 1) = Inr (2 # replicate 32 1)"
    "ecdsa_pubkey_serialize_compressed demo_secp (2 # replicate 32 1) = Inr (2 # replicate 32 1)"
    by (simp_all add: demo_secp_def ecdsa_key_derive_pubkey_def ecdsa_pubkey_serialize_compressed_def)
  show ?thesis
    using p2pkh_spend_unlocks[where ripemd = "\<lambda>_. replicate 20 9", OF demo_secp_ok k(1) _ _ k(2) k(3) _ d]
    by (auto simp: hash160_def)
qed

end
