(* ===== verification/BnText.thy ===== *)
theory BnText
  imports ScriptCodec
begin

text \<open>
  Big integers as text: the decimal and hexadecimal conversions of
  \<^verbatim>\<open>src/crypto/bignum.c\<close> over the conversions of the cryptographic library, and the printing
  of machine integers.
\<close>

section \<open>Model\<close>

text \<open>
  The library's conversions. A parser returns the number of characters it used, zero for an
  error, and the value.
\<close>

record bn_text =
  BN_dec2bn :: "string \<Rightarrow> nat \<times> int"
  BN_hex2bn :: "string \<Rightarrow> nat \<times> int"
  BN_bn2dec :: "int \<Rightarrow> string"
  BN_bn2hex :: "int \<Rightarrow> string"

definition is_dec_char :: "char \<Rightarrow> bool" where
  "is_dec_char c \<longleftrightarrow> 48 \<le> (of_char c :: nat) \<and> (of_char c :: nat) \<le> 57"

definition dec_digit :: "char \<Rightarrow> nat" where
  "dec_digit c = of_char c - 48"

definition dec_val :: "string \<Rightarrow> nat" where
  "dec_val s = foldl (\<lambda>v c. 10 * v + dec_digit c) 0 s"

definition hex_val :: "string \<Rightarrow> nat" where
  "hex_val s = foldl (\<lambda>v c. 16 * v + nat (hex_nibble c)) 0 s"

text \<open>
  What the library documents. The parsers use as many characters as form a number; on a
  string of digits that is all of them. (The library refuses strings beyond a quarter of
  \<^verbatim>\<open>INT_MAX\<close>.) The printers write the digits of the magnitude behind a minus sign for negative
  numbers; the hexadecimal one writes upper-case digits in pairs.
\<close>

definition bn_text_ok :: "bn_text \<Rightarrow> bool" where
  "bn_text_ok T \<longleftrightarrow>
     (\<forall>s. s \<noteq> [] \<longrightarrow> list_all is_dec_char s \<longrightarrow> length s < 2 ^ 28 \<longrightarrow> BN_dec2bn T s = (length s, int (dec_val s))) \<and>
     (\<forall>s. s \<noteq> [] \<longrightarrow> list_all is_hex_char s \<longrightarrow> length s < 2 ^ 28 \<longrightarrow> BN_hex2bn T s = (length s, int (hex_val s))) \<and>
     (\<forall>n. \<exists>s. s \<noteq> [] \<and> list_all is_dec_char s \<and> int (dec_val s) = \<bar>n\<bar> \<and> (hd s = CHR ''0'' \<longrightarrow> s = ''0'') \<and>
        BN_bn2dec T n = (if n < 0 then CHR ''-'' # s else s)) \<and>
     (\<forall>n. \<exists>s. s \<noteq> [] \<and> list_all (\<lambda>c. c \<in> set ''0123456789ABCDEF'') s \<and> int (hex_val s) = \<bar>n\<bar> \<and>
        even (length s) \<and> (2 < length s \<longrightarrow> take 2 s \<noteq> ''00'') \<and>
        BN_bn2hex T n = (if n < 0 then CHR ''-'' # s else s))"

definition bn_parse_dec :: "bn_text \<Rightarrow> string \<Rightarrow> bn_t res" where
  "bn_parse_dec T dec =
     (let (used, r) = BN_dec2bn T dec in
      if used = 0 \<or> used \<noteq> length dec then Inl BNS_EPARSE else Inr r)"

definition bn_parse_hex :: "bn_text \<Rightarrow> string \<Rightarrow> bn_t res" where
  "bn_parse_hex T hex =
     (let negative = (take 1 hex = ''-'');
          p = (if take 1 hex = ''-'' \<or> take 1 hex = ''+'' then drop 1 hex else hex);
          p = (if take 2 p = ''0x'' \<or> take 2 p = ''0X'' then drop 2 p else p)
      in if p = [] then Inl BNS_EPARSE
         else let (used, r) = BN_hex2bn T p in
           if used = 0 \<or> used \<noteq> length p then Inl BNS_EPARSE
           else Inr (if negative then - \<bar>r\<bar> else r))"

definition bn_to_dec :: "bn_text \<Rightarrow> bn_t \<Rightarrow> string" where
  "bn_to_dec T bn = BN_bn2dec T bn"

text \<open>\<^verbatim>\<open>while (p[0] == '0' && p[1] != '\0') p++\<close>\<close>

fun strip_zeros :: "string \<Rightarrow> string" where
  "strip_zeros (c # d # s) = (if c = CHR ''0'' then strip_zeros (d # s) else c # d # s)"
| "strip_zeros s = s"

definition bn_to_hex :: "bn_text \<Rightarrow> bn_t \<Rightarrow> string" where
  "bn_to_hex T bn =
     (let s = BN_bn2hex T bn;
          negative = (take 1 s = ''-'');
          p = strip_zeros (if take 1 s = ''-'' then drop 1 s else s);
          negative = (if p = ''0'' then False else negative)
      in (if negative then ''-'' else []) @
         map lower_char p)"

section \<open>Digits\<close>

lemma dec_val_snoc [simp]: "dec_val (s @ [c]) = 10 * dec_val s + dec_digit c"
  by (simp add: dec_val_def)

lemma hex_val_snoc [simp]: "hex_val (s @ [c]) = 16 * hex_val s + nat (hex_nibble c)"
  by (simp add: hex_val_def)

lemma val_Nil [simp]: "dec_val [] = 0" "hex_val [] = 0"
  by (simp_all add: dec_val_def hex_val_def)

lemma dec_digit_char_of: "n < 10 \<Longrightarrow> dec_digit (char_of (48 + n)) = n \<and> is_dec_char (char_of (48 + n))"
  by (simp add: dec_digit_def is_dec_char_def)

lemma show_nat_dec: "dec_val (show_nat n) = n \<and> list_all is_dec_char (show_nat n) \<and> show_nat n \<noteq> []"
proof (induction n rule: show_nat.induct)
  case (1 n)
  show ?case
  proof (cases "n < 10")
    case True
    then show ?thesis using dec_val_snoc[of "[]"] by (simp add: show_nat.simps[of n] dec_digit_char_of)
  next
    case False
    then show ?thesis using 1 dec_digit_char_of[of "n mod 10"] by (simp add: show_nat.simps[of n])
  qed
qed

lemma dec_char_facts: "is_dec_char c \<Longrightarrow> c \<noteq> CHR '':'' \<and> dec_digit c < 10"
  by (auto simp: is_dec_char_def dec_digit_def)

lemma hex_val_less: "list_all is_hex_char s \<Longrightarrow> hex_val s < 16 ^ length s"
proof (induction s rule: rev_induct)
  case (snoc c s)
  then have "nat (hex_nibble c) < 16" "hex_val s < 16 ^ length s" using hex_char_cases[of c] by auto
  then show ?case by simp
qed simp

lemma hex_val_Cons: "hex_val (c # s) = nat (hex_nibble c) * 16 ^ length s + hex_val s"
proof (induction s rule: rev_induct)
  case Nil
  then show ?case using hex_val_snoc[of "[]"] by simp
next
  case (snoc d s)
  have "hex_val (c # s @ [d]) = 16 * hex_val (c # s) + nat (hex_nibble d)"
    using hex_val_snoc[of "c # s" d] by simp
  then show ?case using snoc by simp
qed

lemma strip_zeros_facts:
  assumes "s \<noteq> []" "list_all P s"
  shows "list_all P (strip_zeros s) \<and> strip_zeros s \<noteq> [] \<and> hex_val (strip_zeros s) = hex_val s \<and>
    (hd (strip_zeros s) = CHR ''0'' \<longrightarrow> strip_zeros s = ''0'')"
  using assms
proof (induction s rule: strip_zeros.induct)
  case (1 c d s)
  have z: "hex_nibble (CHR ''0'') = 0" by code_simp
  show ?case using 1 by (auto simp: hex_val_Cons[of "CHR ''0''"] z)
qed auto

lemma hex_lead_bound:
  assumes "list_all is_hex_char s" "s \<noteq> []" "hd s \<noteq> CHR ''0''"
  shows "16 ^ (length s - 1) \<le> hex_val s"
proof -
  obtain c t where s: "s = c # t" using assms(2) by (cases s) auto
  have all: "\<forall>c \<in> set (Enum.enum :: char list). is_hex_char c \<longrightarrow> c \<noteq> CHR ''0'' \<longrightarrow> 1 \<le> nat (hex_nibble c)"
    by code_simp
  have "1 \<le> nat (hex_nibble c)" using all assms s by (simp add: UNIV_enum[symmetric])
  then have "1 * 16 ^ length t \<le> nat (hex_nibble c) * 16 ^ length t" by (rule mult_right_mono) simp
  then show ?thesis using s by (simp add: hex_val_Cons trans_le_add1)
qed

section \<open>Conversions\<close>

lemma bn_parse_dec_show:
  "bn_text_ok T \<Longrightarrow> s \<noteq> [] \<Longrightarrow> list_all is_dec_char s \<Longrightarrow> length s < 2 ^ 28 \<Longrightarrow> bn_parse_dec T s = Inr (int (dec_val s))"
  by (simp add: bn_text_ok_def bn_parse_dec_def)

lemma bn_to_dec_digits:
  assumes "bn_text_ok T" "0 \<le> n"
  shows "bn_to_dec T n \<noteq> [] \<and> list_all is_dec_char (bn_to_dec T n) \<and> int (dec_val (bn_to_dec T n)) = n \<and>
    (hd (bn_to_dec T n) = CHR ''0'' \<longrightarrow> bn_to_dec T n = ''0'')"
proof -
  have "\<exists>s. s \<noteq> [] \<and> list_all is_dec_char s \<and> int (dec_val s) = \<bar>n\<bar> \<and> (hd s = CHR ''0'' \<longrightarrow> s = ''0'') \<and>
      BN_bn2dec T n = (if n < 0 then CHR ''-'' # s else s)"
    using assms(1) unfolding bn_text_ok_def by blast
  with assms(2) show ?thesis by (auto simp: bn_to_dec_def)
qed

text \<open>A string of hexadecimal digits has neither a sign nor a prefix, so it is read as it is.\<close>

lemma bn_parse_hex_digits:
  assumes "bn_text_ok T" "s \<noteq> []" "list_all is_hex_char s" "length s < 2 ^ 28"
  shows "bn_parse_hex T s = Inr (int (hex_val s))"
proof -
  have "\<not> is_hex_char (CHR ''-'')" "\<not> is_hex_char (CHR ''+'')" "\<not> is_hex_char (CHR ''x'')" "\<not> is_hex_char (CHR ''X'')"
    by code_simp+
  then have "take 1 s \<noteq> ''-''" "take 1 s \<noteq> ''+''" "take 2 s \<noteq> ''0x''" "take 2 s \<noteq> ''0X''"
    using assms(2,3) by (cases s; cases "tl s"; auto)+
  moreover have "BN_hex2bn T s = (length s, int (hex_val s))" using assms by (simp add: bn_text_ok_def)
  ultimately show ?thesis using assms(2) by (simp add: bn_parse_hex_def)
qed

lemma upper_hex_chars:
  assumes "c \<in> set ''0123456789ABCDEF''"
  shows "is_hex_char c \<and> c \<noteq> CHR ''-'' \<and> (lower_char c = CHR ''0'' \<longleftrightarrow> c = CHR ''0'')"
proof -
  have "list_all (\<lambda>c. is_hex_char c \<and> c \<noteq> CHR ''-'' \<and> (lower_char c = CHR ''0'' \<longleftrightarrow> c = CHR ''0'')) ''0123456789ABCDEF''"
    by code_simp
  then show ?thesis using assms unfolding list_all_iff by blast
qed

lemma hex_val_map:
  "(\<And>c. c \<in> set s \<Longrightarrow> hex_nibble (f c) = hex_nibble c) \<Longrightarrow> hex_val (map f s) = hex_val s"
  by (induction s rule: rev_induct) simp_all

lemma hex_of:
  assumes "bn_text_ok T"
  shows "\<exists>s. s \<noteq> [] \<and> list_all (\<lambda>c. c \<in> set ''0123456789ABCDEF'') s \<and> int (hex_val s) = \<bar>n\<bar> \<and>
    BN_bn2hex T n = (if n < 0 then CHR ''-'' # s else s)"
  using assms unfolding bn_text_ok_def by blast

lemma bn_to_hex_digits:
  assumes "bn_text_ok T" "0 \<le> n"
  shows "bn_to_hex T n \<noteq> [] \<and> list_all is_hex_char (bn_to_hex T n) \<and> int (hex_val (bn_to_hex T n)) = n \<and>
    (hd (bn_to_hex T n) = CHR ''0'' \<longrightarrow> bn_to_hex T n = ''0'')"
proof -
  obtain s where s: "s \<noteq> []" "list_all (\<lambda>c. c \<in> set ''0123456789ABCDEF'') s" "int (hex_val s) = n" "BN_bn2hex T n = s"
    using hex_of[OF assms(1), of n] assms(2) by auto
  note z = strip_zeros_facts[OF s(1,2)]
  have "\<forall>c \<in> set s. c \<noteq> CHR ''-''" using s(2) upper_hex_chars unfolding list_all_iff by blast
  then have sgn: "take 1 s \<noteq> ''-''" using s(1) by (cases s) auto
  have eq: "bn_to_hex T n = map lower_char (strip_zeros s)" using s(4) sgn by (simp add: bn_to_hex_def Let_def)
  have u: "is_hex_char c \<and> (lower_char c = CHR ''0'' \<longleftrightarrow> c = CHR ''0'')" if "c \<in> set (strip_zeros s)" for c
    using z that upper_hex_chars unfolding list_all_iff by blast
  have "hex_val (map lower_char (strip_zeros s)) = hex_val (strip_zeros s)"
    by (rule hex_val_map) (use u hex_char_cases in blast)
  moreover have "list_all is_hex_char (map lower_char (strip_zeros s))"
    using u by (simp add: list_all_iff is_hex_char_lower)
  moreover have "hd (map lower_char (strip_zeros s)) = CHR ''0'' \<longrightarrow> map lower_char (strip_zeros s) = ''0''"
    using z u[OF hd_in_set] by (auto simp: hd_map lower_char_def)
  ultimately show ?thesis using z s(3) unfolding eq by simp
qed

lemma bn_hex_length:
  assumes "bn_text_ok T" "0 \<le> n" "n < 16 ^ k" "0 < k"
  shows "length (bn_to_hex T n) \<le> k"
proof (cases "hd (bn_to_hex T n) = CHR ''0''")
  case True
  then show ?thesis using bn_to_hex_digits[OF assms(1,2)] assms(4) by simp
next
  case False
  note d = bn_to_hex_digits[OF assms(1,2)]
  have "int (16 ^ (length (bn_to_hex T n) - 1)) \<le> n" using hex_lead_bound[OF _ _ False] d
    by (metis of_nat_le_iff)
  then have "(16 :: int) ^ (length (bn_to_hex T n) - 1) < 16 ^ k" using assms(3) by (auto simp del: power_strict_increasing_iff)
  then have "length (bn_to_hex T n) - 1 < k" by (rule power_less_imp_less_exp[rotated]) simp
  then show ?thesis by simp
qed

end
