(* ===== verification/RabinAttestor.thy ===== *)
theory RabinAttestor
  imports Arp BnText
begin

text \<open>
  Attestations in text form, \<^verbatim>\<open>src/verifier/rabin_attestor.c\<close>: the message an attestor
  signs, the wire format of its signature, the parser of that format and the verifier that
  the release gate calls.
\<close>

section \<open>Model\<close>

definition ATTEST_DOMAIN_BYTES :: bytes where
  "ATTEST_DOMAIN_BYTES =
     [0x41, 0x52, 0x50, 0x31, 0x5f, 0x41, 0x54, 0x54, 0x45, 0x53, 0x54, 0x5f, 0x56, 0x31]"

definition is_valid_digest_hex :: "string \<Rightarrow> bool" where
  "is_valid_digest_hex digest_hex =
     (if length digest_hex < 64 then False
      else if \<not> list_all (\<lambda>ch. let c = of_char ch :: int in
            48 \<le> c \<and> c \<le> 57 \<or> 97 \<le> c \<and> c \<le> 102 \<or> 65 \<le> c \<and> c \<le> 70) (take 64 digest_hex) then False
      else length digest_hex = 64)"

text \<open>The loop that writes the sequence number, low byte first.\<close>

fun seq_loop :: "nat \<Rightarrow> u64 \<Rightarrow> bytes" where
  "seq_loop 0 v = []"
| "seq_loop (Suc k) v = ucast (v AND 0xff) # seq_loop k (drop_bit 8 v)"

definition build_msg_bytes :: "u64 \<Rightarrow> string \<Rightarrow> bytes res" where
  "build_msg_bytes seq digest_hex =
     (if seq \<ge> push_bit 63 1 then Inl BNS_EINVAL
      else if \<not> is_valid_digest_hex digest_hex then Inl BNS_EINVAL
      else case hex_decode_fixed digest_hex 32 of
          Inl _ \<Rightarrow> Inl BNS_EINVAL
        | Inr digest \<Rightarrow> Inr (ATTEST_DOMAIN_BYTES @ seq_loop 8 seq @ digest))"

definition attestor_pub_key :: "bn_text \<Rightarrow> rabin_key_t \<Rightarrow> string" where
  "attestor_pub_key T key = bn_to_dec T (rabin_pubkey key)"

definition attestation_msg_hex :: "u64 \<Rightarrow> string \<Rightarrow> string res" where
  "attestation_msg_hex seq digest_hex =
     res_bind (build_msg_bytes seq digest_hex) (\<lambda>msg.
     case hex_encode msg of None \<Rightarrow> Inl BNS_ENOMEM | Some hex \<Rightarrow> Inr hex)"

text \<open>The outer \<open>None\<close> is a signing search that does not end.\<close>

definition rabin_attestor_sign_digest ::
  "bn_lib \<Rightarrow> bn_in \<Rightarrow> bn_arith \<Rightarrow> bn_text \<Rightarrow> (bytes \<Rightarrow> bytes) \<Rightarrow> rabin_key_t \<Rightarrow> string \<Rightarrow> u64 \<Rightarrow> string res option" where
  "rabin_attestor_sign_digest L I A T sha key digest_hex seq =
     (case build_msg_bytes seq digest_hex of
        Inl e \<Rightarrow> Some (Inl e)
      | Inr msg \<Rightarrow>
          map_option (\<lambda>r. res_bind r (\<lambda>sg.
              Inr (show_nat (unat seq) @ '':'' @ bn_to_hex T (sig_s sg) @ '':'' @ show_nat (padding_byte_count sg))))
            (rabin_sign L I A sha msg key))"

text \<open>The accumulator is a \<^verbatim>\<open>uint64_t\<close>; the guard comes before the multiplication.\<close>

fun parse_u64_loop :: "string \<Rightarrow> u64 \<Rightarrow> u64 option" where
  "parse_u64_loop [] v = Some v"
| "parse_u64_loop (ch # s) v =
     (let c = of_char ch :: int in
      if c < 48 \<or> 57 < c then None
      else let d = word_of_int (c - 48) :: u64 in
        if v > (- 1 - d) div 10 then None
        else parse_u64_loop s (v * 10 + d))"

definition parse_u64_dec :: "string \<Rightarrow> u64 option" where
  "parse_u64_dec s = (if length s = 0 then None else parse_u64_loop s 0)"

record parsed_attestation_t =
  att_seq :: u64
  att_s :: bn_t
  att_padding :: u64

definition strchr :: "string \<Rightarrow> char \<Rightarrow> nat option" where
  "strchr s c = find_idx (\<lambda>x. x = c) s"

definition parse_attestation :: "bn_text \<Rightarrow> string \<Rightarrow> parsed_attestation_t option" where
  "parse_attestation T signature =
     (case strchr signature (CHR '':'') of None \<Rightarrow> None | Some len0 \<Rightarrow>
      let c1 = drop (len0 + 1) signature in
      case strchr c1 (CHR '':'') of None \<Rightarrow> None | Some len1 \<Rightarrow>
      let c2 = drop (len1 + 1) c1 in
      if strchr c2 (CHR '':'') \<noteq> None then None
      else case parse_u64_dec (take len0 signature) of None \<Rightarrow> None | Some seq \<Rightarrow>
      case parse_u64_dec c2 of None \<Rightarrow> None | Some pad \<Rightarrow>
      if pad > of_nat RABIN_MAX_PADDING_BYTES then None
      else if len1 = 0 then None
      else if len1 > 1024 then None
      else if \<not> list_all (\<lambda>ch. let c = of_char ch :: int in
            48 \<le> c \<and> c \<le> 57 \<or> 97 \<le> c \<and> c \<le> 102 \<or> 65 \<le> c \<and> c \<le> 70) (take len1 c1) then None
      else case bn_parse_hex T (take len1 c1) of
          Inl _ \<Rightarrow> None
        | Inr s \<Rightarrow> Some \<lparr>att_seq = seq, att_s = s, att_padding = pad\<rparr>)"

definition rabin_attestation_verify ::
  "bn_in \<Rightarrow> bn_arith \<Rightarrow> bn_text \<Rightarrow> (bytes \<Rightarrow> bytes) \<Rightarrow> string \<Rightarrow> string \<Rightarrow> string \<Rightarrow> bool" where
  "rabin_attestation_verify I A T sha attestor_pubkey digest_hex signature =
     (case bn_parse_dec T attestor_pubkey of Inl _ \<Rightarrow> False | Inr n \<Rightarrow>
      case parse_attestation T signature of None \<Rightarrow> False | Some att \<Rightarrow>
      case build_msg_bytes (att_seq att) digest_hex of Inl _ \<Rightarrow> False | Inr msg \<Rightarrow>
      rabin_verify I A sha msg \<lparr>sig_s = att_s att, padding_byte_count = unat (att_padding att)\<rparr> n)"

section \<open>Numbers in text\<close>

lemma is_hex_char_ranges:
  "(let c = of_char ch :: int in 48 \<le> c \<and> c \<le> 57 \<or> 97 \<le> c \<and> c \<le> 102 \<or> 65 \<le> c \<and> c \<le> 70) \<longleftrightarrow> is_hex_char ch"
  by (simp add: is_hex_char_def hex_nibble_def Let_def)

lemma is_valid_digest_iff: "is_valid_digest_hex d \<longleftrightarrow> is_sha256_hex d"
  by (auto simp: is_valid_digest_hex_def is_hex_char_ranges is_sha256_hex_def is_hex_len_iff)

lemma div10_guard:
  assumes "unat d < 10"
  shows "(v :: u64) \<le> (- 1 - d) div 10 \<longleftrightarrow> 10 * unat v + unat d < 2 ^ 64"
proof -
  have m: "unat (- 1 :: u64) = 2 ^ 64 - 1" by (simp add: unsigned_minus_1_eq_mask mask_eq_exp_minus_1)
  have "unat (- 1 - d :: u64) = 2 ^ 64 - 1 - unat d"
    by (subst unat_sub) (use m assms in \<open>auto simp: word_le_nat_alt\<close>)
  then have "unat ((- 1 - d) div 10 :: u64) = (2 ^ 64 - 1 - unat d) div 10" by (simp add: unat_div_distrib)
  then show ?thesis using assms by (simp add: word_le_nat_alt less_eq_div_iff_mult_less_eq) linarith
qed

text \<open>The decimal parser reads exactly the digit strings whose value fits in 64 bits.\<close>

lemma parse_u64_loop_iff:
  "parse_u64_loop s v = Some w \<longleftrightarrow>
     list_all is_dec_char s \<and> unat w = foldl (\<lambda>v c. 10 * v + dec_digit c) (unat v) s"
proof (induction s arbitrary: v)
  case Nil
  then show ?case by (auto intro: word_unat_eq_iff[THEN iffD2])
next
  case (Cons ch s)
  define d :: u64 where "d = word_of_int (of_char ch - 48)"
  show ?case
  proof (cases "is_dec_char ch")
    case False
    have "(of_char ch :: int) = int (of_char ch)" by (simp add: of_nat_of_char)
    with False have "(of_char ch :: int) < 48 \<or> 57 < (of_char ch :: int)"
      by (simp add: is_dec_char_def del: of_nat_of_char) linarith
    then show ?thesis using False by simp
  next
    case True
    have c: "(of_char ch :: int) = int (of_char ch)" by (simp add: of_nat_of_char)
    have r: "\<not> ((of_char ch :: int) < 48 \<or> 57 < (of_char ch :: int))"
      using True unfolding is_dec_char_def c by linarith
    have "of_char ch - 48 = int (dec_digit ch)" using True unfolding is_dec_char_def dec_digit_def c by linarith
    then have d: "d = of_nat (dec_digit ch)" unfolding d_def by simp
    have u: "unat d = dec_digit ch" using dec_char_facts[OF True] unfolding d by (simp add: unat_of_nat)
    have step: "parse_u64_loop (ch # s) v =
        (if v > (- 1 - d) div 10 then None else parse_u64_loop s (v * 10 + d))"
      by (simp only: parse_u64_loop.simps Let_def r if_False d_def[symmetric])
    show ?thesis
    proof (cases "10 * unat v + unat d < 2 ^ 64")
      case False
      have g: "(- 1 - d) div 10 < v" using div10_guard[of d v] u dec_char_facts[OF True] False by simp
      have "x \<le> foldl (\<lambda>v c. 10 * v + dec_digit c) x t" for x t
        by (induction t rule: rev_induct) auto
      then have "10 * unat v + dec_digit ch \<le> foldl (\<lambda>v c. 10 * v + dec_digit c) (10 * unat v + dec_digit ch) s" .
      then have "unat w \<noteq> foldl (\<lambda>v c. 10 * v + dec_digit c) (10 * unat v + dec_digit ch) s"
        using False u unsigned_less[of w, where 'a = nat] by simp
      then show ?thesis using g True unfolding step by simp
    next
      case nov: True
      have g: "\<not> (- 1 - d) div 10 < v" using div10_guard[of d v] u dec_char_facts[OF True] nov by simp
      have "unat (v * 10 + d) = 10 * unat v + unat d"
        using nov by (simp add: unat_word_ariths mult.commute)
      then show ?thesis using g True u unfolding step by (simp add: Cons.IH)
    qed
  qed
qed

lemma parse_u64_dec_iff:
  "parse_u64_dec s = Some w \<longleftrightarrow> s \<noteq> [] \<and> list_all is_dec_char s \<and> unat w = dec_val s"
  by (auto simp: parse_u64_dec_def parse_u64_loop_iff dec_val_def)

lemma parse_u64_show: "parse_u64_dec (show_nat (unat w)) = Some w"
  using show_nat_dec[of "unat w"] by (simp add: parse_u64_dec_iff)

section \<open>The message\<close>

lemma ucast_and_byte: "ucast ((v :: u64) AND 0xff) = (ucast v :: byte)"
proof (rule bit_word_eqI)
  fix j assume "j < LENGTH(8)"
  have m: "(0xff :: u64) = mask 8" by (simp add: mask_eq_exp_minus_1)
  show "bit (ucast (v AND 0xff) :: byte) j = bit (ucast v :: byte) j"
    using \<open>j < LENGTH(8)\<close> unfolding m by (auto simp: bit_ucast_iff bit_and_iff bit_mask_iff)
qed

lemma seq_loop_eq: "seq_loop k v = le_bytes k v"
  by (induction k arbitrary: v) (simp_all add: le_bytes_Suc ucast_and_byte)

lemma seq_limit: "(seq :: u64) \<ge> push_bit 63 1 \<longleftrightarrow> 2 ^ 63 \<le> unat seq"
proof -
  have "unat (push_bit 63 1 :: u64) = 2 ^ 63" by simp
  then show ?thesis by (simp only: word_le_nat_alt)
qed

lemma build_msg_iff:
  "build_msg_bytes seq d = Inr m \<longleftrightarrow> unat seq < 2 ^ 63 \<and>
     (\<exists>dig. length dig = 32 \<and> hex_to_lower d = hex_encode_loop dig \<and> m = ATTEST_DOMAIN_BYTES @ le_bytes 8 seq @ dig)"
proof (cases "unat seq < 2 ^ 63 \<and> is_sha256_hex d")
  case False
  have "\<not> (length dig = 32 \<and> hex_to_lower d = hex_encode_loop dig)" if "\<not> is_sha256_hex d" for dig
    using that hex_decode_InrD[of d dig] unfolding is_sha256_hex_def is_hex_len_iff hex_decode_Inr_iff by auto
  then show ?thesis using False unfolding build_msg_bytes_def seq_limit is_valid_digest_iff
    by (cases "2 ^ 63 \<le> unat seq"; cases "is_sha256_hex d") auto
next
  case True
  then have "length d = 2 * 32" by (simp add: is_sha256_hex_def is_hex_len_iff)
  then have f: "hex_decode_fixed d 32 = hex_decode d" by (simp add: hex_decode_fixed_def hex_decode_eq_loop)
  have "list_all is_hex_char d" "even (length d)" using True by (simp_all add: is_sha256_hex_def is_hex_len_iff)
  then obtain dig where dig: "hex_decode d = Inr dig"
    using hex_decode_loop_ok[of d] by (auto simp: hex_decode_eq_loop)
  then have "length dig = 32" "hex_to_lower d = hex_encode_loop dig"
    using hex_decode_InrD[OF dig] \<open>length d = 2 * 32\<close> by auto
  moreover have "build_msg_bytes seq d = Inr (ATTEST_DOMAIN_BYTES @ le_bytes 8 seq @ dig)"
    using True dig f unfolding build_msg_bytes_def seq_limit is_valid_digest_iff by (simp add: seq_loop_eq)
  ultimately show ?thesis using True by auto
qed

lemma build_msg_inj:
  assumes "build_msg_bytes seq d = Inr m" "build_msg_bytes seq' d' = Inr m"
  shows "seq = seq' \<and> hex_to_lower d = hex_to_lower d'"
  using assms le_bytes_inj[where 'a = 64, of 8 seq seq'] by (auto simp: build_msg_iff)

lemma build_msg_total: "unat seq < 2 ^ 63 \<Longrightarrow> is_sha256_hex d \<Longrightarrow> \<exists>m. build_msg_bytes seq d = Inr m"
proof -
  assume a: "unat seq < 2 ^ 63" "is_sha256_hex d"
  then have h: "list_all is_hex_char d" "length d = 64" by (simp_all add: is_sha256_hex_def is_hex_len_iff)
  then obtain dig where dig: "hex_decode d = Inr dig" using hex_decode_loop_ok[of d] by (auto simp: hex_decode_eq_loop)
  then have "length dig = 32" "hex_to_lower d = hex_encode_loop dig" using hex_decode_InrD[OF dig] h(2) by auto
  then show ?thesis using a(1) unfolding build_msg_iff by blast
qed

text \<open>The message in text form is the message the release contracts check.\<close>

lemma top_byte_small: "unat (ucast (drop_bit 56 (v :: u64)) :: byte) < 128 \<longleftrightarrow> unat v < 2 ^ 63"
proof -
  have d: "unat (drop_bit 56 v) = unat v div 2 ^ 56" by (simp add: drop_bit_eq_div unat_div_distrib)
  have "unat v div 2 ^ 56 < 256" using unsigned_less[of v, where 'a = nat] by (simp add: div_less_iff_less_mult)
  then have "unat (ucast (drop_bit 56 v) :: byte) = unat v div 2 ^ 56" by (simp add: unsigned_ucast_eq take_bit_eq_mod d)
  then show ?thesis by (simp add: div_less_iff_less_mult)
qed

lemma sized_of_u64:
  assumes "bn_lib_ok L"
  shows "int2bytestring_sized L (int (unat (v :: u64))) 8 =
    (if unat v < 2 ^ 63 then Inr (le_bytes 8 v) else Inl BNS_ERANGE)"
proof -
  have n: "BN_num_bytes L (int (unat v)) \<le> 8"
    using bn_lib_num[OF assms, of "int (unat v)" 8] unsigned_less[of v, where 'a = nat] by simp
  have "le_nat (le_bytes 8 v) = unat v" unfolding le_nat_le_bytes using unsigned_less[of v, where 'a = nat] by simp
  then have "BN_bn2lebinpad L (int (unat v)) 8 = le_bytes 8 v"
    using bn_lib_pad[OF assms n] by (intro le_nat_inj) simp_all
  then have pad: "bn_to_le_bytes L (int (unat v)) 8 = Inr (le_bytes 8 v)" using n by (simp add: bn_to_le_bytes_def)
  have top: "le_bytes 8 v ! 7 AND 0x80 \<noteq> 0 \<longleftrightarrow> \<not> unat v < 2 ^ 63"
    using arg_cong[OF top_byte_small[of v], of Not] by (simp add: byte_sign not_less)
  show ?thesis
  proof (cases "unat v < 2 ^ 63")
    case True
    then show ?thesis using pad top by (simp add: int2bytestring_sized_def split_sign_mag_eq)
  next
    case False
    then show ?thesis using pad top by (simp add: int2bytestring_sized_def split_sign_mag_eq)
  qed
qed

section \<open>The wire format\<close>

lemma strchr_append: "c \<notin> set a \<Longrightarrow> strchr (a @ c # r) c = Some (length a)"
  by (induction a) (auto simp: strchr_def)

lemma strchr_None: "strchr s c = None \<longleftrightarrow> c \<notin> set s"
  by (auto simp: strchr_def find_idx_None)

lemma strchr_Some: "strchr s c = Some i \<longleftrightarrow> i < length s \<and> s ! i = c \<and> c \<notin> set (take i s)"
proof
  assume "strchr s c = Some i"
  then show "i < length s \<and> s ! i = c \<and> c \<notin> set (take i s)"
    using find_idx_Some[of "\<lambda>x. x = c" s i] by (auto simp: strchr_def in_set_conv_nth)
next
  assume a: "i < length s \<and> s ! i = c \<and> c \<notin> set (take i s)"
  then have "s = take i s @ c # drop (Suc i) s" by (metis id_take_nth_drop)
  then show "strchr s c = Some i" using strchr_append[of c "take i s" "drop (Suc i) s"] a by simp
qed

text \<open>
  The parser accepts exactly three parts: a sequence number and a padding count in decimal
  within their bounds, and at most 1024 hexadecimal digits between them.
\<close>

lemma parse_attestation_iff:
  assumes "bn_text_ok T"
  shows "parse_attestation T w = Some att \<longleftrightarrow> (\<exists>a h p. w = a @ '':'' @ h @ '':'' @ p \<and>
    parse_u64_dec a = Some (att_seq att) \<and> parse_u64_dec p = Some (att_padding att) \<and>
    unat (att_padding att) \<le> RABIN_MAX_PADDING_BYTES \<and>
    h \<noteq> [] \<and> length h \<le> 1024 \<and> list_all is_hex_char h \<and> att_s att = int (hex_val h))"
    (is "?L \<longleftrightarrow> ?R")
proof -
  have no_colon: "CHR '':'' \<notin> set s" if "list_all is_dec_char s" for s
    using that dec_char_facts by (auto simp: list_all_iff)
  have "\<not> is_hex_char (CHR '':'')" by code_simp
  then have no_colon_hex: "CHR '':'' \<notin> set s" if "list_all is_hex_char s" for s
    using that by (auto simp: list_all_iff)
  have pad: "(p :: u64) > of_nat RABIN_MAX_PADDING_BYTES \<longleftrightarrow> \<not> unat p \<le> RABIN_MAX_PADDING_BYTES" for p
    by (simp add: RABIN_MAX_PADDING_BYTES_def word_less_nat_alt not_le)
  show ?thesis
  proof
    assume ?L
    then obtain i j where i: "strchr w (CHR '':'') = Some i" and j: "strchr (drop (i + 1) w) (CHR '':'') = Some j"
      and p: "strchr (drop (j + 1) (drop (i + 1) w)) (CHR '':'') = None"
      by (auto simp: parse_attestation_def Let_def split: option.splits if_splits)
    define h where "h = take j (drop (i + 1) w)"
    define q where "q = drop (j + 1) (drop (i + 1) w)"
    have "w = take i w @ '':'' @ drop (i + 1) w" using i id_take_nth_drop[of i w] by (simp add: strchr_Some)
    moreover have d: "drop (i + 1) w = h @ '':'' @ q"
      using j id_take_nth_drop[of j "drop (i + 1) w"] by (simp add: strchr_Some h_def q_def)
    ultimately have w: "w = take i w @ '':'' @ h @ '':'' @ q" by simp
    have len: "length h = j" using j by (simp add: strchr_Some h_def)
    have rest: "parse_u64_dec (take i w) = Some (att_seq att)" "parse_u64_dec q = Some (att_padding att)"
      "unat (att_padding att) \<le> RABIN_MAX_PADDING_BYTES" "h \<noteq> []" "length h \<le> 1024" "list_all is_hex_char h"
      "bn_parse_hex T h = Inr (att_s att)"
      using \<open>?L\<close> len unfolding parse_attestation_def Let_def i option.case j p is_hex_char_ranges[unfolded Let_def]
        h_def[symmetric] q_def[symmetric] pad
      by (auto split: option.splits if_splits sum.splits)
    have "att_s att = int (hex_val h)" using bn_parse_hex_digits[OF assms rest(4,6)] rest(5,7) by simp
    then show ?R using w rest by blast
  next
    assume ?R
    then obtain a h p where w: "w = a @ '':'' @ h @ '':'' @ p"
      and a: "parse_u64_dec a = Some (att_seq att)" and p: "parse_u64_dec p = Some (att_padding att)"
      and le: "unat (att_padding att) \<le> RABIN_MAX_PADDING_BYTES"
      and h: "h \<noteq> []" "length h \<le> 1024" "list_all is_hex_char h" "att_s att = int (hex_val h)"
      by blast
    have "CHR '':'' \<notin> set a" "CHR '':'' \<notin> set p" using a p no_colon by (auto simp: parse_u64_dec_iff)
    then have "strchr w (CHR '':'') = Some (length a)" "strchr p (CHR '':'') = None"
      using strchr_append[of "CHR '':''" a] by (simp_all add: w strchr_None)
    moreover have "strchr (h @ '':'' @ p) (CHR '':'') = Some (length h)"
      using strchr_append[OF no_colon_hex[OF h(3)]] by simp
    moreover have "bn_parse_hex T h = Inr (att_s att)" using bn_parse_hex_digits[OF assms h(1,3)] h(2,4) by simp
    moreover have "drop (length a + 1) w = h @ '':'' @ p" "take (length a) w = a" by (simp_all add: w)
    ultimately show ?L using a p le h
      unfolding parse_attestation_def Let_def is_hex_char_ranges[unfolded Let_def] pad by simp
  qed
qed

lemma attestation_verify_iff:
  "rabin_attestation_verify I A T sha pk d w \<longleftrightarrow>
     (\<exists>n att m. bn_parse_dec T pk = Inr n \<and> parse_attestation T w = Some att \<and>
        build_msg_bytes (att_seq att) d = Inr m \<and>
        rabin_verify I A sha m \<lparr>sig_s = att_s att, padding_byte_count = unat (att_padding att)\<rparr> n)"
  unfolding rabin_attestation_verify_def
  by (cases "bn_parse_dec T pk"; cases "parse_attestation T w"; cases "build_msg_bytes (att_seq (the (parse_attestation T w))) d") auto

lemma dec_lead_bound:
  assumes "list_all is_dec_char s" "s \<noteq> []" "hd s \<noteq> CHR ''0''"
  shows "10 ^ (length s - 1) \<le> dec_val s"
  using assms
proof (induction s rule: rev_induct)
  case (snoc c s)
  show ?case
  proof (cases "s = []")
    case True
    have "char_of (48 :: nat) = CHR ''0''" by code_simp
    then have "(of_char c :: nat) \<noteq> 48" using snoc.prems True char_of_char[of c] by (metis append_Nil list.sel(1))
    then have "1 \<le> dec_digit c" using snoc.prems by (auto simp: is_dec_char_def dec_digit_def)
    then show ?thesis using True dec_val_snoc[of "[]" c] by simp
  next
    case False
    then have "10 ^ (length s - 1) \<le> dec_val s" using snoc by simp
    then have "10 * 10 ^ (length s - 1) \<le> 10 * dec_val s" by simp
    then show ?thesis using False by (simp flip: power_Suc)
  qed
qed simp

lemma dec_length:
  assumes "list_all is_dec_char s" "s \<noteq> []" "hd s = CHR ''0'' \<longrightarrow> s = ''0''" "int (dec_val s) < 16 ^ k"
  shows "length s \<le> 2 * k + 1"
proof (cases "hd s = CHR ''0''")
  case False
  have "int (10 ^ (length s - 1)) \<le> int (dec_val s)" using dec_lead_bound[OF assms(1,2) False] by (simp only: of_nat_le_iff)
  also have "\<dots> < 16 ^ k" by (rule assms(4))
  also have "\<dots> \<le> (100 :: int) ^ k" by (rule power_mono) simp_all
  also have "\<dots> = 10 ^ (2 * k)" by (simp add: power_mult)
  finally have "(10 :: int) ^ (length s - 1) < 10 ^ (2 * k)" by (simp only: of_nat_power of_nat_numeral)
  then have "length s - 1 < 2 * k" by (rule power_less_imp_less_exp[rotated]) simp
  then show ?thesis by simp
qed (use assms(3) in simp)

lemma pub_key_parses:
  assumes "bn_text_ok T" "0 \<le> rabin_pubkey key" "rabin_pubkey key < 16 ^ k" "2 * k + 1 < 2 ^ 28"
  shows "bn_parse_dec T (attestor_pub_key T key) = Inr (rabin_pubkey key)"
proof -
  define s where "s = attestor_pub_key T key"
  have s: "s \<noteq> []" "list_all is_dec_char s" "int (dec_val s) = rabin_pubkey key" "hd s = CHR ''0'' \<longrightarrow> s = ''0''"
    using bn_to_dec_digits[OF assms(1,2)] by (simp_all add: s_def attestor_pub_key_def)
  have "length s \<le> 2 * k + 1" by (rule dec_length[OF s(2,1,4)]) (use s(3) assms(3) in simp)
  then have "length s < 2 ^ 28" using assms(4) by (rule le_less_trans)
  then show ?thesis using bn_parse_dec_show[OF assms(1) s(1,2)] s(3) by (simp add: s_def)
qed

lemma blum_key_pubkey: "blum_key key \<Longrightarrow> 0 < rabin_pubkey key"
  using blum_prime_facts[of "key_p key"] blum_prime_facts[of "key_q key"]
  by (simp add: blum_key_def rabin_pubkey_def)

lemma sign_digest_Inr:
  assumes "build_msg_bytes seq d = Inr m"
    and "rabin_attestor_sign_digest L I A T sha key d seq = Some r" "rabin_sign L I A sha m key = Some (Inr sg)"
  shows "r = Inr (show_nat (unat seq) @ '':'' @ bn_to_hex T (sig_s sg) @ '':'' @ show_nat (padding_byte_count sg))"
  using assms by (auto simp: rabin_attestor_sign_digest_def)

text \<open>What the parser makes of a printed attestation.\<close>

lemma parse_printed:
  assumes "bn_text_ok T" "0 \<le> s" "s < 16 ^ 1024"
    and w_def: "w = show_nat (unat seq) @ '':'' @ bn_to_hex T s @ '':'' @ show_nat k"
  shows "parse_attestation T w =
    (if k \<le> RABIN_MAX_PADDING_BYTES then Some \<lparr>att_seq = seq, att_s = s, att_padding = of_nat k\<rparr> else None)"
proof -
  have h: "bn_to_hex T s \<noteq> []" "length (bn_to_hex T s) \<le> 1024" "list_all is_hex_char (bn_to_hex T s)"
    "int (hex_val (bn_to_hex T s)) = s"
    using bn_to_hex_digits[OF assms(1,2)] bn_hex_length[OF assms(1-3)] by simp_all
  have dc: "CHR '':'' \<notin> set (show_nat n)" for n
    using show_nat_dec[of n] dec_char_facts by (auto simp: list_all_iff)
  have "\<not> is_hex_char (CHR '':'')" by code_simp
  then have hc: "CHR '':'' \<notin> set t" if "list_all is_hex_char t" for t using that by (auto simp: list_all_iff)
  have uniq: "a = show_nat (unat seq) \<and> t = bn_to_hex T s \<and> p = show_nat k"
    if "w = a @ '':'' @ t @ '':'' @ p" "list_all is_hex_char t" "parse_u64_dec a = Some x" for a t p x
  proof -
    have a: "CHR '':'' \<notin> set a" using that(3) dec_char_facts by (auto simp: parse_u64_dec_iff list_all_iff)
    have "strchr w (CHR '':'') = Some (length a)" unfolding that(1) using strchr_append[OF a] by simp
    moreover have "strchr w (CHR '':'') = Some (length (show_nat (unat seq)))" unfolding w_def using strchr_append[OF dc] by simp
    ultimately have la: "length a = length (show_nat (unat seq))" by simp
    have "a @ '':'' @ t @ '':'' @ p = show_nat (unat seq) @ '':'' @ bn_to_hex T s @ '':'' @ show_nat k"
      using that(1) unfolding w_def by (rule sym)
    then have e: "a = show_nat (unat seq)" "t @ '':'' @ p = bn_to_hex T s @ '':'' @ show_nat k"
      using la by simp_all
    have "strchr (t @ '':'' @ p) (CHR '':'') = Some (length t)" using strchr_append[OF hc[OF that(2)]] by simp
    moreover have "strchr (t @ '':'' @ p) (CHR '':'') = Some (length (bn_to_hex T s))"
      unfolding e(2) using strchr_append[OF hc[OF h(3)]] by simp
    ultimately have "length t = length (bn_to_hex T s)" by simp
    then show ?thesis using e by simp
  qed
  show ?thesis
  proof (cases "k \<le> RABIN_MAX_PADDING_BYTES")
    case True
    then have "unat (of_nat k :: u64) = k" by (simp add: RABIN_MAX_PADDING_BYTES_def unat_of_nat)
    then have "parse_u64_dec (show_nat k) = Some (of_nat k)" "unat (of_nat k :: u64) \<le> RABIN_MAX_PADDING_BYTES"
      using parse_u64_show[of "of_nat k"] True by simp_all
    then have "parse_attestation T w = Some \<lparr>att_seq = seq, att_s = s, att_padding = of_nat k\<rparr>"
      unfolding parse_attestation_iff[OF assms(1)] using h parse_u64_show[of seq]
      by (intro exI[of _ "show_nat (unat seq)"] exI[of _ "bn_to_hex T s"] exI[of _ "show_nat k"]) (simp add: w_def)
    then show ?thesis using True by simp
  next
    case False
    have "parse_attestation T w \<noteq> Some att" for att
    proof
      assume "parse_attestation T w = Some att"
      then obtain a t p where "w = a @ '':'' @ t @ '':'' @ p" "parse_u64_dec a = Some (att_seq att)" "list_all is_hex_char t"
        and p: "parse_u64_dec p = Some (att_padding att)" "unat (att_padding att) \<le> RABIN_MAX_PADDING_BYTES"
        unfolding parse_attestation_iff[OF assms(1)] by blast
      then have "p = show_nat k" using uniq by blast
      then have "unat (att_padding att) = k" using p(1) show_nat_dec[of k] by (simp add: parse_u64_dec_iff)
      then show False using p(2) False by simp
    qed
    then show ?thesis using False by auto
  qed
qed

text \<open>
  A printed attestation parses back to what was signed, unless its padding, the first one that
  gives a square, is over the cap. Then, and only then, the verifier accepts it, for the digests
  whose message has the signed message's padded hash.
\<close>

lemma printed_attestation:
  assumes "bn_lib_ok L" "bn_in_ok I" "bn_arith_ok A" "bn_text_ok T" "blum_key key"
    and "rabin_pubkey key < 16 ^ 1024" "unat seq < 2 ^ 63" "is_sha256_hex d"
    and "rabin_attestor_sign_digest L I A T sha key d seq = Some r"
  shows "\<exists>m k s w. r = Inr w \<and> build_msg_bytes seq d = Inr m \<and>
    first_square (rabin_pubkey key) (padded_hash I sha m) k \<and> 0 \<le> s \<and> s < rabin_pubkey key \<and>
    s * s mod rabin_pubkey key = padded_hash I sha m k mod rabin_pubkey key \<and>
    parse_attestation T w =
      (if k \<le> RABIN_MAX_PADDING_BYTES then Some \<lparr>att_seq = seq, att_s = s, att_padding = of_nat k\<rparr> else None) \<and>
    (\<forall>d'. rabin_attestation_verify I A T sha (attestor_pub_key T key) d' w \<longleftrightarrow>
       k \<le> RABIN_MAX_PADDING_BYTES \<and> (\<exists>m'. build_msg_bytes seq d' = Inr m' \<and>
         padded_hash I sha m' k mod rabin_pubkey key = padded_hash I sha m k mod rabin_pubkey key))"
proof -
  define n where "n = rabin_pubkey key"
  obtain m where m: "build_msg_bytes seq d = Inr m" using build_msg_total[OF assms(7,8)] by blast
  have "rabin_sign L I A sha m key \<noteq> None" using assms(9) m by (auto simp: rabin_attestor_sign_digest_def)
  then obtain sg where sg: "rabin_sign L I A sha m key = Some (Inr sg)"
    and least: "first_square n (padded_hash I sha m) (padding_byte_count sg)"
    and pos: "0 \<le> sig_s sg" "sig_s sg < n"
    using rabin_sign_facts[OF assms(1-3,5), of sha m] unfolding n_def first_square_def
    by (auto split: option.splits sum.splits)
  define k where "k = padding_byte_count sg"
  define s where "s = sig_s sg"
  define w where "w = show_nat (unat seq) @ '':'' @ bn_to_hex T s @ '':'' @ show_nat k"
  have n: "0 < n" using blum_key_pubkey[OF assms(5)] by (simp add: n_def)
  have root: "s * s mod n = padded_hash I sha m k mod n"
    using sign_loop_sound[OF _ assms(3) n] sg unfolding rabin_sign_Inr n_def s_def k_def by blast
  have r: "r = Inr w" using sign_digest_Inr[OF m assms(9) sg] by (simp add: w_def s_def k_def)
  have s: "0 \<le> s" "s < 16 ^ 1024" using pos assms(6) unfolding s_def n_def by (simp_all del: power_numeral)
  note parse = parse_printed[OF assms(4) s w_def]
  have pk: "bn_parse_dec T (attestor_pub_key T key) = Inr n"
    using pub_key_parses[OF assms(4) _ assms(6)] n by (simp add: n_def)
  have small: "unat (of_nat k :: u64) = k" if "k \<le> RABIN_MAX_PADDING_BYTES"
    using that by (simp add: RABIN_MAX_PADDING_BYTES_def unat_of_nat)
  have "rabin_attestation_verify I A T sha (attestor_pub_key T key) d' w \<longleftrightarrow> k \<le> RABIN_MAX_PADDING_BYTES \<and>
      (\<exists>m'. build_msg_bytes seq d' = Inr m' \<and> padded_hash I sha m' k mod n = padded_hash I sha m k mod n)" for d'
    unfolding attestation_verify_iff pk parse rabin_verify_iff[OF assms(3) n] using small n root
    by (auto simp: rabin_verify_iff[OF assms(3)])
  then show ?thesis using r m least pos parse root unfolding n_def s_def[symmetric] k_def[symmetric] by blast
qed


text \<open>A library of the documented behaviour.\<close>

fun hex_digits :: "nat \<Rightarrow> string" where
  "hex_digits n = (if n < 16 then [''0123456789ABCDEF'' ! n] else hex_digits (n div 16) @ [''0123456789ABCDEF'' ! (n mod 16)])"

declare hex_digits.simps [simp del]

definition even_hex :: "string \<Rightarrow> string" where
  "even_hex s = (if odd (length s) then CHR ''0'' # s else s)"

definition demo_bn_text :: bn_text where
  "demo_bn_text = \<lparr>BN_dec2bn = \<lambda>s. if list_all is_dec_char s then (length s, int (dec_val s)) else (0, 0),
     BN_hex2bn = \<lambda>s. if list_all is_hex_char s then (length s, int (hex_val s)) else (0, 0),
     BN_bn2dec = \<lambda>n. (if n < 0 then ''-'' else []) @ show_nat (nat \<bar>n\<bar>),
     BN_bn2hex = \<lambda>n. (if n < 0 then ''-'' else []) @ even_hex (hex_digits (nat \<bar>n\<bar>))\<rparr>"

lemma upper_digit:
  "n < 16 \<Longrightarrow> nat (hex_nibble (''0123456789ABCDEF'' ! n)) = n \<and> ''0123456789ABCDEF'' ! n \<in> set ''0123456789ABCDEF'' \<and>
     (''0123456789ABCDEF'' ! n = CHR ''0'' \<longrightarrow> n = 0)"
proof -
  have "list_all (\<lambda>n. nat (hex_nibble (''0123456789ABCDEF'' ! n)) = n \<and> ''0123456789ABCDEF'' ! n \<in> set ''0123456789ABCDEF'' \<and>
     (''0123456789ABCDEF'' ! n = CHR ''0'' \<longrightarrow> n = 0)) [0..<16]"
    by code_simp
  then show "n < 16 \<Longrightarrow> ?thesis" by (simp add: list_all_iff)
qed

lemma hex_digits_spec:
  "hex_val (hex_digits n) = n \<and> list_all (\<lambda>c. c \<in> set ''0123456789ABCDEF'') (hex_digits n) \<and> hex_digits n \<noteq> [] \<and>
     (hd (hex_digits n) = CHR ''0'' \<longrightarrow> n = 0)"
proof (induction n rule: hex_digits.induct)
  case (1 n)
  show ?case
  proof (cases "n < 16")
    case True
    then show ?thesis using upper_digit[OF True] hex_val_snoc[of "[]"] by (simp add: hex_digits.simps[of n])
  next
    case False
    then have "n div 16 \<noteq> 0" by simp
    then show ?thesis using 1[OF False] upper_digit[of "n mod 16"] False
      by (simp add: hex_digits.simps[of n] del: list.set set_simps)
  qed
qed

lemma show_nat_lead: "hd (show_nat n) = CHR ''0'' \<longrightarrow> show_nat n = ''0''"
proof (induction n rule: show_nat.induct)
  case (1 n)
  show ?case
  proof (cases "n < 10")
    case True
    then show ?thesis by (simp add: show_nat.simps[of n])
  next
    case False
    then have "n div 10 \<noteq> 0" "show_nat (n div 10) \<noteq> []" using show_nat_dec[of "n div 10"] by auto
    moreover have "show_nat (n div 10) \<noteq> ''0''"
      using show_nat_dec[of "n div 10"] \<open>n div 10 \<noteq> 0\<close> by (auto simp: dec_val_def dec_digit_def)
    ultimately show ?thesis using 1[OF False] False by (simp add: show_nat.simps[of n])
  qed
qed

lemma demo_bn_text_ok: "bn_text_ok demo_bn_text"
proof -
  have dec: "\<exists>s. s \<noteq> [] \<and> list_all is_dec_char s \<and> int (dec_val s) = \<bar>n\<bar> \<and> (hd s = CHR ''0'' \<longrightarrow> s = ''0'') \<and>
      BN_bn2dec demo_bn_text n = (if n < 0 then CHR ''-'' # s else s)" for n
    using show_nat_dec[of "nat \<bar>n\<bar>"] show_nat_lead[of "nat \<bar>n\<bar>"]
    by (intro exI[of _ "show_nat (nat \<bar>n\<bar>)"]) (simp add: demo_bn_text_def)
  have hex: "\<exists>s. s \<noteq> [] \<and> list_all (\<lambda>c. c \<in> set ''0123456789ABCDEF'') s \<and> int (hex_val s) = \<bar>n\<bar> \<and>
      even (length s) \<and> (2 < length s \<longrightarrow> take 2 s \<noteq> ''00'') \<and>
      BN_bn2hex demo_bn_text n = (if n < 0 then CHR ''-'' # s else s)" for n
  proof (intro exI conjI)
    let ?h = "hex_digits (nat \<bar>n\<bar>)"
    note h = hex_digits_spec[of "nat \<bar>n\<bar>"]
    show "even_hex ?h \<noteq> []" using h by (simp add: even_hex_def)
    show "list_all (\<lambda>c. c \<in> set ''0123456789ABCDEF'') (even_hex ?h)" using h by (simp add: even_hex_def)
    have "hex_nibble (CHR ''0'') = 0" by code_simp
    then show "int (hex_val (even_hex ?h)) = \<bar>n\<bar>" using h by (simp add: even_hex_def hex_val_Cons)
    show "even (length (even_hex ?h))" by (simp add: even_hex_def)
    show "2 < length (even_hex ?h) \<longrightarrow> take 2 (even_hex ?h) \<noteq> ''00''"
    proof (intro impI notI)
      assume l: "2 < length (even_hex ?h)" and t: "take 2 (even_hex ?h) = ''00''"
      have "hd ?h = CHR ''0''" using t l by (cases ?h; cases "tl ?h") (auto simp: even_hex_def split: if_splits)
      then have "nat \<bar>n\<bar> = 0" using h by blast
      then show False using l by (simp add: even_hex_def hex_digits.simps)
    qed
    show "BN_bn2hex demo_bn_text n = (if n < 0 then CHR ''-'' # even_hex ?h else even_hex ?h)"
      by (simp add: demo_bn_text_def)
  qed
  show ?thesis unfolding bn_text_ok_def using dec hex by (auto simp: demo_bn_text_def)
qed

definition demo_zero_sha :: "bytes \<Rightarrow> bytes" where
  "demo_zero_sha d = replicate 32 0"

lemma demo_zero_padded: "padded_hash demo_bn_in demo_zero_sha m k = 0"
proof -
  have e: "\<exists>j. expand_loop demo_zero_sha i (replicate j0 0) = replicate j 0" for i j0
    by (induction i arbitrary: j0) (auto simp: rabin_bin2hash_def demo_zero_sha_def simp flip: replicate_add)
  have "rabin_bin2hash demo_zero_sha d = replicate 64 0" for d
    by (simp add: rabin_bin2hash_def demo_zero_sha_def flip: replicate_add)
  then obtain j where "expand_loop demo_zero_sha (BONSAI_RABIN_SECURITY_LEVEL - 1) (rabin_bin2hash demo_zero_sha (m @ replicate k 0)) = replicate j 0"
    using e[of _ 64] by metis
  then show ?thesis unfolding padded_hash_def rabin_hash_def by (simp add: demo_bn_in_def le_nat_replicate_zero)
qed

lemma demo_zero_sign:
  "\<exists>s. rabin_sign bn_reference demo_bn_in demo_bn_arith demo_zero_sha m demo_rabin_key =
    Some (Inr \<lparr>sig_s = s, padding_byte_count = 0\<rparr>) \<and> 0 \<le> s \<and> s < 77"
proof -
  have sq: "square_mod n 0" for n unfolding square_mod_def by (rule exI[of _ 0]) simp
  have n: "rabin_pubkey demo_rabin_key = 77" by (simp add: rabin_pubkey_def demo_rabin_key_def)
  define r where "r = rabin_sign bn_reference demo_bn_in demo_bn_arith demo_zero_sha m demo_rabin_key"
  note main = rabin_sign_facts[OF bn_reference_ok demo_bn_in_ok demo_bn_arith_ok demo_blum_key,
      of demo_zero_sha m, unfolded n demo_zero_padded, folded r_def]
  obtain sg where r: "r = Some (Inr sg)" using main sq by (auto split: option.splits sum.splits)
  have "sg = \<lparr>sig_s = sig_s sg, padding_byte_count = 0\<rparr>" using main r sq by (cases sg) auto
  then show ?thesis using main r unfolding r_def[symmetric] by (intro exI[of _ "sig_s sg"]) simp
qed


section \<open>The gate and the contract\<close>

lemma gate_contract_iff:
  assumes "bn_lib_ok L" "bn_parse_dec T pk = Inr n" "parse_attestation T w = Some att"
    and "hex_decode d = Inr dig" "length dig = 32"
  shows "rabin_attestation_verify I A T sha pk d w \<longleftrightarrow>
    (\<exists>msg. arp_attestation_msg L (int (unat (att_seq att))) dig = Inr msg \<and>
       rabin_verifier_verify_sig I A sha msg \<lparr>vsig_s = att_s att,
         vpadding = Some (replicate (unat (att_padding att)) 0), padding_len = unat (att_padding att)\<rparr> n)"
proof -
  have d: "hex_to_lower d = hex_encode_loop dig" using assms(4) by (simp add: hex_decode_Inr_iff)
  have tag: "ATTEST_DOMAIN_BYTES = ARP_ATTEST_TAG" by (simp add: ATTEST_DOMAIN_BYTES_def ARP_ATTEST_TAG_def)
  have m: "build_msg_bytes (att_seq att) d = Inr msg \<longleftrightarrow> arp_attestation_msg L (int (unat (att_seq att))) dig = Inr msg" for msg
    unfolding build_msg_iff d hex_encode_loop_inj tag arp_attestation_msg_def sized_of_u64[OF assms(1)]
    using assms(5) by auto
  have v: "rabin_verifier_verify_sig I A sha msg \<lparr>vsig_s = att_s att,
         vpadding = Some (replicate (unat (att_padding att)) 0), padding_len = unat (att_padding att)\<rparr> n \<longleftrightarrow>
      rabin_verify I A sha msg \<lparr>sig_s = att_s att, padding_byte_count = unat (att_padding att)\<rparr> n" for msg
    by (auto simp: rabin_verifier_verify_sig_def rabin_verify_def list_ex_iff)
  show ?thesis unfolding attestation_verify_iff assms(2,3) using m v by auto
qed

text \<open>
  C16. The release gate and the release contracts agree. For a digest of 32 bytes and an
  attestation that parses, the gate's verifier accepts the text exactly when the check of the
  contracts accepts the parsed numbers over the contract's message, whose
  sequence number is written by the script-number encoder; a sequence number of 64 bits is
  refused by both.
\<close>

theorem gate_matches_contract:
  assumes "bn_lib_ok L" "bn_parse_dec T pk = Inr n" "parse_attestation T w = Some att"
    and "hex_decode d = Inr dig" "length dig = 32"
  shows "rabin_attestation_verify I A T sha pk d w \<longleftrightarrow>
    (\<exists>msg. arp_attestation_msg L (int (unat (att_seq att))) dig = Inr msg \<and>
       rabin_verifier_verify_sig I A sha msg \<lparr>vsig_s = att_s att,
         vpadding = Some (replicate (unat (att_padding att)) 0), padding_len = unat (att_padding att)\<rparr> n)"
  using gate_contract_iff[OF assms] .

theorem gate_matches_contract_witness:
  "rabin_attestation_verify demo_bn_in demo_bn_arith demo_bn_text demo_zero_sha ''77'' (replicate 64 (CHR ''a'')) ''7:0:0'' \<longleftrightarrow>
    (\<exists>msg. arp_attestation_msg bn_reference 7 (replicate 32 0xaa) = Inr msg \<and>
       rabin_verifier_verify_sig demo_bn_in demo_bn_arith demo_zero_sha msg
         \<lparr>vsig_s = 0, vpadding = Some [], padding_len = 0\<rparr> 77)"
proof -
  have "parse_attestation demo_bn_text ''7:0:0'' = Some \<lparr>att_seq = 7, att_s = 0, att_padding = 0\<rparr>" by code_simp
  moreover have "bn_parse_dec demo_bn_text ''77'' = Inr 77" by code_simp
  moreover have "hex_decode (replicate 64 (CHR ''a'')) = Inr (replicate 32 0xaa)" by code_simp
  ultimately show ?thesis
    using gate_matches_contract[OF bn_reference_ok, of demo_bn_text "''77''" 77 "''7:0:0''" "\<lparr>att_seq = 7, att_s = 0, att_padding = 0\<rparr>"
        "replicate 64 (CHR ''a'')" "replicate 32 0xaa" demo_bn_in demo_bn_arith demo_zero_sha] by simp
qed

end
