(* ===== verification/ReleaseGate.thy ===== *)
theory ReleaseGate
  imports RabinAttestor
begin

text \<open>
  The release gate, \<^verbatim>\<open>src/verifier/release_anchor_verifier.c\<close>: the digest that binds a
  release, and the ordered checks that an installer makes before it accepts one, over the
  payment-verification client, the attestation verifier and the revocation oracle it is given.
\<close>

section \<open>Model\<close>

definition BONSAI_ACTIVATE_DOMAIN :: string where
  "BONSAI_ACTIVATE_DOMAIN = ''ARP1_ACTIVATE_V1''"

text \<open>
  The digest of the six fields. The length of a field is a \<^verbatim>\<open>size_t\<close> cut to 32 bits and
  written big-endian by \<open>be4\<close>.
\<close>

definition activate_preimage :: "string list \<Rightarrow> bytes" where
  "activate_preimage flds =
     str_bytes BONSAI_ACTIVATE_DOMAIN @ concat (map (\<lambda>f. be4 (of_nat (length f)) @ str_bytes f) flds)"

definition compute_activate_digest ::
  "(bytes \<Rightarrow> bytes) \<Rightarrow> string \<Rightarrow> string \<Rightarrow> string \<Rightarrow> string \<Rightarrow> string \<Rightarrow> string \<Rightarrow> string" where
  "compute_activate_digest sha genesis_outpoint scope vers bundle_hash file_set_root announce_txid =
     hex_encode_loop (sha (activate_preimage
       [genesis_outpoint, scope, vers, bundle_hash, file_set_root, announce_txid]))"

datatype deny_reason_t =
    DENY_NONE | DENY_UNKNOWN_PUBLISHER | DENY_SCOPE_NOT_IN_NAMESPACE | DENY_ANNOUNCE_UNCONFIRMED
  | DENY_INSUFFICIENT_DEPTH | DENY_ANNOUNCE_NO_MERKLE_PROOF | DENY_ACTIVATE_UNCONFIRMED
  | DENY_ACTIVATE_NO_MERKLE_PROOF | DENY_STALE_CHAIN | DENY_BUNDLE_HASH_MISMATCH
  | DENY_FILESET_ROOT_MISMATCH | DENY_DIGEST_MISMATCH | DENY_INSUFFICIENT_QUORUM
  | DENY_DUPLICATE_ATTESTOR | DENY_ATTESTOR_NOT_IN_SET | DENY_BAD_ATTESTATION | DENY_RELEASE_REVOKED

fun deny_reason_str :: "deny_reason_t \<Rightarrow> string" where
  "deny_reason_str DENY_NONE = ''''"
| "deny_reason_str DENY_UNKNOWN_PUBLISHER = ''unknown-publisher''"
| "deny_reason_str DENY_SCOPE_NOT_IN_NAMESPACE = ''scope-not-in-namespace''"
| "deny_reason_str DENY_ANNOUNCE_UNCONFIRMED = ''announce-unconfirmed''"
| "deny_reason_str DENY_INSUFFICIENT_DEPTH = ''insufficient-depth''"
| "deny_reason_str DENY_ANNOUNCE_NO_MERKLE_PROOF = ''announce-no-merkle-proof''"
| "deny_reason_str DENY_ACTIVATE_UNCONFIRMED = ''activate-unconfirmed''"
| "deny_reason_str DENY_ACTIVATE_NO_MERKLE_PROOF = ''activate-no-merkle-proof''"
| "deny_reason_str DENY_STALE_CHAIN = ''stale-chain''"
| "deny_reason_str DENY_BUNDLE_HASH_MISMATCH = ''bundle-hash-mismatch''"
| "deny_reason_str DENY_FILESET_ROOT_MISMATCH = ''fileset-root-mismatch''"
| "deny_reason_str DENY_DIGEST_MISMATCH = ''digest-mismatch''"
| "deny_reason_str DENY_INSUFFICIENT_QUORUM = ''insufficient-quorum''"
| "deny_reason_str DENY_DUPLICATE_ATTESTOR = ''duplicate-attestor''"
| "deny_reason_str DENY_ATTESTOR_NOT_IN_SET = ''attestor-not-in-set''"
| "deny_reason_str DENY_BAD_ATTESTATION = ''bad-attestation''"
| "deny_reason_str DENY_RELEASE_REVOKED = ''release-revoked''"

text \<open>
  Heights, depths and bounds are \<^verbatim>\<open>int64_t\<close>; their sums, which the source leaves to
  signed arithmetic, are taken without overflow.
\<close>

record trusted_publisher_t =
  tp_label :: string
  tp_genesis_outpoint :: string
  namespace_scopes :: "string option list"
  min_depth :: int
  min_quorum :: int
  tp_attestor_pubkeys :: "string list"
  max_staleness :: int

record spv_lookup_t =
  spv_depth :: int
  spv_block_height :: int
  merkle_verified :: bool

record spv_client_t =
  spv_lookup :: "string \<Rightarrow> spv_lookup_t option res"
  spv_tip_height :: "int res"

type_synonym attestation_verifier_t = "string \<Rightarrow> string \<Rightarrow> string \<Rightarrow> bool res"
type_synonym release_revocation_oracle_t = "string \<Rightarrow> string \<Rightarrow> string \<Rightarrow> bool res"

record release_attestation_t =
  ra_attestor_pubkey :: string
  ra_signature :: string

record publish_ref_t =
  ref_genesis_outpoint :: string
  ref_scope :: string
  ref_version :: string
  ref_bundle_hash :: string
  ref_file_set_root :: string
  ref_announce_txid :: string
  ref_activate_txid :: string
  ref_activate_digest :: string
  ref_attestations :: "release_attestation_t list"

record local_artifact_t =
  la_bundle_hash :: string
  la_file_set_root :: string

record verify_result_t =
  vr_ok :: bool
  vr_reason :: deny_reason_t
  vr_detail :: "string option"

definition deny :: "deny_reason_t \<Rightarrow> string option \<Rightarrow> verify_result_t" where
  "deny reason detail = \<lparr>vr_ok = False, vr_reason = reason, vr_detail = detail\<rparr>"

definition const_eq :: "string \<Rightarrow> string \<Rightarrow> bool" where
  "const_eq a b =
     (if length a \<noteq> length b then False
      else foldl (\<lambda>diff (x, y). diff OR ((of_char x :: int) XOR of_char y)) 0 (zip a b) = 0)"

fun scope_in_namespace :: "string \<Rightarrow> string option list \<Rightarrow> bool" where
  "scope_in_namespace scope [] = False"
| "scope_in_namespace scope (None # rest) = scope_in_namespace scope rest"
| "scope_in_namespace scope (Some ns # rest) =
     (let nl = length ns in
      if nl > 0 \<and> ns ! (nl - 1) = CHR ''*'' then
        if take (nl - 1) scope = take (nl - 1) ns then True else scope_in_namespace scope rest
      else if scope = ns then True else scope_in_namespace scope rest)"

text \<open>The loop over the attestations: the denial that ends it, or the number of valid ones.\<close>

fun attestation_loop ::
  "attestation_verifier_t \<Rightarrow> string list \<Rightarrow> string \<Rightarrow> release_attestation_t list \<Rightarrow> release_attestation_t list \<Rightarrow> int \<Rightarrow>
     verify_result_t + int" where
  "attestation_loop verify pubkeys digest seen [] valid = Inr valid"
| "attestation_loop verify pubkeys digest seen (att # rest) valid =
     (let pk = ra_attestor_pubkey att in
      if list_ex (\<lambda>a. ra_attestor_pubkey a = pk) seen then Inl (deny DENY_DUPLICATE_ATTESTOR (Some pk))
      else if \<not> list_ex (\<lambda>k. k = pk) pubkeys then Inl (deny DENY_ATTESTOR_NOT_IN_SET (Some pk))
      else if verify pk digest (ra_signature att) \<noteq> Inr True then Inl (deny DENY_BAD_ATTESTATION (Some pk))
      else attestation_loop verify pubkeys digest (seen @ [att]) rest (valid + 1))"

text \<open>
  The gate. \<open>publisher\<close> is \<open>None\<close> for NULL, \<open>opts\<close> the \<^verbatim>\<open>fail_closed\<close> option if it is
  present. The last step of the chain is the quorum and the revocation state.
\<close>

definition quorum_and_revocation ::
  "attestation_verifier_t \<Rightarrow> release_revocation_oracle_t \<Rightarrow> publish_ref_t \<Rightarrow> trusted_publisher_t \<Rightarrow> bool \<Rightarrow> verify_result_t" where
  "quorum_and_revocation verify is_release_revoked ref p fail_closed =
     (case attestation_loop verify (tp_attestor_pubkeys p) (ref_activate_digest ref) [] (ref_attestations ref) 0 of
        Inl r \<Rightarrow> r
      | Inr valid \<Rightarrow>
          if valid < min_quorum p then deny DENY_INSUFFICIENT_QUORUM (Some ''valid < required'')
          else case is_release_revoked (ref_genesis_outpoint ref) (ref_scope ref) (ref_version ref) of
              Inl _ \<Rightarrow> if fail_closed then deny DENY_RELEASE_REVOKED (Some ''revocation state unavailable (fail-closed)'')
                else \<lparr>vr_ok = True, vr_reason = DENY_NONE, vr_detail = None\<rparr>
            | Inr revoked \<Rightarrow> if revoked then deny DENY_RELEASE_REVOKED None
                else \<lparr>vr_ok = True, vr_reason = DENY_NONE, vr_detail = None\<rparr>)"

definition release_anchor_verifier_verify ::
  "(bytes \<Rightarrow> bytes) \<Rightarrow> spv_client_t \<Rightarrow> attestation_verifier_t \<Rightarrow> release_revocation_oracle_t \<Rightarrow>
     publish_ref_t \<Rightarrow> local_artifact_t \<Rightarrow> trusted_publisher_t option \<Rightarrow> bool option \<Rightarrow> verify_result_t" where
  "release_anchor_verifier_verify sha spv verify is_release_revoked ref loc publisher opts =
     (let fail_closed = (case opts of None \<Rightarrow> True | Some b \<Rightarrow> b) in
      case publisher of
        None \<Rightarrow> deny DENY_UNKNOWN_PUBLISHER (Some ''no trusted publisher for genesisOutpoint'')
      | Some p \<Rightarrow>
      if tp_genesis_outpoint p \<noteq> ref_genesis_outpoint ref then
        deny DENY_UNKNOWN_PUBLISHER (Some ''no trusted publisher for genesisOutpoint'')
      else if \<not> scope_in_namespace (ref_scope ref) (namespace_scopes p) then
        deny DENY_SCOPE_NOT_IN_NAMESPACE (Some ''scope not in namespace'')
      else if \<not> const_eq (la_bundle_hash loc) (ref_bundle_hash ref) then deny DENY_BUNDLE_HASH_MISMATCH None
      else if \<not> const_eq (la_file_set_root loc) (ref_file_set_root ref) then deny DENY_FILESET_ROOT_MISMATCH None
      else if \<not> const_eq (ref_activate_digest ref)
          (compute_activate_digest sha (ref_genesis_outpoint ref) (ref_scope ref) (ref_version ref)
             (ref_bundle_hash ref) (ref_file_set_root ref) (ref_announce_txid ref)) then
        deny DENY_DIGEST_MISMATCH (Some ''activateDigest does not commit to this release'')
      else case spv_lookup spv (ref_announce_txid ref) of
        Inl _ \<Rightarrow> deny DENY_ANNOUNCE_UNCONFIRMED None
      | Inr None \<Rightarrow> deny DENY_ANNOUNCE_UNCONFIRMED None
      | Inr (Some announce) \<Rightarrow>
      if \<not> merkle_verified announce then deny DENY_ANNOUNCE_NO_MERKLE_PROOF None
      else if spv_depth announce < min_depth p then deny DENY_INSUFFICIENT_DEPTH (Some ''depth < required'')
      else case spv_lookup spv (ref_activate_txid ref) of
        Inl _ \<Rightarrow> deny DENY_ACTIVATE_UNCONFIRMED None
      | Inr None \<Rightarrow> deny DENY_ACTIVATE_UNCONFIRMED None
      | Inr (Some activate) \<Rightarrow>
      if spv_depth activate < 1 then deny DENY_ACTIVATE_UNCONFIRMED None
      else if \<not> merkle_verified activate then deny DENY_ACTIVATE_NO_MERKLE_PROOF None
      else if (case spv_tip_height spv of Inl _ \<Rightarrow> fail_closed | Inr _ \<Rightarrow> False) then
        deny DENY_STALE_CHAIN (Some ''tip height unavailable (fail-closed)'')
      else
        let tip = (case spv_tip_height spv of
            Inl _ \<Rightarrow> spv_block_height announce + spv_depth announce | Inr t \<Rightarrow> t);
          staleness = tip - (spv_block_height announce + spv_depth announce) in
        if staleness > max_staleness p then deny DENY_STALE_CHAIN (Some ''staleness > maxStaleness'')
        else quorum_and_revocation verify is_release_revoked ref p fail_closed)"

section \<open>The checks\<close>

lemma xor_zero: "a XOR b = 0 \<longleftrightarrow> a = (b :: int)"
  by (metis xor.assoc xor.right_neutral xor_self_eq)

lemma foldl_or_zero:
  "foldl (\<lambda>diff (x, y). diff OR ((of_char x :: int) XOR of_char y)) acc zs = 0 \<longleftrightarrow>
     acc = 0 \<and> list_all (\<lambda>(x, y). x = y) zs"
proof (induction zs arbitrary: acc)
  case (Cons z zs)
  obtain x y where z: "z = (x, y)" by (cases z)
  have "(of_char x :: int) XOR of_char y = 0 \<longleftrightarrow> x = y" by (simp add: xor_zero)
  then show ?case using Cons by (auto simp: z or_eq_0_iff)
qed simp

lemma const_eq_iff: "const_eq a b \<longleftrightarrow> a = b"
  by (auto simp: const_eq_def foldl_or_zero list_all_iff list_eq_iff_zip_eq)

definition in_namespace :: "string \<Rightarrow> string option list \<Rightarrow> bool" where
  "in_namespace scope nss \<longleftrightarrow>
     (\<exists>ns. Some ns \<in> set nss \<and> (scope = ns \<or> (\<exists>pre rest. ns = pre @ ''*'' \<and> scope = pre @ rest)))"

lemma star_ending: "(0 < length ns \<and> ns ! (length ns - 1) = CHR ''*'') \<longleftrightarrow> (\<exists>pre. ns = pre @ ''*'')"
  by (cases ns rule: rev_cases) auto

lemma take_eq_prefix: "take (length pre) scope = pre \<longleftrightarrow> (\<exists>rest. scope = pre @ rest)"
  by (metis append_eq_conv_conj append_take_drop_id)

lemma scope_in_namespace_iff: "scope_in_namespace scope nss \<longleftrightarrow> in_namespace scope nss"
proof (induction scope nss rule: scope_in_namespace.induct)
  case (3 scope ns rest)
  show ?case
  proof (cases "\<exists>pre. ns = pre @ ''*''")
    case True
    then obtain pre where ns: "ns = pre @ ''*''" by blast
    have step: "scope_in_namespace scope (Some ns # rest) \<longleftrightarrow> take (length pre) scope = pre \<or> scope_in_namespace scope rest"
      by (simp add: ns Let_def)
    have "in_namespace scope (Some ns # rest) \<longleftrightarrow> (\<exists>r. scope = pre @ r) \<or> in_namespace scope rest"
      by (auto simp: in_namespace_def ns)
    moreover have "scope_in_namespace scope rest \<longleftrightarrow> in_namespace scope rest" if "take (length pre) scope \<noteq> pre"
      using 3(1)[OF refl] that by (simp add: ns)
    ultimately show ?thesis unfolding step using take_eq_prefix[of pre scope] by blast
  next
    case False
    then have n: "\<not> (0 < length ns \<and> ns ! (length ns - 1) = CHR ''*'')" using star_ending[of ns] by blast
    have step: "scope_in_namespace scope (Some ns # rest) \<longleftrightarrow> scope = ns \<or> scope_in_namespace scope rest"
      unfolding scope_in_namespace.simps Let_def using n by (auto simp only: if_False if_True split: if_split)
    have "in_namespace scope (Some ns # rest) \<longleftrightarrow> scope = ns \<or> in_namespace scope rest"
      using False by (auto simp: in_namespace_def)
    then show ?thesis using 3(2)[OF refl n] unfolding step by blast
  qed
qed (auto simp: in_namespace_def)

lemma attestation_loop_iff:
  "attestation_loop verify pubkeys digest seen atts valid = Inr v \<longleftrightarrow>
     v = valid + int (length atts) \<and> distinct (map ra_attestor_pubkey atts) \<and>
     set (map ra_attestor_pubkey atts) \<inter> set (map ra_attestor_pubkey seen) = {} \<and>
     set (map ra_attestor_pubkey atts) \<subseteq> set pubkeys \<and>
     list_all (\<lambda>a. verify (ra_attestor_pubkey a) digest (ra_signature a) = Inr True) atts"
proof (induction verify pubkeys digest seen atts valid rule: attestation_loop.induct)
  case (2 verify pubkeys digest seen att rest valid)
  have d: "list_ex (\<lambda>a. ra_attestor_pubkey a = ra_attestor_pubkey att) seen \<longleftrightarrow>
      ra_attestor_pubkey att \<in> ra_attestor_pubkey ` set seen"
    by (simp add: list_ex_iff image_iff) metis
  have k: "list_ex (\<lambda>k. k = pk) pubkeys \<longleftrightarrow> pk \<in> set pubkeys" for pk by (auto simp: list_ex_iff)
  show ?case using 2 by (auto simp: Let_def d k)
qed auto

definition ref_fields :: "publish_ref_t \<Rightarrow> string list" where
  "ref_fields ref = [ref_genesis_outpoint ref, ref_scope ref, ref_version ref, ref_bundle_hash ref,
     ref_file_set_root ref, ref_announce_txid ref]"

definition ref_digest :: "(bytes \<Rightarrow> bytes) \<Rightarrow> publish_ref_t \<Rightarrow> string" where
  "ref_digest sha ref = hex_encode_loop (sha (activate_preimage (ref_fields ref)))"

text \<open>What the quorum consists of.\<close>

definition quorum_met :: "attestation_verifier_t \<Rightarrow> trusted_publisher_t \<Rightarrow> publish_ref_t \<Rightarrow> bool" where
  "quorum_met verify p ref \<longleftrightarrow>
     distinct (map ra_attestor_pubkey (ref_attestations ref)) \<and>
     set (map ra_attestor_pubkey (ref_attestations ref)) \<subseteq> set (tp_attestor_pubkeys p) \<and>
     list_all (\<lambda>a. verify (ra_attestor_pubkey a) (ref_activate_digest ref) (ra_signature a) = Inr True) (ref_attestations ref) \<and>
     min_quorum p \<le> int (length (ref_attestations ref))"

lemma quorum_and_revocation_ok:
  "vr_ok (quorum_and_revocation verify rvk ref p fc) \<longleftrightarrow> quorum_met verify p ref \<and>
     (case rvk (ref_genesis_outpoint ref) (ref_scope ref) (ref_version ref) of Inl _ \<Rightarrow> \<not> fc | Inr r \<Rightarrow> \<not> r)"
proof (cases "attestation_loop verify (tp_attestor_pubkeys p) (ref_activate_digest ref) [] (ref_attestations ref) 0")
  case (Inl r)
  have "vr_ok r = False" if "attestation_loop v pks dg seen atts n = Inl r" for v pks dg seen atts n
    using that by (induction v pks dg seen atts n rule: attestation_loop.induct) (auto simp: deny_def Let_def split: if_splits)
  then have "\<not> vr_ok r" using Inl by blast
  moreover have "\<not> quorum_met verify p ref"
    using attestation_loop_iff[of verify "tp_attestor_pubkeys p" "ref_activate_digest ref" "[]" "ref_attestations ref" 0] Inl
    by (auto simp: quorum_met_def)
  ultimately show ?thesis using Inl by (simp add: quorum_and_revocation_def)
next
  case (Inr v)
  note q = Inr[unfolded attestation_loop_iff]
  have m: "quorum_met verify p ref \<longleftrightarrow> min_quorum p \<le> v" using q by (auto simp: quorum_met_def)
  show ?thesis unfolding quorum_and_revocation_def Inr sum.case m
    by (cases "rvk (ref_genesis_outpoint ref) (ref_scope ref) (ref_version ref)") (auto simp: deny_def not_less)
qed

lemma gate_ok_iff:
  "vr_ok (release_anchor_verifier_verify sha spv verify rvk ref loc publisher opts) \<longleftrightarrow>
     (\<exists>p an ac. publisher = Some p \<and> tp_genesis_outpoint p = ref_genesis_outpoint ref \<and>
        in_namespace (ref_scope ref) (namespace_scopes p) \<and>
        la_bundle_hash loc = ref_bundle_hash ref \<and> la_file_set_root loc = ref_file_set_root ref \<and>
        ref_activate_digest ref = ref_digest sha ref \<and>
        spv_lookup spv (ref_announce_txid ref) = Inr (Some an) \<and> merkle_verified an \<and> min_depth p \<le> spv_depth an \<and>
        spv_lookup spv (ref_activate_txid ref) = Inr (Some ac) \<and> 1 \<le> spv_depth ac \<and> merkle_verified ac \<and>
        (case spv_tip_height spv of
           Inl _ \<Rightarrow> opts = Some False \<and> 0 \<le> max_staleness p
         | Inr tip \<Rightarrow> tip \<le> spv_block_height an + spv_depth an + max_staleness p) \<and>
        quorum_met verify p ref \<and>
        (case rvk (ref_genesis_outpoint ref) (ref_scope ref) (ref_version ref) of
           Inl _ \<Rightarrow> opts = Some False | Inr r \<Rightarrow> \<not> r))"
proof -
  have fc: "(case opts of None \<Rightarrow> True | Some b \<Rightarrow> b) \<longleftrightarrow> opts \<noteq> Some False" by (auto split: option.splits)
  have dg: "compute_activate_digest sha (ref_genesis_outpoint ref) (ref_scope ref) (ref_version ref)
      (ref_bundle_hash ref) (ref_file_set_root ref) (ref_announce_txid ref) = ref_digest sha ref"
    by (simp add: compute_activate_digest_def ref_digest_def ref_fields_def)
  have no: "\<not> vr_ok (deny r x)" for r x by (simp add: deny_def)
  note d = release_anchor_verifier_verify_def fc dg const_eq_iff scope_in_namespace_iff
  show ?thesis
  proof (cases publisher)
    case None
    then show ?thesis by (simp add: d no)
  next
    case (Some p)
    define pre where "pre \<longleftrightarrow> tp_genesis_outpoint p = ref_genesis_outpoint ref \<and> in_namespace (ref_scope ref) (namespace_scopes p) \<and>
      la_bundle_hash loc = ref_bundle_hash ref \<and> la_file_set_root loc = ref_file_set_root ref \<and>
      ref_activate_digest ref = ref_digest sha ref"
    show ?thesis
    proof (cases "pre \<and> (\<exists>an ac. spv_lookup spv (ref_announce_txid ref) = Inr (Some an) \<and> spv_lookup spv (ref_activate_txid ref) = Inr (Some ac))")
      case False
      then show ?thesis using Some by (auto simp: d no pre_def Let_def split: sum.splits option.splits)
    next
      case True
      then obtain an ac where l: "spv_lookup spv (ref_announce_txid ref) = Inr (Some an)"
        "spv_lookup spv (ref_activate_txid ref) = Inr (Some ac)" by blast
      show ?thesis using True l Some
        by (cases "spv_tip_height spv") (auto simp: d no pre_def Let_def quorum_and_revocation_ok not_less split: sum.splits)
    qed
  qed
qed

text \<open>
  C11. The gate lets a release through exactly when its publisher is known, its scope lies in a
  namespace of the publisher, the artifact at hand is the announced one, the digest commits to
  the fields of the release, its announcement is proven and old enough, its activation is
  proven, the view of the chain is fresh, a quorum of distinct attestors of the publisher signed the
  digest with no bad attestation among those presented, and the release is not revoked. An
  unavailable chain tip or revocation state passes only if the caller asked to fail open.
\<close>

theorem release_verify_ok_iff:
  "vr_ok (release_anchor_verifier_verify sha spv verify rvk ref loc publisher opts) \<longleftrightarrow>
     (\<exists>p an ac. publisher = Some p \<and> tp_genesis_outpoint p = ref_genesis_outpoint ref \<and>
        in_namespace (ref_scope ref) (namespace_scopes p) \<and>
        la_bundle_hash loc = ref_bundle_hash ref \<and> la_file_set_root loc = ref_file_set_root ref \<and>
        ref_activate_digest ref = ref_digest sha ref \<and>
        spv_lookup spv (ref_announce_txid ref) = Inr (Some an) \<and> merkle_verified an \<and> min_depth p \<le> spv_depth an \<and>
        spv_lookup spv (ref_activate_txid ref) = Inr (Some ac) \<and> 1 \<le> spv_depth ac \<and> merkle_verified ac \<and>
        (case spv_tip_height spv of
           Inl _ \<Rightarrow> opts = Some False \<and> 0 \<le> max_staleness p
         | Inr tip \<Rightarrow> tip \<le> spv_block_height an + spv_depth an + max_staleness p) \<and>
        quorum_met verify p ref \<and>
        (case rvk (ref_genesis_outpoint ref) (ref_scope ref) (ref_version ref) of
           Inl _ \<Rightarrow> opts = Some False | Inr r \<Rightarrow> \<not> r))"
  by (rule gate_ok_iff)

section \<open>The digest binds the release\<close>

lemma str_bytes_inj: "str_bytes s = str_bytes t \<longleftrightarrow> s = t"
proof -
  have u: "unat (of_nat (of_char c) :: byte) = of_char c" for c :: char
    by (simp add: unat_of_nat)
  have "inj (\<lambda>c. of_nat (of_char c) :: byte)"
  proof (rule injI)
    fix c d :: char
    assume e: "(of_nat (of_char c) :: byte) = of_nat (of_char d)"
    have "(of_char c :: nat) = of_char d" using u[of c] unfolding e u by (rule sym)
    then show "c = d" by simp
  qed
  then show ?thesis by (simp add: str_bytes_def inj_map_eq_map)
qed

lemma length_str_bytes [simp]: "length (str_bytes s) = length s"
  by (simp add: str_bytes_def)

lemma be4_inj: "be4 v = be4 w \<longleftrightarrow> v = w"
  using le_nat_be4[of v] le_nat_be4[of w] by (metis word_unat_eq_iff)

lemma length_prefix_free:
  assumes "length f < 2 ^ 32" "length g < 2 ^ 32"
    and "be4 (of_nat (length f)) @ str_bytes f @ x = be4 (of_nat (length g)) @ str_bytes g @ y"
  shows "f = g \<and> x = y"
proof -
  have l: "length (be4 v) = 4" for v by (simp add: be4_def)
  have e: "be4 (of_nat (length f)) = be4 (of_nat (length g))" "str_bytes f @ x = str_bytes g @ y"
    using assms(3) l by (simp_all add: append_eq_append_conv)
  have "(of_nat (length f) :: u32) = of_nat (length g)" using e(1) by (simp add: be4_inj)
  then have "unat (of_nat (length f) :: u32) = unat (of_nat (length g) :: u32)" by simp
  then have "length f = length g" using assms(1,2) by (simp add: unat_of_nat)
  then show ?thesis using e(2) by (simp add: append_eq_append_conv str_bytes_inj)
qed

lemma activate_preimage_inj:
  assumes "activate_preimage fs = activate_preimage gs" "length fs = length gs"
    and "list_all (\<lambda>f. length f < 2 ^ 32) fs" "list_all (\<lambda>f. length f < 2 ^ 32) gs"
  shows "fs = gs"
proof -
  have "concat (map (\<lambda>f. be4 (of_nat (length f)) @ str_bytes f) fs) = concat (map (\<lambda>f. be4 (of_nat (length f)) @ str_bytes f) gs)"
    using assms(1) by (simp add: activate_preimage_def)
  then show ?thesis using assms(2-4)
  proof (induction fs gs rule: list_induct2')
    case (4 f fs g gs)
    have "f = g \<and> concat (map (\<lambda>f. be4 (of_nat (length f)) @ str_bytes f) fs) = concat (map (\<lambda>f. be4 (of_nat (length f)) @ str_bytes f) gs)"
      by (rule length_prefix_free) (use 4 in simp_all)
    then show ?case using 4 by simp
  qed simp_all
qed

text \<open>
  C17. The digest of a release commits to it: releases with the same digest agree in genesis
  outpoint, scope, version, bundle hash, file-set root and announcement, or their preimages are a
  collision of the hash function.
\<close>

theorem activate_digest_commits:
  assumes "ref_digest sha ref = ref_digest sha ref'"
    and "list_all (\<lambda>f. length f < 2 ^ 32) (ref_fields ref)" "list_all (\<lambda>f. length f < 2 ^ 32) (ref_fields ref')"
  shows "ref_fields ref = ref_fields ref' \<or>
    (\<exists>x y. x \<noteq> y \<and> x = activate_preimage (ref_fields ref) \<and> y = activate_preimage (ref_fields ref') \<and> sha x = sha y)"
proof -
  have "sha (activate_preimage (ref_fields ref)) = sha (activate_preimage (ref_fields ref'))"
    using assms(1) by (simp add: ref_digest_def)
  then show ?thesis using activate_preimage_inj[OF _ _ assms(2,3)] by (auto simp: ref_fields_def)
qed

definition demo_ref :: publish_ref_t where
  "demo_ref = \<lparr>ref_genesis_outpoint = ''g:0'', ref_scope = ''acme/tool'', ref_version = ''1.0'',
     ref_bundle_hash = ''bb'', ref_file_set_root = ''ff'', ref_announce_txid = ''a1'', ref_activate_txid = ''a2'',
     ref_activate_digest = replicate 64 (CHR ''0''), ref_attestations = [\<lparr>ra_attestor_pubkey = ''77'', ra_signature = ''7:0:0''\<rparr>]\<rparr>"

theorem activate_digest_commits_witness:
  "ref_digest demo_zero_sha demo_ref = ref_digest demo_zero_sha (demo_ref\<lparr>ref_version := ''2.0''\<rparr>) \<and>
   (\<exists>x y. x \<noteq> y \<and> demo_zero_sha x = demo_zero_sha y)"
proof -
  have d: "ref_digest demo_zero_sha demo_ref = ref_digest demo_zero_sha (demo_ref\<lparr>ref_version := ''2.0''\<rparr>)"
    by (simp add: ref_digest_def demo_zero_sha_def)
  have "ref_fields demo_ref \<noteq> ref_fields (demo_ref\<lparr>ref_version := ''2.0''\<rparr>)"
    by (simp add: ref_fields_def demo_ref_def)
  then show ?thesis using activate_digest_commits[OF d] d by (auto simp: ref_fields_def demo_ref_def)
qed

section \<open>The interface to attestations\<close>

text \<open>
  The gate calls the attestation verifier through a table of functions. All it relies on is
  that an accepted signature is a voucher of the key for the digest.
\<close>

locale attestation_scheme =
  fixes verify :: attestation_verifier_t
    and vouches :: "string \<Rightarrow> string \<Rightarrow> string \<Rightarrow> bool"
  assumes sound: "verify pk d w = Inr True \<Longrightarrow> vouches pk d w"
begin

text \<open>The keys whose attestations a release presents.\<close>

definition presented :: "publish_ref_t \<Rightarrow> string set" where
  "presented ref = ra_attestor_pubkey ` set (ref_attestations ref)"

lemma presented_vouches:
  assumes "quorum_met verify p ref" "a \<in> set (ref_attestations ref)"
  shows "ra_attestor_pubkey a \<in> set (tp_attestor_pubkeys p) \<and>
    vouches (ra_attestor_pubkey a) (ref_activate_digest ref) (ra_signature a)"
  using assms sound by (auto simp: quorum_met_def list_all_iff)

lemma presented_quorum:
  assumes "quorum_met verify p ref"
  shows "presented ref \<subseteq> set (tp_attestor_pubkeys p) \<and> min_quorum p \<le> int (card (presented ref))"
  using assms distinct_card[of "map ra_attestor_pubkey (ref_attestations ref)"]
  by (auto simp: quorum_met_def presented_def)

lemma quorums_overlap:
  assumes "quorum_met verify p ref" "quorum_met verify p ref'"
  shows "2 * min_quorum p - int (card (set (tp_attestor_pubkeys p))) \<le> int (card (presented ref \<inter> presented ref'))"
  using parts_overlap[of "set (tp_attestor_pubkeys p)" "presented ref" "presented ref'"]
    presented_quorum[OF assms(1)] presented_quorum[OF assms(2)] by simp

end

text \<open>The Rabin attestations provide it.\<close>

definition rabin_vouches ::
  "bn_in \<Rightarrow> bn_arith \<Rightarrow> bn_text \<Rightarrow> (bytes \<Rightarrow> bytes) \<Rightarrow> string \<Rightarrow> string \<Rightarrow> string \<Rightarrow> bool" where
  "rabin_vouches I A T sha pk d w \<longleftrightarrow>
     (\<exists>n att m. bn_parse_dec T pk = Inr n \<and> parse_attestation T w = Some att \<and>
        build_msg_bytes (att_seq att) d = Inr m \<and>
        rabin_verify I A sha m \<lparr>sig_s = att_s att, padding_byte_count = unat (att_padding att)\<rparr> n)"

definition rabin_vtable :: "bn_in \<Rightarrow> bn_arith \<Rightarrow> bn_text \<Rightarrow> (bytes \<Rightarrow> bytes) \<Rightarrow> attestation_verifier_t" where
  "rabin_vtable I A T sha = (\<lambda>pk d w. Inr (rabin_attestation_verify I A T sha pk d w))"

interpretation rab: attestation_scheme "rabin_vtable I A T sha" "rabin_vouches I A T sha"
  by unfold_locales (simp add: rabin_vtable_def rabin_vouches_def attestation_verify_iff)

section \<open>From the gate to the bond\<close>

definition contract_sig :: "parsed_attestation_t \<Rightarrow> rabin_verifier_sig_t" where
  "contract_sig a = \<lparr>vsig_s = att_s a, vpadding = Some (replicate (unat (att_padding a)) 0),
     padding_len = unat (att_padding a)\<rparr>"

lemma vouches_contract:
  assumes "bn_lib_ok L" "rabin_vouches I A T sha pk (hex_encode_loop dig) w" "length dig = 32"
  shows "\<exists>n a msg. bn_parse_dec T pk = Inr n \<and> parse_attestation T w = Some a \<and>
    arp_attestation_msg L (int (unat (att_seq a))) dig = Inr msg \<and>
    rabin_verifier_verify_sig I A sha msg (contract_sig a) n"
proof -
  obtain n a where n: "bn_parse_dec T pk = Inr n" "parse_attestation T w = Some a"
    using assms(2) unfolding rabin_vouches_def by blast
  have "rabin_attestation_verify I A T sha pk (hex_encode_loop dig) w"
    using assms(2) unfolding attestation_verify_iff rabin_vouches_def .
  then show ?thesis
    using gate_contract_iff[OF assms(1) n hex_decode_encode assms(3)] n unfolding contract_sig_def by blast
qed

lemma both_vouched_slashable:
  assumes "bn_lib_ok L" "length dig = 32" "length dig' = 32" "dig \<noteq> dig'"
    and "rabin_vouches I A T sha pk (hex_encode_loop dig) w" "rabin_vouches I A T sha pk (hex_encode_loop dig') w'"
  shows "\<exists>n a a'. bn_parse_dec T pk = Inr n \<and> parse_attestation T w = Some a \<and> parse_attestation T w' = Some a' \<and>
    (att_seq a = att_seq a' \<longrightarrow> (\<forall>t. attestor_rabin_pubkey (att_params t) = n \<longrightarrow>
       attestor_tea_check_equivocation L I A sha t (int (unat (att_seq a))) dig (contract_sig a) dig' (contract_sig a') = Inr True))"
proof -
  obtain n a msg where a: "bn_parse_dec T pk = Inr n" "parse_attestation T w = Some a"
    "arp_attestation_msg L (int (unat (att_seq a))) dig = Inr msg" "rabin_verifier_verify_sig I A sha msg (contract_sig a) n"
    using vouches_contract[OF assms(1,5,2)] by blast
  obtain a' msg' where a': "parse_attestation T w' = Some a'"
    "arp_attestation_msg L (int (unat (att_seq a'))) dig' = Inr msg'" "rabin_verifier_verify_sig I A sha msg' (contract_sig a') n"
    using vouches_contract[OF assms(1,6,3)] a(1) by auto
  have "attestor_tea_check_equivocation L I A sha t (int (unat (att_seq a))) dig (contract_sig a) dig' (contract_sig a') = Inr True"
    if "att_seq a = att_seq a'" "attestor_rabin_pubkey (att_params t) = n" for t
    unfolding check_equivocation_iff using assms(4) a a' that by auto
  then show ?thesis using a a' by blast
qed

text \<open>
  C10. Two conflicting releases that pass the gate expose attestors. When the gate accepts two
  releases of one publisher with different digests, at least twice its quorum less the number of its
  attestors have an attestation in both, which is someone as soon as the quorum is a majority.
  Take any two attestations of one key, one from each release. The key is an attestor of
  the publisher, both texts parse, and if they carry one sequence number, the
  equivocation test of any bond held under that key accepts the two parsed signatures for
  the digests of the two releases.
\<close>

theorem conflicting_gate_releases:
  assumes "bn_lib_ok L" "\<forall>x. length (sha x) = 32"
    and "vr_ok (release_anchor_verifier_verify sha spv (rabin_vtable I A T sha) rvk ref loc (Some p) opts)"
    and "vr_ok (release_anchor_verifier_verify sha spv' (rabin_vtable I A T sha) rvk' ref' loc' (Some p) opts')"
    and "ref_digest sha ref \<noteq> ref_digest sha ref'"
  shows "2 * min_quorum p - int (card (set (tp_attestor_pubkeys p)))
      \<le> int (card (ra_attestor_pubkey ` set (ref_attestations ref) \<inter> ra_attestor_pubkey ` set (ref_attestations ref'))) \<and>
    (\<forall>b\<in>set (ref_attestations ref). \<forall>b'\<in>set (ref_attestations ref'). ra_attestor_pubkey b = ra_attestor_pubkey b' \<longrightarrow>
       ra_attestor_pubkey b \<in> set (tp_attestor_pubkeys p) \<and>
       (\<exists>n a a'. bn_parse_dec T (ra_attestor_pubkey b) = Inr n \<and>
          parse_attestation T (ra_signature b) = Some a \<and> parse_attestation T (ra_signature b') = Some a' \<and>
          (att_seq a = att_seq a' \<longrightarrow> (\<forall>t. attestor_rabin_pubkey (att_params t) = n \<longrightarrow>
             attestor_tea_check_equivocation L I A sha t (int (unat (att_seq a)))
               (sha (activate_preimage (ref_fields ref))) (contract_sig a)
               (sha (activate_preimage (ref_fields ref'))) (contract_sig a') = Inr True))))"
proof -
  define dig where "dig = sha (activate_preimage (ref_fields ref))"
  define dig' where "dig' = sha (activate_preimage (ref_fields ref'))"
  have r: "ref_digest sha ref = hex_encode_loop dig" "ref_digest sha ref' = hex_encode_loop dig'"
    by (simp_all add: ref_digest_def dig_def dig'_def)
  have ne: "dig \<noteq> dig'" and len: "length dig = 32" "length dig' = 32"
    using assms(2,5) unfolding r by (auto simp: dig_def dig'_def)
  have q: "quorum_met (rabin_vtable I A T sha) p ref" "quorum_met (rabin_vtable I A T sha) p ref'"
    and d: "ref_activate_digest ref = hex_encode_loop dig" "ref_activate_digest ref' = hex_encode_loop dig'"
    using assms(3,4) unfolding gate_ok_iff r by auto
  show ?thesis unfolding dig_def[symmetric] dig'_def[symmetric]
    using rab.quorums_overlap[OF q] rab.presented_vouches[OF q(1)] rab.presented_vouches[OF q(2)]
      both_vouched_slashable[OF assms(1) len ne] unfolding rab.presented_def d by metis
qed

definition demo_publisher :: trusted_publisher_t where
  "demo_publisher = \<lparr>tp_label = ''acme'', tp_genesis_outpoint = ''g:0'', namespace_scopes = [Some ''acme/*''],
     min_depth = 6, min_quorum = 1, tp_attestor_pubkeys = [''77''], max_staleness = 10\<rparr>"

definition demo_spv :: spv_client_t where
  "demo_spv = \<lparr>spv_lookup = \<lambda>_. Inr (Some \<lparr>spv_depth = 6, spv_block_height = 100, merkle_verified = True\<rparr>),
     spv_tip_height = Inr 110\<rparr>"

definition demo_local :: local_artifact_t where
  "demo_local = \<lparr>la_bundle_hash = ''bb'', la_file_set_root = ''ff''\<rparr>"

text \<open>A hash that tells short strings from long ones, under which zero is still a root of every message.\<close>

definition demo_length_sha :: "bytes \<Rightarrow> bytes" where
  "demo_length_sha x = replicate 32 (if length x < 400 then 0 else 1)"

lemma demo_length_padded: "length m < 400 \<Longrightarrow> padded_hash demo_bn_in demo_length_sha m 0 = 0"
proof -
  have h: "length x < 400 \<Longrightarrow> rabin_bin2hash demo_length_sha x = replicate 64 0" for x
    by (simp add: rabin_bin2hash_def demo_length_sha_def BONSAI_RABIN_BIN2HASH_SPLIT_def flip: replicate_add)
  have e: "j + 64 * i < 400 \<Longrightarrow> expand_loop demo_length_sha i (replicate j 0) = replicate (j + 64 * i) 0" for i j
    by (induction i arbitrary: j) (simp_all add: h flip: replicate_add)
  have "expand_loop demo_length_sha (BONSAI_RABIN_SECURITY_LEVEL - 1) (replicate 64 0) = replicate 384 0"
    using e[of 64 5] by (simp add: BONSAI_RABIN_SECURITY_LEVEL_def)
  moreover assume "length m < 400"
  then have "rabin_bin2hash demo_length_sha m = replicate 64 0" by (rule h)
  ultimately show ?thesis unfolding padded_hash_def rabin_hash_def by (simp add: demo_bn_in_def le_nat_replicate_zero)
qed

definition demo_ref2 :: publish_ref_t where
  "demo_ref2 = demo_ref\<lparr>ref_version := replicate 400 (CHR ''1''), ref_activate_digest := hex_encode_loop (replicate 32 1)\<rparr>"

lemma demo_digests:
  "demo_length_sha (activate_preimage (ref_fields demo_ref)) = replicate 32 0"
  "demo_length_sha (activate_preimage (ref_fields demo_ref2)) = replicate 32 1"
proof -
  have "length (activate_preimage (ref_fields demo_ref)) < 400" by code_simp
  then show "demo_length_sha (activate_preimage (ref_fields demo_ref)) = replicate 32 0" by (simp add: demo_length_sha_def)
  have "400 \<le> length (activate_preimage (ref_fields demo_ref2))"
    by (simp add: activate_preimage_def ref_fields_def demo_ref2_def)
  then show "demo_length_sha (activate_preimage (ref_fields demo_ref2)) = replicate 32 1" by (simp add: demo_length_sha_def)
qed

lemma demo_attestation_verifies:
  assumes "is_sha256_hex d"
  shows "rabin_attestation_verify demo_bn_in demo_bn_arith demo_bn_text demo_length_sha ''77'' d ''7:0:0''"
proof -
  have seven: "unat (7 :: u64) < 2 ^ 63" by simp
  obtain m where m: "build_msg_bytes 7 d = Inr m" using build_msg_total[OF seven assms] by blast
  then have l: "length m < 400" by (auto simp: build_msg_iff ATTEST_DOMAIN_BYTES_def)
  have p: "parse_attestation demo_bn_text ''7:0:0'' = Some \<lparr>att_seq = 7, att_s = 0, att_padding = 0\<rparr>"
    "bn_parse_dec demo_bn_text ''77'' = Inr 77" by code_simp+
  have "rabin_verify demo_bn_in demo_bn_arith demo_length_sha m \<lparr>sig_s = 0, padding_byte_count = 0\<rparr> 77"
    by (simp add: rabin_verify_iff[OF demo_bn_arith_ok] demo_length_padded[OF l])
  then show ?thesis using m p unfolding attestation_verify_iff by auto
qed

lemma demo_gate_accepts:
  assumes "ref = demo_ref \<or> ref = demo_ref2"
  shows "vr_ok (release_anchor_verifier_verify demo_length_sha demo_spv
     (rabin_vtable demo_bn_in demo_bn_arith demo_bn_text demo_length_sha) (\<lambda>_ _ _. Inr False)
     ref demo_local (Some demo_publisher) None)"
proof -
  have "hex_encode_loop (replicate 32 0) = replicate 64 (CHR ''0'')" by code_simp
  then have dg: "ref_activate_digest ref = ref_digest demo_length_sha ref"
    using assms by (auto simp: ref_digest_def demo_digests) (simp_all add: demo_ref_def demo_ref2_def)
  have "is_sha256_hex (replicate 64 (CHR ''0''))" "is_sha256_hex (hex_encode_loop (replicate 32 1))" by code_simp+
  then have a: "rabin_attestation_verify demo_bn_in demo_bn_arith demo_bn_text demo_length_sha ''77'' (ref_activate_digest ref) ''7:0:0''"
    using assms by (intro demo_attestation_verifies) (auto simp: demo_ref_def demo_ref2_def)
  have ns: "in_namespace ''acme/tool'' [Some ''acme/*'']"
    unfolding scope_in_namespace_iff[symmetric] by code_simp
  show ?thesis unfolding gate_ok_iff dg[symmetric]
    using assms a ns
    by (auto simp: demo_ref2_def demo_ref_def demo_publisher_def demo_spv_def demo_local_def quorum_met_def rabin_vtable_def)
qed

theorem conflicting_gate_releases_witness:
  "attestor_tea_check_equivocation bn_reference demo_bn_in demo_bn_arith demo_length_sha demo_attestor 7
     (replicate 32 0) zero_sig (replicate 32 1) zero_sig = Inr True"
proof -
  have l: "\<forall>x. length (demo_length_sha x) = 32" by (simp add: demo_length_sha_def)
  have ne: "ref_digest demo_length_sha demo_ref \<noteq> ref_digest demo_length_sha demo_ref2"
    unfolding ref_digest_def demo_digests hex_encode_loop_inj by simp
  define b where "b = \<lparr>ra_attestor_pubkey = ''77'', ra_signature = ''7:0:0''\<rparr>"
  have b: "b \<in> set (ref_attestations demo_ref)" "b \<in> set (ref_attestations demo_ref2)"
    by (simp_all add: b_def demo_ref_def demo_ref2_def)
  have p: "parse_attestation demo_bn_text (ra_signature b) = Some \<lparr>att_seq = 7, att_s = 0, att_padding = 0\<rparr>"
    "bn_parse_dec demo_bn_text (ra_attestor_pubkey b) = Inr 77" unfolding b_def by code_simp+
  have sg: "contract_sig \<lparr>att_seq = 7, att_s = 0, att_padding = 0\<rparr> = zero_sig"
    by (simp add: contract_sig_def zero_sig_def)
  have t: "attestor_rabin_pubkey (att_params demo_attestor) = 77" by (simp add: demo_attestor_def)
  show ?thesis
    using conjunct2[OF conflicting_gate_releases[OF bn_reference_ok l demo_gate_accepts demo_gate_accepts ne], rule_format, OF _ _ b refl] p t
    by (simp add: demo_digests sg)
qed

end
