(* ===== verification/Spend.thy ===== *)
theory Spend
  imports Ecdsa Fees TxBuild
begin

text \<open>
  The wallet: \<^verbatim>\<open>src/wallet/spend.c\<close> chooses outputs of one key, builds a transaction that
  pays recipients, an optional data output and the change, settles the fee and signs every
  input; \<^verbatim>\<open>src/wallet/send.c\<close> and \<^verbatim>\<open>src/wallet/keygen.c\<close> feed it. The message that
  accompanies an error code is not represented.
\<close>

section \<open>Model\<close>

definition WALLET_DUST_THRESHOLD :: u64 where "WALLET_DUST_THRESHOLD = 546"
definition WALLET_P2PKH_SCRIPTSIG_MAX :: nat where "WALLET_P2PKH_SCRIPTSIG_MAX = 108"
definition BONSAI_FEE_PER_KB :: u64 where "BONSAI_FEE_PER_KB = 50"

record spend_recipient_t =
  rcp_address :: string
  rcp_satoshis :: u64

record spend_plan_t =
  recipients :: "spend_recipient_t list"
  op_return_data :: "bytes option"
  plan_change_address :: "string option"
  plan_fee_per_kb :: u64
  send_all :: bool

record spend_result_t =
  raw_hex :: string
  res_txid :: string
  total_in :: u64
  total_out :: u64
  res_fee :: u64
  res_change :: u64
  num_inputs :: nat
  size_bytes :: nat

definition addr_to_h160 :: "(bytes \<Rightarrow> bytes) \<Rightarrow> string \<Rightarrow> bsv_network_t \<Rightarrow> bytes res" where
  "addr_to_h160 sha addr net =
     (if addr = [] then Inl BNS_EINVAL
      else res_bind (base58check_decode sha addr) (\<lambda>payload.
        if length payload \<noteq> 21 then Inl BNS_EPARSE
        else if payload ! 0 \<noteq> (if net = BSV_TESTNET then 0x6f else 0x00) then Inl BNS_EINVAL
        else Inr (take 20 (drop 1 payload))))"

definition fee_for :: "nat \<Rightarrow> u64 \<Rightarrow> u64" where
  "fee_for sz rate = tw_min (sendtime_fee_window sz rate)"

definition est_size_by_counts :: "nat \<Rightarrow> nat \<Rightarrow> nat \<Rightarrow> nat" where
  "est_size_by_counts n_in n_out opreturn_len =
     10 + 9 + n_in * 148 + n_out * 34 + (if opreturn_len \<noteq> 0 then 8 + 3 + opreturn_len else 0)"

definition add_money_u64 :: "u64 \<Rightarrow> u64 \<Rightarrow> u64 res" where
  "add_money_u64 tot v =
     (if tot > BONSAI_MAX_MONEY \<or> v > BONSAI_MAX_MONEY \<or> v > BONSAI_MAX_MONEY - tot then Inl BNS_ERANGE
      else Inr (tot + v))"

definition add_money_i64 :: "u64 \<Rightarrow> i64 \<Rightarrow> u64 res" where
  "add_money_i64 tot v = (if v <s 0 then Inl BNS_ERANGE else add_money_u64 tot v)"

definition money_sum2 :: "u64 \<Rightarrow> u64 \<Rightarrow> u64 res" where
  "money_sum2 a b = add_money_u64 a b"

fun recipient_total :: "spend_recipient_t list \<Rightarrow> u64 \<Rightarrow> u64 res" where
  "recipient_total [] tot = Inr tot"
| "recipient_total (x # rest) tot =
     (if rcp_satoshis x = 0 then Inl BNS_EINVAL
      else if rcp_satoshis x < WALLET_DUST_THRESHOLD then Inl BNS_EINVAL
      else case add_money_u64 tot (rcp_satoshis x) of
          Inl _ \<Rightarrow> Inl BNS_ERANGE
        | Inr tot' \<Rightarrow> recipient_total rest tot')"

text \<open>
  Selection. The indices \<open>sel\<close> of the source are always the first ones, so the selected
  outputs are carried themselves.
\<close>

fun select_all :: "funding_utxo_t list \<Rightarrow> u64 \<Rightarrow> u64 res" where
  "select_all [] running_in = Inr running_in"
| "select_all (u # us) running_in =
     (case add_money_i64 running_in (fu_satoshis u) of
        Inl _ \<Rightarrow> Inl BNS_ERANGE
      | Inr running_in' \<Rightarrow> select_all us running_in')"

fun select_some ::
  "u64 \<Rightarrow> u64 \<Rightarrow> nat \<Rightarrow> nat \<Rightarrow> funding_utxo_t list \<Rightarrow> funding_utxo_t list \<Rightarrow> u64 \<Rightarrow> (funding_utxo_t list \<times> u64) res" where
  "select_some rate total_recip n_out_est opret_len sel [] running_in = Inl BNS_ERANGE"
| "select_some rate total_recip n_out_est opret_len sel (u # us) running_in =
     (let sel' = sel @ [u] in
      case add_money_i64 running_in (fu_satoshis u) of
        Inl _ \<Rightarrow> Inl BNS_ERANGE
      | Inr running_in' \<Rightarrow>
          let est_fee = fee_for (est_size_by_counts (length sel') n_out_est opret_len) rate in
          case money_sum2 total_recip est_fee of
            Inl _ \<Rightarrow> Inl BNS_ERANGE
          | Inr need \<Rightarrow>
              if running_in' \<ge> need then Inr (sel', running_in')
              else select_some rate total_recip n_out_est opret_len sel' us running_in')"

fun add_inputs :: "tx_builder_t \<Rightarrow> funding_utxo_t list \<Rightarrow> tx_builder_t res" where
  "add_inputs b [] = Inr b"
| "add_inputs b (u # us) =
     res_bind (tx_builder_add_input b (fu_tx_id u) (output_index u) [] 0xffffffff) (\<lambda>b'. add_inputs b' us)"

definition add_p2pkh :: "(bytes \<Rightarrow> bytes) \<Rightarrow> bsv_network_t \<Rightarrow> tx_builder_t \<Rightarrow> string \<Rightarrow> u64 \<Rightarrow> tx_builder_t res" where
  "add_p2pkh sha net b addr amount =
     res_bind (addr_to_h160 sha addr net) (\<lambda>h. tx_builder_add_output b (build_p2pkh_script h) amount)"

fun add_recipients :: "(bytes \<Rightarrow> bytes) \<Rightarrow> bsv_network_t \<Rightarrow> tx_builder_t \<Rightarrow> spend_recipient_t list \<Rightarrow> tx_builder_t res" where
  "add_recipients sha net b [] = Inr b"
| "add_recipients sha net b (x # rest) =
     res_bind (add_p2pkh sha net b (rcp_address x) (rcp_satoshis x)) (\<lambda>b'. add_recipients sha net b' rest)"

text \<open>The outputs: recipients, or the placeholder of a sweep; the data output; the change placeholder.\<close>

definition add_outputs ::
  "(bytes \<Rightarrow> bytes) \<Rightarrow> bsv_network_t \<Rightarrow> spend_plan_t \<Rightarrow> string \<Rightarrow> bytes option \<Rightarrow> tx_builder_t \<Rightarrow> tx_builder_t res" where
  "add_outputs sha net plan change_addr opret_spk b =
     res_bind (if send_all plan then add_p2pkh sha net b (rcp_address (recipients plan ! 0)) 0
               else add_recipients sha net b (recipients plan)) (\<lambda>b1.
     res_bind (case opret_spk of None \<Rightarrow> Inr b1 | Some scr \<Rightarrow> tx_builder_add_output b1 scr 0) (\<lambda>b2.
     if send_all plan then Inr b2 else add_p2pkh sha net b2 change_addr 0))"

definition install_placeholders :: "bsv_tx_t \<Rightarrow> bsv_tx_t" where
  "install_placeholders tx =
     tx\<lparr>inputs := map (\<lambda>i. i\<lparr>script_sig := replicate WALLET_P2PKH_SCRIPTSIG_MAX 0\<rparr>) (inputs tx)\<rparr>"

text \<open>Fee and change: the transaction, fee, change, total paid out and size.\<close>

definition settle ::
  "bool \<Rightarrow> u64 \<Rightarrow> u64 \<Rightarrow> u64 \<Rightarrow> bsv_tx_t \<Rightarrow> (bsv_tx_t \<times> u64 \<times> u64 \<times> u64 \<times> nat) res" where
  "settle sweep rate total_recip running_in tx =
     (let sz = estimate_size tx; fee = fee_for sz rate in
      if fee > BONSAI_MAX_MONEY then Inl BNS_ERANGE
      else if sweep then
        if running_in \<le> fee \<or> running_in - fee < WALLET_DUST_THRESHOLD then Inl BNS_ERANGE
        else let amt = running_in - fee in
          Inr (tx\<lparr>outputs := (outputs tx)[0 := (outputs tx ! 0)\<lparr>satoshis := amt\<rparr>]\<rparr>, fee, 0, amt, sz)
      else case money_sum2 total_recip fee of
        Inl _ \<Rightarrow> Inl BNS_ERANGE
      | Inr need \<Rightarrow>
          if running_in < need then Inl BNS_ERANGE
          else
            let change = running_in - need; ci = length (outputs tx) - 1 in
            if change < WALLET_DUST_THRESHOLD then
              let tx' = tx\<lparr>outputs := butlast (outputs tx)\<rparr> in
              Inr (tx', running_in - total_recip, 0, total_recip, estimate_size tx')
            else
              Inr (tx\<lparr>outputs := (outputs tx)[ci := (outputs tx ! ci)\<lparr>satoshis := change\<rparr>]\<rparr>,
                   fee, change, running_in - fee, sz))"

text \<open>Signing, one input after the other; \<open>k\<close> is the index of the next input.\<close>

fun sign_inputs ::
  "('p, 's) secp \<Rightarrow> (bytes \<Rightarrow> bytes) \<Rightarrow> bytes \<Rightarrow> bytes \<Rightarrow> bytes \<Rightarrow> nat \<Rightarrow> funding_utxo_t list \<Rightarrow> bsv_tx_t \<Rightarrow> bsv_tx_t res" where
  "sign_inputs S sha key pub_comp spk k [] tx = Inr tx"
| "sign_inputs S sha key pub_comp spk k (u # us) tx =
     res_bind (bip143_sighash sha tx k spk (fu_satoshis u) 0x41) (\<lambda>digest.
     res_bind (ecdsa_sign_low_s S digest key) (\<lambda>der.
     let ss = [of_nat (length der + 1)] @ der @ [0x41] @ [of_nat (length pub_comp)] @ pub_comp in
     sign_inputs S sha key pub_comp spk (k + 1) us
       (tx\<lparr>inputs := (inputs tx)[k := (inputs tx ! k)\<lparr>script_sig := ss\<rparr>]\<rparr>)))"

definition wallet_build_signed_spend ::
  "('p, 's) secp \<Rightarrow> (bytes \<Rightarrow> bytes) \<Rightarrow> (bytes \<Rightarrow> bytes) \<Rightarrow> bsv_network_t \<Rightarrow> bytes \<Rightarrow> string \<Rightarrow>
     funding_utxo_t list \<Rightarrow> spend_plan_t \<Rightarrow> spend_result_t res" where
  "wallet_build_signed_spend S sha ripemd net key funding_address utxos plan =
     (let rate = (if plan_fee_per_kb plan \<noteq> 0 then plan_fee_per_kb plan else BONSAI_FEE_PER_KB);
          change_addr = (case plan_change_address plan of Some a \<Rightarrow> a | None \<Rightarrow> funding_address);
          data = (case op_return_data plan of Some d \<Rightarrow> d | None \<Rightarrow> []);
          has_opreturn = (data \<noteq> []) in
      if send_all plan \<and> length (recipients plan) \<noteq> 1 then Inl BNS_EINVAL
      else if \<not> send_all plan \<and> recipients plan = [] \<and> \<not> has_opreturn then Inl BNS_EINVAL
      else
        res_bind (ecdsa_key_derive_pubkey S key) (\<lambda>pub.
        res_bind (ecdsa_pubkey_serialize_compressed S pub) (\<lambda>pub_comp.
        let funder_spk = build_p2pkh_script (hash160 sha ripemd pub_comp) in
        res_bind (if send_all plan then Inr 0 else recipient_total (recipients plan) 0) (\<lambda>total_recip.
        res_bind (if has_opreturn then res_bind (build_opreturn_script data) (\<lambda>scr. Inr (Some scr)) else Inr None) (\<lambda>opret_spk.
        let n_recip_out = (if send_all plan then 1 else length (recipients plan));
            n_out_est = n_recip_out + (if has_opreturn then 1 else 0) + (if send_all plan then 0 else 1);
            opret_len = (case opret_spk of None \<Rightarrow> 0 | Some scr \<Rightarrow> length scr) in
        res_bind (if send_all plan
                  then res_bind (select_all utxos 0) (\<lambda>run. if utxos = [] then Inl BNS_ERANGE else Inr (utxos, run))
                  else select_some rate total_recip n_out_est opret_len [] utxos 0) (\<lambda>(sel, running_in).
        res_bind (add_inputs tx_builder_init sel) (\<lambda>b.
        res_bind (add_outputs sha net plan change_addr opret_spk b) (\<lambda>b.
        res_bind (settle (send_all plan) rate total_recip running_in (install_placeholders b))
          (\<lambda>(tx, fee, change, tot_out, sz).
        res_bind (sign_inputs S sha key pub_comp funder_spk 0 sel tx) (\<lambda>tx.
        res_bind (tx_builder_build_hex tx) (\<lambda>raw.
        res_bind (tx_id sha tx) (\<lambda>txid.
        Inr \<lparr>raw_hex = raw, res_txid = txid, total_in = running_in, total_out = tot_out, res_fee = fee,
             res_change = change, num_inputs = length sel, size_bytes = sz\<rparr>))))))))))))"

section \<open>Money\<close>

lemma add_money_iff:
  "add_money_u64 t v = Inr w \<longleftrightarrow> unat t + unat v \<le> unat BONSAI_MAX_MONEY \<and> unat w = unat t + unat v"
proof (cases "unat t \<le> unat BONSAI_MAX_MONEY")
  case True
  note m = money_step[OF True, of v]
  have t: "\<not> t > BONSAI_MAX_MONEY" using True by (simp add: word_less_nat_alt)
  show ?thesis
  proof (cases "unat t + unat v \<le> unat BONSAI_MAX_MONEY")
    case fits: True
    then have "add_money_u64 t v = Inr (t + v)" using m(1) t by (auto simp: add_money_u64_def)
    then show ?thesis using m(2)[OF fits] fits by (auto simp: word_unat_eq_iff)
  next
    case False
    then have "add_money_u64 t v = Inl BNS_ERANGE" using m(1) by (auto simp: add_money_u64_def)
    then show ?thesis using False by simp
  qed
next
  case False
  then have "t > BONSAI_MAX_MONEY" by (simp add: word_less_nat_alt)
  then show ?thesis using False by (simp add: add_money_u64_def)
qed

lemma add_money_i64_InrD:
  "add_money_i64 t v = Inr w \<Longrightarrow> unat t + unat v \<le> unat BONSAI_MAX_MONEY \<and> unat w = unat t + unat v"
  by (auto simp: add_money_i64_def add_money_iff split: if_splits)

lemma recipient_total_InrD:
  "recipient_total xs tot = Inr t \<Longrightarrow> unat t = unat tot + sum_list (map (\<lambda>x. unat (rcp_satoshis x)) xs) \<and>
     list_all (\<lambda>x. WALLET_DUST_THRESHOLD \<le> rcp_satoshis x) xs"
proof (induction xs arbitrary: tot)
  case (Cons x xs)
  from Cons.prems obtain tot' where a: "add_money_u64 tot (rcp_satoshis x) = Inr tot'" "recipient_total xs tot' = Inr t"
    "\<not> rcp_satoshis x < WALLET_DUST_THRESHOLD"
    by (auto split: if_splits sum.splits)
  then show ?case using Cons.IH[OF a(2)] by (auto simp: add_money_iff)
qed simp

definition funds :: "funding_utxo_t list \<Rightarrow> nat" where
  "funds us = sum_list (map (\<lambda>u. unat (fu_satoshis u)) us)"

lemma funds_simps [simp]: "funds [] = 0" "funds (u # us) = unat (fu_satoshis u) + funds us"
  "funds (us @ vs) = funds us + funds vs"
  by (simp_all add: funds_def)

lemma select_all_InrD: "select_all us acc = Inr run \<Longrightarrow> unat run = unat acc + funds us"
proof (induction us arbitrary: acc)
  case (Cons u us)
  then obtain acc' where a: "add_money_i64 acc (fu_satoshis u) = Inr acc'" "select_all us acc' = Inr run"
    by (auto split: sum.splits)
  then show ?case using Cons.IH[OF a(2)] add_money_i64_InrD[OF a(1)] by simp
qed simp

lemma select_some_InrD:
  "select_some rate tr n ol sel us acc = Inr (s, run) \<Longrightarrow>
     \<exists>taken rest. us = taken @ rest \<and> s = sel @ taken \<and> unat run = unat acc + funds taken"
proof (induction us arbitrary: sel acc)
  case (Cons u us)
  from Cons.prems obtain acc' need where a: "add_money_i64 acc (fu_satoshis u) = Inr acc'"
    and n: "(if acc' \<ge> need then Inr (sel @ [u], acc') else select_some rate tr n ol (sel @ [u]) us acc') = Inr (s, run)"
    by (auto simp: Let_def split: sum.splits)
  have acc': "unat acc' = unat acc + unat (fu_satoshis u)" using add_money_i64_InrD[OF a] by simp
  show ?case
  proof (cases "acc' \<ge> need")
    case True
    then show ?thesis using n acc' by (intro exI[of _ "[u]"] exI[of _ us]) simp
  next
    case False
    then have "select_some rate tr n ol (sel @ [u]) us acc' = Inr (s, run)" using n by simp
    from Cons.IH[OF this] obtain taken rest where "us = taken @ rest" "s = (sel @ [u]) @ taken" "unat run = unat acc' + funds taken"
      by blast
    then show ?thesis using acc' by (intro exI[of _ "u # taken"] exI[of _ rest]) simp
  qed
qed simp

section \<open>Building\<close>

definition spend_input :: "bytes \<Rightarrow> funding_utxo_t \<Rightarrow> bsv_txin_t" where
  "spend_input ss u = \<lparr>prev_txid_display = hex_to_lower (fu_tx_id u), vout = output_index u, script_sig = ss,
     sequence = 0xffffffff\<rparr>"

lemma add_inputs_InrD:
  "add_inputs b us = Inr b' \<Longrightarrow> b' = b\<lparr>inputs := inputs b @ map (spend_input []) us\<rparr> \<and>
     list_all (\<lambda>u. is_hex_len (fu_tx_id u) 32) us"
proof (induction us arbitrary: b)
  case (Cons u us)
  then obtain b1 where b1: "tx_builder_add_input b (fu_tx_id u) (output_index u) [] 0xffffffff = Inr b1" "add_inputs b1 us = Inr b'"
    by (auto simp: res_bind_Inr_iff)
  then show ?case using Cons.IH[OF b1(2)]
    by (auto simp: tx_builder_add_input_def spend_input_def hex_to_lower_def split: if_splits)
qed simp

definition pays :: "(bytes \<Rightarrow> bytes) \<Rightarrow> bsv_network_t \<Rightarrow> string \<Rightarrow> u64 \<Rightarrow> bsv_txout_t \<Rightarrow> bool" where
  "pays sha net addr amount o' \<longleftrightarrow>
     (\<exists>h. addr_to_h160 sha addr net = Inr h \<and> o' = \<lparr>satoshis = amount, script = build_p2pkh_script h\<rparr>)"

lemma add_p2pkh_InrD:
  "add_p2pkh sha net b addr amount = Inr b' \<Longrightarrow> \<exists>o'. pays sha net addr amount o' \<and> b' = b\<lparr>outputs := outputs b @ [o']\<rparr>"
  by (auto simp: add_p2pkh_def res_bind_Inr_iff tx_builder_add_output_def pays_def)

lemma add_recipients_InrD:
  "add_recipients sha net b xs = Inr b' \<Longrightarrow> \<exists>os. list_all2 (\<lambda>x. pays sha net (rcp_address x) (rcp_satoshis x)) xs os \<and>
     b' = b\<lparr>outputs := outputs b @ os\<rparr>"
proof (induction xs arbitrary: b)
  case (Cons x xs)
  then obtain b1 where b1: "add_p2pkh sha net b (rcp_address x) (rcp_satoshis x) = Inr b1" "add_recipients sha net b1 xs = Inr b'"
    by (auto simp: res_bind_Inr_iff)
  obtain o' where o': "pays sha net (rcp_address x) (rcp_satoshis x) o'" "b1 = b\<lparr>outputs := outputs b @ [o']\<rparr>"
    using add_p2pkh_InrD[OF b1(1)] by blast
  obtain os where "list_all2 (\<lambda>x. pays sha net (rcp_address x) (rcp_satoshis x)) xs os" "b' = b1\<lparr>outputs := outputs b1 @ os\<rparr>"
    using Cons.IH[OF b1(2)] by blast
  then show ?case using o' by (intro exI[of _ "o' # os"]) simp
qed auto

lemma pays_script: "pays sha net addr amount o' \<Longrightarrow> length (script o') = 25 \<and> satoshis o' = amount"
  by (auto simp: pays_def addr_to_h160_def build_p2pkh_script_def res_bind_Inr_iff split: if_splits)

definition opret_outputs :: "bytes option \<Rightarrow> bsv_txout_t list" where
  "opret_outputs scr = (case scr of None \<Rightarrow> [] | Some s \<Rightarrow> [\<lparr>satoshis = 0, script = s\<rparr>])"

definition pays_all :: "(bytes \<Rightarrow> bytes) \<Rightarrow> bsv_network_t \<Rightarrow> spend_recipient_t list \<Rightarrow> bsv_txout_t list \<Rightarrow> bool" where
  "pays_all sha net = list_all2 (\<lambda>x. pays sha net (rcp_address x) (rcp_satoshis x))"

text \<open>
  The outputs of a spend: a sweep pays one recipient everything; otherwise every recipient
  gets its amount, in order, and a change that is worth an output comes last.
\<close>

definition spend_outputs ::
  "(bytes \<Rightarrow> bytes) \<Rightarrow> bsv_network_t \<Rightarrow> spend_plan_t \<Rightarrow> string \<Rightarrow> bytes option \<Rightarrow> u64 \<Rightarrow> u64 \<Rightarrow> bsv_txout_t list \<Rightarrow> bool" where
  "spend_outputs sha net plan change_addr scr sweep_amount change os \<longleftrightarrow>
     (if send_all plan
      then \<exists>o'. pays sha net (rcp_address (recipients plan ! 0)) sweep_amount o' \<and> os = o' # opret_outputs scr
      else \<exists>rs. pays_all sha net (recipients plan) rs \<and>
        (change = 0 \<and> os = rs @ opret_outputs scr \<or>
         WALLET_DUST_THRESHOLD \<le> change \<and>
           (\<exists>c. pays sha net change_addr change c \<and> os = rs @ opret_outputs scr @ [c])))"

lemma add_outputs_InrD:
  assumes "add_outputs sha net plan ca scr b = Inr b'"
  shows "\<exists>os. b' = b\<lparr>outputs := outputs b @ os\<rparr> \<and>
    (if send_all plan
     then \<exists>o'. pays sha net (rcp_address (recipients plan ! 0)) 0 o' \<and> os = o' # opret_outputs scr
     else \<exists>rs c. pays_all sha net (recipients plan) rs \<and> pays sha net ca 0 c \<and> os = rs @ opret_outputs scr @ [c])"
proof (cases "send_all plan")
  case True
  then obtain b1 b2 where b1: "add_p2pkh sha net b (rcp_address (recipients plan ! 0)) 0 = Inr b1"
    and b2: "(case scr of None \<Rightarrow> Inr b1 | Some s \<Rightarrow> tx_builder_add_output b1 s 0) = Inr b'"
    using assms by (auto simp: add_outputs_def res_bind_Inr_iff)
  show ?thesis using add_p2pkh_InrD[OF b1] b2 True
    by (auto simp: opret_outputs_def tx_builder_add_output_def split: option.splits)
next
  case False
  then obtain b1 b2 where b1: "add_recipients sha net b (recipients plan) = Inr b1"
    and b2: "(case scr of None \<Rightarrow> Inr b1 | Some s \<Rightarrow> tx_builder_add_output b1 s 0) = Inr b2"
    and b3: "add_p2pkh sha net b2 ca 0 = Inr b'"
    using assms by (auto simp: add_outputs_def res_bind_Inr_iff)
  have "b2 = b1\<lparr>outputs := outputs b1 @ opret_outputs scr\<rparr>"
    using b2 by (auto simp: opret_outputs_def tx_builder_add_output_def split: option.splits)
  then show ?thesis using add_recipients_InrD[OF b1] add_p2pkh_InrD[OF b3] False
    by (auto simp: pays_all_def)
qed

lemma pays_all_sats: "pays_all sha net xs rs \<Longrightarrow> sats rs = sum_list (map (\<lambda>x. unat (rcp_satoshis x)) xs)"
  unfolding pays_all_def by (induction rule: list_all2_induct) (auto simp: pays_def)

lemma opret_sats [simp]: "sats (opret_outputs scr) = 0"
  by (simp add: opret_outputs_def split: option.splits)

lemma pays_amount: "pays sha net a v o' \<Longrightarrow> pays sha net a w (o'\<lparr>satoshis := w\<rparr>)"
  by (auto simp: pays_def)

lemma unat_dust: "unat WALLET_DUST_THRESHOLD = 546"
  by (simp add: WALLET_DUST_THRESHOLD_def)

text \<open>Sizes depend on the scripts only; dropping the change output saves at most 42 bytes.\<close>

lemma varint_mono: "m \<le> n \<Longrightarrow> n < 2 ^ 64 \<Longrightarrow> length (write_varint (of_nat m)) \<le> length (write_varint (of_nat n))"
  by (auto simp: length_write_varint word_less_nat_alt word_le_nat_alt unat_of_nat_len)

lemma estimate_size_scripts:
  assumes "map script (outputs tx') = map script (outputs tx)"
  shows "estimate_size (tx\<lparr>outputs := outputs tx'\<rparr>) = estimate_size tx"
proof -
  have e: "map output_size os = map (\<lambda>s. 8 + length (write_varint (of_nat (length s))) + length s) (map script os)" for os
    by (simp add: output_size_def)
  have "map output_size (outputs tx') = map output_size (outputs tx)" unfolding e assms ..
  then show ?thesis using arg_cong[OF assms, of length] by (simp add: estimate_size_def)
qed

lemma estimate_size_drop:
  assumes "outputs tx = os @ [c]" "length (script c) = 25" "length os + 1 < 2 ^ 64"
  shows "estimate_size (tx\<lparr>outputs := os\<rparr>) \<le> estimate_size tx"
    and "estimate_size tx \<le> estimate_size (tx\<lparr>outputs := os\<rparr>) + 42"
proof -
  let ?v = "\<lambda>n. length (write_varint (of_nat n))"
  have e: "estimate_size tx + ?v (length os) = estimate_size (tx\<lparr>outputs := os\<rparr>) + ?v (length os + 1) + output_size c"
    using assms(1) by (simp add: estimate_size_def)
  have o: "output_size c = 34" using assms(2) by (simp add: output_size_def length_write_varint)
  have m: "?v (length os) \<le> ?v (length os + 1)" using assms(3) by (intro varint_mono) auto
  have h: "?v (length os + 1) \<le> 9" "1 \<le> ?v (length os)" by (auto simp: length_write_varint)
  show "estimate_size (tx\<lparr>outputs := os\<rparr>) \<le> estimate_size tx" using e o m by linarith
  show "estimate_size tx \<le> estimate_size (tx\<lparr>outputs := os\<rparr>) + 42" using e o h by linarith
qed

text \<open>
  Settling keeps the inputs and conserves money; the fee it charges is at least the fee for the
  size with placeholders.
\<close>

lemma settle_sweep_InrD:
  assumes "settle True rate tr run tx = Inr (tx', fee, change, tot, sz)" "outputs tx = o' # os" "sats os = 0"
  shows "tx' = tx\<lparr>outputs := o'\<lparr>satoshis := tot\<rparr> # os\<rparr> \<and> change = 0 \<and>
    unat run = sats (outputs tx') + unat fee \<and> unat tot = sats (outputs tx') \<and> WALLET_DUST_THRESHOLD \<le> tot \<and>
    unat (fee_for (estimate_size tx) rate) \<le> unat fee \<and> unat fee < unat (fee_for (estimate_size tx) rate) + 546 \<and>
    estimate_size tx' = sz \<and> sz \<le> estimate_size tx \<and> estimate_size tx \<le> sz + 42"
proof -
  have a: "\<not> run \<le> fee" "fee = fee_for (estimate_size tx) rate" "tot = run - fee" "\<not> tot < WALLET_DUST_THRESHOLD"
    "tx' = tx\<lparr>outputs := o'\<lparr>satoshis := tot\<rparr> # os\<rparr>" "change = 0" "sz = estimate_size tx"
    using assms(1,2) by (auto simp: settle_def Let_def split: if_splits)
  have "unat tot = unat run - unat fee" unfolding a(3) using a(1) by (intro unat_sub) (simp add: word_le_nat_alt)
  moreover have "unat fee < unat run" using a(1) by (simp add: word_le_nat_alt)
  moreover have "estimate_size tx' = estimate_size tx"
    using estimate_size_scripts[of tx' tx] a(5) assms(2) by simp
  moreover have "sats (outputs tx') = unat tot" using a(5) assms(3) by simp
  ultimately show ?thesis using a(2,4-7) by (simp add: not_less)
qed

lemma settle_pay_InrD:
  assumes "settle False rate tr run tx = Inr (tx', fee, change, tot, sz)" "outputs tx = os @ [c]" "unat tr = sats os"
    and "length (script c) = 25" "length os + 1 < 2 ^ 64"
  shows "inputs tx' = inputs tx \<and> version tx' = version tx \<and> locktime tx' = locktime tx \<and>
    (change = 0 \<and> outputs tx' = os \<or>
     WALLET_DUST_THRESHOLD \<le> change \<and> outputs tx' = os @ [c\<lparr>satoshis := change\<rparr>]) \<and>
    unat run = sats (outputs tx') + unat fee \<and> unat tot = sats (outputs tx') \<and>
    unat (fee_for (estimate_size tx) rate) \<le> unat fee \<and> unat fee < unat (fee_for (estimate_size tx) rate) + 546 \<and>
    estimate_size tx' = sz \<and> sz \<le> estimate_size tx \<and> estimate_size tx \<le> sz + 42"
proof -
  define f where "f = fee_for (estimate_size tx) rate"
  obtain need where n: "money_sum2 tr f = Inr need" "\<not> run < need"
    and r: "(if run - need < WALLET_DUST_THRESHOLD
       then Inr (tx\<lparr>outputs := os\<rparr>, run - tr, 0, tr, estimate_size (tx\<lparr>outputs := os\<rparr>))
       else Inr (tx\<lparr>outputs := os @ [c\<lparr>satoshis := run - need\<rparr>]\<rparr>, f, run - need, run - f, estimate_size tx))
      = Inr (tx', fee, change, tot, sz)"
    using assms(1,2) by (auto simp: settle_def Let_def f_def split: if_splits sum.splits)
  have need: "unat need = unat tr + unat f" using n(1) by (simp add: money_sum2_def add_money_iff)
  have le: "unat need \<le> unat run" using n(2) by (simp add: word_less_nat_alt)
  have sub: "unat (run - need) = unat run - unat need" "unat (run - tr) = unat run - unat tr"
    "unat (run - f) = unat run - unat f"
    by (rule unat_sub, use le need in \<open>simp add: word_le_nat_alt\<close>)+
  show ?thesis
  proof (cases "run - need < WALLET_DUST_THRESHOLD")
    case True
    then have dust: "unat run - unat need < 546" using sub(1) unat_dust by (simp add: word_less_nat_alt)
    have e: "tx' = tx\<lparr>outputs := os\<rparr>" "fee = run - tr" "change = 0" "tot = tr" "sz = estimate_size tx'"
      using r unfolding if_P[OF True] by auto
    show ?thesis using estimate_size_drop[OF assms(2,4,5)] sub need le dust assms(3) unfolding e
      by (auto simp: f_def[symmetric])
  next
    case False
    have e: "tx' = tx\<lparr>outputs := os @ [c\<lparr>satoshis := run - need\<rparr>]\<rparr>" "fee = f" "change = run - need" "tot = run - f" "sz = estimate_size tx"
      using r unfolding if_not_P[OF False] by auto
    have "WALLET_DUST_THRESHOLD \<le> change" using False unfolding e by (simp only: not_less)
    moreover have "estimate_size tx' = estimate_size tx"
      using estimate_size_scripts[of tx' tx] e(1) assms(2) by simp
    ultimately show ?thesis unfolding e using sub need le assms(3) by (simp add: f_def[symmetric])
  qed
qed

section \<open>Signing\<close>

definition unsig :: "bsv_tx_t \<Rightarrow> bsv_tx_t" where
  "unsig tx = tx\<lparr>inputs := map (\<lambda>i. i\<lparr>script_sig := []\<rparr>) (inputs tx)\<rparr>"

lemma enc_n_map: "enc_n f (map g xs) = enc_n (\<lambda>x. f (g x)) xs"
  by (induction xs) simp_all

lemma sighash_unsig: "bip143_sighash sha (unsig tx) k spk v flag = bip143_sighash sha tx k spk v flag"
proof -
  have o: "append_outpoint (i\<lparr>script_sig := []\<rparr>) = append_outpoint i" for i by (simp add: append_outpoint_def)
  then show ?thesis
    by (cases "k < length (inputs tx)") (simp_all add: bip143_sighash_def bip143_preimage_def hash_prevouts_def
        hash_sequence_def hash_outputs_def unsig_def enc_n_map Let_def)
qed

lemma sighash_same: "unsig tx = unsig tx' \<Longrightarrow> bip143_sighash sha tx k spk v flag = bip143_sighash sha tx' k spk v flag"
  by (metis sighash_unsig)

lemma unsig_update:
  assumes "k < length (inputs tx)"
  shows "unsig (tx\<lparr>inputs := (inputs tx)[k := (inputs tx ! k)\<lparr>script_sig := ss\<rparr>]\<rparr>) = unsig tx"
proof -
  have "map (\<lambda>i. i\<lparr>script_sig := []\<rparr>) ((inputs tx)[k := (inputs tx ! k)\<lparr>script_sig := ss\<rparr>])
      = map (\<lambda>i. i\<lparr>script_sig := []\<rparr>) (inputs tx)"
    using assms by (intro nth_equalityI) (simp_all add: nth_list_update)
  then show ?thesis by (simp add: unsig_def)
qed

definition sig_script :: "bytes \<Rightarrow> bytes \<Rightarrow> bytes" where
  "sig_script der pub_comp = [of_nat (length der + 1)] @ der @ [0x41] @ [of_nat (length pub_comp)] @ pub_comp"

text \<open>What signing does to the inputs it has not reached yet.\<close>

lemma sign_inputs_InrD:
  assumes "secp_ok S" "ec_seckey_verify S key" "\<forall>x. length (sha x) = 32" "ecdsa_key_derive_pubkey S key = Inr p"
    and "sign_inputs S sha key pub spk k us tx = Inr tx'" "length (inputs tx) = k + length us"
  shows "unsig tx' = unsig tx \<and> take k (inputs tx') = take k (inputs tx) \<and>
    (\<forall>i < length us. \<exists>der digest. script_sig (inputs tx' ! (k + i)) = sig_script der pub \<and>
       bip143_sighash sha tx (k + i) spk (fu_satoshis (us ! i)) 0x41 = Inr digest \<and>
       length der \<le> 72 \<and> ecdsa_verify S digest der p)"
  using assms(5,6)
proof (induction us arbitrary: k tx)
  case (Cons u us)
  from Cons.prems(1) obtain digest der where d: "bip143_sighash sha tx k spk (fu_satoshis u) 0x41 = Inr digest"
      "ecdsa_sign_low_s S digest key = Inr der"
    and rest: "sign_inputs S sha key pub spk (k + 1) us
       (tx\<lparr>inputs := (inputs tx)[k := (inputs tx ! k)\<lparr>script_sig := sig_script der pub\<rparr>]\<rparr>) = Inr tx'"
    by (auto simp: res_bind_Inr_iff Let_def sig_script_def)
  define tx1 where "tx1 = tx\<lparr>inputs := (inputs tx)[k := (inputs tx ! k)\<lparr>script_sig := sig_script der pub\<rparr>]\<rparr>"
  have k: "k < length (inputs tx)" using Cons.prems(2) by simp
  have u1: "unsig tx1 = unsig tx" unfolding tx1_def by (rule unsig_update[OF k])
  have IH: "unsig tx' = unsig tx1" "take (k + 1) (inputs tx') = take (k + 1) (inputs tx1)"
    "\<forall>i < length us. \<exists>der digest. script_sig (inputs tx' ! (k + 1 + i)) = sig_script der pub \<and>
       bip143_sighash sha tx1 (k + 1 + i) spk (fu_satoshis (us ! i)) 0x41 = Inr digest \<and>
       length der \<le> 72 \<and> ecdsa_verify S digest der p"
    using Cons.IH[of "k + 1" tx1] rest Cons.prems(2) unfolding tx1_def[symmetric] by (simp_all add: tx1_def)
  have len: "length (inputs tx') = length (inputs tx)"
    using arg_cong[OF trans[OF IH(1) u1], of "\<lambda>t. length (inputs t)"] by (simp add: unsig_def)
  have "inputs tx' ! k = take (k + 1) (inputs tx') ! k" by simp
  also have "\<dots> = inputs tx1 ! k" unfolding IH(2) by simp
  finally have "script_sig (inputs tx' ! k) = sig_script der pub" using k by (simp add: tx1_def)
  moreover obtain der' where "ecdsa_sign_low_s S digest key = Inr der'" "length der' \<le> 72" "ecdsa_verify S digest der' p"
    using sign_verifies[OF assms(1,2) sighash_length[OF assms(3) d(1)]] assms(4) by auto
  ultimately have head: "\<exists>der digest. script_sig (inputs tx' ! k) = sig_script der pub \<and>
       bip143_sighash sha tx k spk (fu_satoshis u) 0x41 = Inr digest \<and> length der \<le> 72 \<and> ecdsa_verify S digest der p"
    using d by auto
  have "take k (inputs tx') = take k (take (k + 1) (inputs tx'))" by (simp add: min_def)
  also have "\<dots> = take k (inputs tx)" unfolding IH(2) by (simp add: tx1_def min_def)
  finally have tk: "take k (inputs tx') = take k (inputs tx)" .
  have "\<exists>der digest. script_sig (inputs tx' ! (k + i)) = sig_script der pub \<and>
       bip143_sighash sha tx (k + i) spk (fu_satoshis ((u # us) ! i)) 0x41 = Inr digest \<and>
       length der \<le> 72 \<and> ecdsa_verify S digest der p" if "i < length (u # us)" for i
  proof (cases i)
    case 0
    then show ?thesis using head by simp
  next
    case (Suc j)
    then show ?thesis using IH(3)[rule_format, of j] that sighash_same[OF u1] by simp
  qed
  then show ?case using IH(1) u1 tk by simp
qed simp

text \<open>A signed input satisfies the network's check.\<close>

lemma signed_unlocks:
  assumes "secp_ok S" "ec_seckey_verify S key" "\<forall>x. length (sha x) = 32" "\<forall>x. length (ripemd x) = 20"
    and "ecdsa_key_derive_pubkey S key = Inr p" "ecdsa_pubkey_serialize_compressed S p = Inr pub"
    and "script_sig (inputs tx ! i) = sig_script der pub" "bip143_sighash sha tx i spk v 0x41 = Inr digest"
    and "length der \<le> 72" "ecdsa_verify S digest der p" "spk = build_p2pkh_script (hash160 sha ripemd pub)"
  shows "p2pkh_unlocks S sha ripemd tx i spk v"
proof -
  have pub: "length pub = 33" "ecdsa_pubkey_parse S pub = Inr p"
    using pubkey_compressed[OF assms(1,2,5)] assms(6) by auto
  have ss: "sig_script der pub = push_data (der @ [0x41]) @ push_data pub"
    using pub(1) assms(9) by (simp add: sig_script_def push_data_def)
  have ne: "der @ [0x41] \<noteq> []" "pub \<noteq> []" "length (der @ [0x41]) < 2 ^ 32" "length pub < 2 ^ 32"
    using assms(9) pub(1) by auto
  then obtain c c' where c: "script_parse (sig_script der pub) 2 = Inr [c, c']" "stack_item c = Some (der @ [0x41])"
      "stack_item c' = Some pub"
    using parse_two_pushes[OF ne] unfolding ss by blast
  have h: "is_p2pkh_out spk = Some (hash160 sha ripemd pub)"
    unfolding is_p2pkh_out_iff using assms(4,11) by (simp add: hash160_def)
  show ?thesis unfolding p2pkh_unlocks_def assms(7) using c h pub assms(8,10) by blast
qed

lemma sig_script_length: "length der \<le> 72 \<Longrightarrow> length pub = 33 \<Longrightarrow> length (sig_script der pub) \<le> WALLET_P2PKH_SCRIPTSIG_MAX"
  by (simp add: sig_script_def WALLET_P2PKH_SCRIPTSIG_MAX_def)

section \<open>The whole spend\<close>

abbreviation plan_rate :: "spend_plan_t \<Rightarrow> u64" where
  "plan_rate plan \<equiv> (if plan_fee_per_kb plan \<noteq> 0 then plan_fee_per_kb plan else BONSAI_FEE_PER_KB)"

abbreviation plan_change :: "spend_plan_t \<Rightarrow> string \<Rightarrow> string" where
  "plan_change plan funding \<equiv> (case plan_change_address plan of Some a \<Rightarrow> a | None \<Rightarrow> funding)"

definition opret_script :: "spend_plan_t \<Rightarrow> bytes option res" where
  "opret_script plan = (case op_return_data plan of
     Some d \<Rightarrow> if d \<noteq> [] then res_bind (build_opreturn_script d) (\<lambda>scr. Inr (Some scr)) else Inr None
   | None \<Rightarrow> Inr None)"

text \<open>The stages of a successful call.\<close>

lemma res_bind_InrE: "res_bind m f = Inr y \<Longrightarrow> (\<And>x. m = Inr x \<Longrightarrow> f x = Inr y \<Longrightarrow> thesis) \<Longrightarrow> thesis"
  by (auto simp: res_bind_Inr_iff)

lemma case_prod_InrE: "(case x of (a, b) \<Rightarrow> f a b) = Inr y \<Longrightarrow> (\<And>a b. x = (a, b) \<Longrightarrow> f a b = Inr y \<Longrightarrow> thesis) \<Longrightarrow> thesis"
  by (cases x) auto

lemma spend_stages:
  assumes "wallet_build_signed_spend S sha ripemd net key funding utxos plan = Inr r"
  obtains p pub tr scr sel rest b tx0 tx1 tx sz where
    "ecdsa_key_derive_pubkey S key = Inr p" "ecdsa_pubkey_serialize_compressed S p = Inr pub"
    "\<not> send_all plan \<Longrightarrow> recipient_total (recipients plan) 0 = Inr tr" "send_all plan \<Longrightarrow> length (recipients plan) = 1"
    "opret_script plan = Inr scr" "utxos = sel @ rest" "unat (total_in r) = funds sel" "num_inputs r = length sel"
    "add_inputs tx_builder_init sel = Inr b" "add_outputs sha net plan (plan_change plan funding) scr b = Inr tx0"
    "settle (send_all plan) (plan_rate plan) tr (total_in r) (install_placeholders tx0) =
       Inr (tx1, res_fee r, res_change r, total_out r, sz)"
    "sign_inputs S sha key pub (build_p2pkh_script (hash160 sha ripemd pub)) 0 sel tx1 = Inr tx"
    "tx_builder_build_hex tx = Inr (raw_hex r)" "tx_id sha tx = Inr (res_txid r)" "size_bytes r = sz"
proof -
  let ?data = "case op_return_data plan of Some d \<Rightarrow> d | None \<Rightarrow> []"
  have scr: "(if ?data \<noteq> [] then res_bind (build_opreturn_script ?data) (\<lambda>scr. Inr (Some scr)) else Inr None) = opret_script plan"
    by (auto simp: opret_script_def split: option.splits)
  have g: "\<not> (send_all plan \<and> length (recipients plan) \<noteq> 1)" "\<not> (\<not> send_all plan \<and> recipients plan = [] \<and> \<not> ?data \<noteq> [])"
  proof -
    let ?w = "wallet_build_signed_spend S sha ripemd net key funding utxos plan"
    have "?w = Inl BNS_EINVAL" if "send_all plan \<and> length (recipients plan) \<noteq> 1"
      using that unfolding wallet_build_signed_spend_def Let_def by simp
    then show "\<not> (send_all plan \<and> length (recipients plan) \<noteq> 1)" using assms by auto
    have "?w = Inl BNS_EINVAL" if "\<not> send_all plan \<and> recipients plan = [] \<and> \<not> ?data \<noteq> []"
      using that unfolding wallet_build_signed_spend_def Let_def by simp
    then show "\<not> (\<not> send_all plan \<and> recipients plan = [] \<and> \<not> ?data \<noteq> [])" using assms by auto
  qed
  obtain p pub tr scr n1 n2 sel run b tx0 tx1 fee change tot sz tx raw txid where
    st: "ecdsa_key_derive_pubkey S key = Inr p" "ecdsa_pubkey_serialize_compressed S p = Inr pub"
    "(if send_all plan then Inr 0 else recipient_total (recipients plan) 0) = Inr tr"
    "opret_script plan = Inr scr"
    "(if send_all plan then res_bind (select_all utxos 0) (\<lambda>run. if utxos = [] then Inl BNS_ERANGE else Inr (utxos, run))
      else select_some (plan_rate plan) tr n1 n2 [] utxos 0) = Inr (sel, run)"
    "add_inputs tx_builder_init sel = Inr b" "add_outputs sha net plan (plan_change plan funding) scr b = Inr tx0"
    "settle (send_all plan) (plan_rate plan) tr run (install_placeholders tx0) = Inr (tx1, fee, change, tot, sz)"
    "sign_inputs S sha key pub (build_p2pkh_script (hash160 sha ripemd pub)) 0 sel tx1 = Inr tx"
    "tx_builder_build_hex tx = Inr raw" "tx_id sha tx = Inr txid"
    and r: "r = \<lparr>raw_hex = raw, res_txid = txid, total_in = run, total_out = tot, res_fee = fee,
             res_change = change, num_inputs = length sel, size_bytes = sz\<rparr>"
    using assms unfolding wallet_build_signed_spend_def Let_def if_not_P[OF g(1)] if_not_P[OF g(2)] scr
    apply (elim res_bind_InrE case_prod_InrE)
    apply hypsubst_thin
    apply (drule sum.inject(2)[THEN iffD1])
    apply (rule that)
    apply assumption+
    apply (rule sym, assumption)
    done
  have sel: "\<exists>rest. utxos = sel @ rest \<and> unat run = funds sel"
  proof (cases "send_all plan")
    case True
    then show ?thesis using st(5) select_all_InrD[of utxos 0] by (auto simp: res_bind_Inr_iff split: if_splits)
  next
    case False
    then show ?thesis using st(5) select_some_InrD[of _ _ _ _ "[]" utxos 0] by auto
  qed
  then obtain rest where rest: "utxos = sel @ rest" "unat run = funds sel" by blast
  have tr: "\<not> send_all plan \<Longrightarrow> recipient_total (recipients plan) 0 = Inr tr" using st(3) by simp
  show ?thesis
    by (rule that[OF st(1,2) tr _ st(4) rest(1) _ _ st(6,7)])
      (use g(1) st(8-11) r rest(2) in simp_all)
qed

section \<open>What a successful call has built\<close>

definition spends_utxos :: "funding_utxo_t list \<Rightarrow> bsv_txin_t list \<Rightarrow> bool" where
  "spends_utxos = list_all2 (\<lambda>u i. prev_txid_display i = hex_to_lower (fu_tx_id u) \<and> vout i = output_index u)"

lemma placeholders_simps [simp]:
  "outputs (install_placeholders tx) = outputs tx" "version (install_placeholders tx) = version tx"
  "locktime (install_placeholders tx) = locktime tx"
  "inputs (install_placeholders tx) = map (\<lambda>i. i\<lparr>script_sig := replicate WALLET_P2PKH_SCRIPTSIG_MAX 0\<rparr>) (inputs tx)"
  by (simp_all add: install_placeholders_def)

lemma settled_outputs:
  assumes tr: "\<not> send_all plan \<Longrightarrow> recipient_total (recipients plan) 0 = Inr tr"
    and ao: "add_outputs sha net plan ca scr b = Inr tx0" "outputs b = []"
    and st: "settle (send_all plan) rate tr run (install_placeholders tx0) = Inr (tx1, fee, change, tot, sz)"
    and n: "length (recipients plan) + 2 < 2 ^ 64"
  shows "inputs tx1 = inputs (install_placeholders b) \<and> version tx1 = version b \<and> locktime tx1 = locktime b \<and>
    spend_outputs sha net plan ca scr tot change (outputs tx1) \<and>
    unat run = sats (outputs tx1) + unat fee \<and> unat tot = sats (outputs tx1) \<and>
    (\<exists>n. unat (fee_for n rate) \<le> unat fee \<and> unat fee < unat (fee_for n rate) + 546 \<and>
       estimate_size tx1 = sz \<and> sz \<le> n \<and> n \<le> sz + 42)"
proof (cases "send_all plan")
  case True
  obtain o' where o': "pays sha net (rcp_address (recipients plan ! 0)) 0 o'"
      "tx0 = b\<lparr>outputs := o' # opret_outputs scr\<rparr>"
    using add_outputs_InrD[OF ao(1)] True ao(2) by auto
  have s: "settle True rate tr run (install_placeholders tx0) = Inr (tx1, fee, change, tot, sz)" using st True by simp
  have "outputs (install_placeholders tx0) = o' # opret_outputs scr" using o'(2) by simp
  note S = settle_sweep_InrD[OF s this opret_sats]
  have "spend_outputs sha net plan ca scr tot change (outputs tx1)"
    using S True pays_amount[OF o'(1), of tot] by (auto simp: spend_outputs_def)
  moreover have "inputs tx1 = inputs (install_placeholders b)" "version tx1 = version b" "locktime tx1 = locktime b"
    using conjunct1[OF S] o'(2) by simp_all
  ultimately show ?thesis using S by blast
next
  case False
  obtain rs c where rc: "pays_all sha net (recipients plan) rs" "pays sha net ca 0 c"
      "tx0 = b\<lparr>outputs := rs @ opret_outputs scr @ [c]\<rparr>"
    using add_outputs_InrD[OF ao(1)] False ao(2) by auto
  have s: "settle False rate tr run (install_placeholders tx0) = Inr (tx1, fee, change, tot, sz)" using st False by simp
  have o: "outputs (install_placeholders tx0) = (rs @ opret_outputs scr) @ [c]" using rc(3) by simp
  have t: "unat tr = sats (rs @ opret_outputs scr)"
    using recipient_total_InrD[OF tr[OF False]] pays_all_sats[OF rc(1)] by simp
  have "length rs = length (recipients plan)" using rc(1) by (simp add: pays_all_def list_all2_lengthD)
  then have l: "length (rs @ opret_outputs scr) + 1 < 2 ^ 64"
    using n by (simp add: opret_outputs_def split: option.splits)
  have c: "length (script c) = 25" using pays_script[OF rc(2)] by simp
  note S = settle_pay_InrD[OF s o t c l]
  have "spend_outputs sha net plan ca scr tot change (outputs tx1)"
    using S False rc(1) pays_amount[OF rc(2), of change] by (auto simp: spend_outputs_def)
  moreover have "inputs tx1 = inputs (install_placeholders b)" "version tx1 = version b" "locktime tx1 = locktime b"
    using S rc(3) by simp_all
  ultimately show ?thesis using S by blast
qed

lemma unsig_eqD:
  assumes "unsig tx = unsig tx'"
  shows "length (inputs tx) = length (inputs tx')" "outputs tx = outputs tx'" "version tx = version tx'"
    "locktime tx = locktime tx'"
    "i < length (inputs tx') \<Longrightarrow> \<exists>ss. inputs tx ! i = (inputs tx' ! i)\<lparr>script_sig := ss\<rparr>"
proof -
  have i: "map (\<lambda>i. i\<lparr>script_sig := []\<rparr>) (inputs tx) = map (\<lambda>i. i\<lparr>script_sig := []\<rparr>) (inputs tx')"
    using arg_cong[OF assms, of inputs] by (simp add: unsig_def)
  show l: "length (inputs tx) = length (inputs tx')" using arg_cong[OF i, of length] by simp
  show "outputs tx = outputs tx'" "version tx = version tx'" "locktime tx = locktime tx'"
    using arg_cong[OF assms, of outputs] arg_cong[OF assms, of version] arg_cong[OF assms, of locktime]
    by (simp_all add: unsig_def)
  show "\<exists>ss. inputs tx ! i = (inputs tx' ! i)\<lparr>script_sig := ss\<rparr>" if "i < length (inputs tx')"
  proof -
    have "(inputs tx ! i)\<lparr>script_sig := []\<rparr> = (inputs tx' ! i)\<lparr>script_sig := []\<rparr>"
      using arg_cong[OF i, of "\<lambda>xs. xs ! i"] that l by simp
    then have "inputs tx ! i = (inputs tx' ! i)\<lparr>script_sig := script_sig (inputs tx ! i)\<rparr>"
      by (cases "inputs tx ! i"; cases "inputs tx' ! i") simp
    then show ?thesis by blast
  qed
qed

lemma sum_list_mono2':
  assumes "length xs = length ys" "\<And>i. i < length ys \<Longrightarrow> f (xs ! i) \<le> (g (ys ! i) :: nat)"
  shows "sum_list (map f xs) \<le> sum_list (map g ys)"
  using assms by (intro sum_list_mono2) auto

lemma estimate_size_inputs_mono:
  assumes "outputs tx = outputs tx'" "length (inputs tx) = length (inputs tx')"
    and "\<And>i. i < length (inputs tx') \<Longrightarrow> input_size (inputs tx ! i) \<le> input_size (inputs tx' ! i)"
  shows "estimate_size tx \<le> estimate_size tx'"
  using sum_list_mono2'[OF assms(2), of input_size input_size] assms by (simp add: estimate_size_def)

lemma spends_utxosI:
  assumes "length is = length us"
    and "\<And>i. i < length us \<Longrightarrow> \<exists>ss. is ! i = (spend_input ss (us ! i))"
  shows "spends_utxos us is"
  unfolding spends_utxos_def using assms by (fastforce simp: list_all2_conv_all_nth spend_input_def)

lemma opret_script_ok: "opret_script plan = Inr scr \<Longrightarrow> list_all txout_ok (opret_outputs scr)"
  by (auto simp: opret_script_def opret_outputs_def build_opreturn_script_def Let_def res_bind_Inr_iff txout_ok_def
      script_ok_def split: option.splits if_splits)

lemma pays_ok: "pays sha net a v o' \<Longrightarrow> txout_ok o'"
  using pays_script[of sha net a v o'] by (simp add: txout_ok_def script_ok_def)

lemma pays_all_ok: "pays_all sha net xs os \<Longrightarrow> list_all txout_ok os \<and> length os = length xs"
  unfolding pays_all_def by (induction rule: list_all2_induct) (auto simp: pays_ok)

lemma spend_outputs_ok:
  assumes "spend_outputs sha net plan ca scr tot change os" "opret_script plan = Inr scr"
    and "length (recipients plan) + 2 < 2 ^ 64"
  shows "list_all txout_ok os" "length os < 2 ^ 64"
proof -
  have "length (opret_outputs scr) \<le> 1" by (simp add: opret_outputs_def split: option.splits)
  then show "list_all txout_ok os" "length os < 2 ^ 64"
    using assms(1,3) opret_script_ok[OF assms(2)]
    by (auto simp: spend_outputs_def pays_ok dest!: pays_all_ok split: if_splits)
qed

lemma spend_input_ok: "is_hex_len (fu_tx_id u) 32 \<Longrightarrow> length ss < 2 ^ 64 \<Longrightarrow> txin_ok (spend_input ss u)"
proof -
  have "lower_char (lower_char c) = lower_char c" for c by (auto simp: lower_char_def Let_def)
  then show "is_hex_len (fu_tx_id u) 32 \<Longrightarrow> length ss < 2 ^ 64 \<Longrightarrow> txin_ok (spend_input ss u)"
    by (simp add: txin_ok_def spend_input_def is_hex_len_iff list_all_hex_lower[unfolded hex_to_lower_def] script_ok_def hex_to_lower_def)
qed

text \<open>Everything known about a successful call, in one place.\<close>

lemma spend_facts:
  assumes S: "secp_ok S" "ec_seckey_verify S key" "\<forall>x. length (sha x) = 32" "\<forall>x. length (ripemd x) = 20"
    and n: "length utxos < 2 ^ 64" "length (recipients plan) + 2 < 2 ^ 64"
    and r: "wallet_build_signed_spend S sha ripemd net key funding utxos plan = Inr r"
  shows "\<exists>p pub scr sel rest tx.
    ecdsa_key_derive_pubkey S key = Inr p \<and> ecdsa_pubkey_serialize_compressed S p = Inr pub \<and>
    utxos = sel @ rest \<and> num_inputs r = length sel \<and> unat (total_in r) = funds sel \<and>
    opret_script plan = Inr scr \<and>
    tx_deserialize (raw_hex r) = Inr tx \<and> tx_id sha tx = Inr (res_txid r) \<and> spends_utxos sel (inputs tx) \<and>
    list_all (\<lambda>i. p2pkh_unlocks S sha ripemd tx i (build_p2pkh_script (hash160 sha ripemd pub)) (fu_satoshis (sel ! i)))
      [0..<length sel] \<and>
    spend_outputs sha net plan (plan_change plan funding) scr (total_out r) (res_change r) (outputs tx) \<and>
    funds sel = sats (outputs tx) + unat (res_fee r) \<and> unat (total_out r) = sats (outputs tx) \<and>
    (\<exists>raw n. tx_serialize tx = Inr raw \<and> length raw \<le> size_bytes r \<and> size_bytes r \<le> n \<and> n \<le> size_bytes r + 42 \<and>
       unat (fee_for n (plan_rate plan)) \<le> unat (res_fee r) \<and>
       unat (res_fee r) < unat (fee_for n (plan_rate plan)) + 546)"
proof -
  obtain p pub tr scr sel rest b tx0 tx1 sz tx where st:
    "ecdsa_key_derive_pubkey S key = Inr p" "ecdsa_pubkey_serialize_compressed S p = Inr pub"
    "\<not> send_all plan \<Longrightarrow> recipient_total (recipients plan) 0 = Inr tr" "send_all plan \<Longrightarrow> length (recipients plan) = 1"
    "opret_script plan = Inr scr" "utxos = sel @ rest" "unat (total_in r) = funds sel" "num_inputs r = length sel"
    "add_inputs tx_builder_init sel = Inr b" "add_outputs sha net plan (plan_change plan funding) scr b = Inr tx0"
    "settle (send_all plan) (plan_rate plan) tr (total_in r) (install_placeholders tx0) =
       Inr (tx1, res_fee r, res_change r, total_out r, sz)"
    "sign_inputs S sha key pub (build_p2pkh_script (hash160 sha ripemd pub)) 0 sel tx1 = Inr tx"
    "tx_builder_build_hex tx = Inr (raw_hex r)" "tx_id sha tx = Inr (res_txid r)" "size_bytes r = sz"
    by (rule spend_stages[OF r]) (rule that; (assumption | simp))
  have b: "inputs b = map (spend_input []) sel" "outputs b = []" "list_all (\<lambda>u. is_hex_len (fu_tx_id u) 32) sel"
    using add_inputs_InrD[OF st(9)] by (simp_all add: tx_builder_init_def tx_init_def)
  note T = settled_outputs[OF st(3) st(10) b(2) st(11) n(2)]
  have i1: "inputs tx1 = map (spend_input (replicate WALLET_P2PKH_SCRIPTSIG_MAX 0)) sel"
    using T b(1) by (simp add: spend_input_def)
  have l1: "length (inputs tx1) = 0 + length sel" using i1 by simp
  note G = sign_inputs_InrD[OF S(1-3) st(1) st(12) l1]
  have un: "unsig tx = unsig tx1" using G by blast
  note U = unsig_eqD[OF un]
  have pub: "length pub = 33" using pubkey_compressed[OF S(1,2) st(1)] st(2) by auto
  have sig: "\<exists>der digest. script_sig (inputs tx ! i) = sig_script der pub \<and>
       bip143_sighash sha tx i (build_p2pkh_script (hash160 sha ripemd pub)) (fu_satoshis (sel ! i)) 0x41 = Inr digest \<and>
       length der \<le> 72 \<and> ecdsa_verify S digest der p" if "i < length sel" for i
    using G that unfolding sighash_same[OF un] by simp
  have inp: "\<exists>ss. inputs tx ! i = spend_input ss (sel ! i) \<and> length ss \<le> WALLET_P2PKH_SCRIPTSIG_MAX" if "i < length sel" for i
  proof -
    have "i < length (inputs tx1)" using that i1 by simp
    then obtain ss where ss: "inputs tx ! i = (inputs tx1 ! i)\<lparr>script_sig := ss\<rparr>" using U(5) by blast
    then have "inputs tx ! i = spend_input ss (sel ! i)" using i1 that by (simp add: spend_input_def)
    moreover from sig[OF that] obtain der where "ss = sig_script der pub" "length der \<le> 72" using ss by auto
    ultimately show ?thesis using sig_script_length[OF _ pub] by blast
  qed
  have li: "length (inputs tx) = length sel" using U(1) i1 by simp
  have su: "spends_utxos sel (inputs tx)" using li inp by (intro spends_utxosI) blast+
  have so: "spend_outputs sha net plan (plan_change plan funding) scr (total_out r) (res_change r) (outputs tx)"
    using T U(2) by simp
  have unl: "list_all (\<lambda>i. p2pkh_unlocks S sha ripemd tx i (build_p2pkh_script (hash160 sha ripemd pub)) (fu_satoshis (sel ! i)))
      [0..<length sel]"
    unfolding list_all_iff using sig signed_unlocks[OF S st(1,2)] by (metis atLeastLessThan_iff set_upt)
  have "list_all txin_ok (inputs tx)"
    unfolding list_all_length
  proof (intro allI impI)
    fix i assume i: "i < length (inputs tx)"
    then obtain ss where ss: "inputs tx ! i = spend_input ss (sel ! i)" "length ss \<le> 108"
      using inp[of i] li by (auto simp: WALLET_P2PKH_SCRIPTSIG_MAX_def)
    have "is_hex_len (fu_tx_id (sel ! i)) 32" using b(3) i li by (simp add: list_all_length)
    then show "txin_ok (inputs tx ! i)" unfolding ss(1) using ss(2) by (intro spend_input_ok) auto
  qed
  then have ok: "tx_ok tx"
    using spend_outputs_ok[OF so st(5) n(2)] li n(1) st(6) by (simp add: tx_ok_def)
  then obtain raw where raw: "tx_serialize tx = Inr raw" using tx_serialize_ok by blast
  have "raw_hex r = hex_encode_loop raw"
    using st(13) raw by (auto simp: tx_builder_build_hex_def hex_encode_def hex_encode_to_def split: if_splits)
  then have de: "tx_deserialize (raw_hex r) = Inr tx"
    using ok raw by (simp add: tx_deserialize_def hex_decode_encode tx_deserialize_serialize)
  have "estimate_size tx \<le> estimate_size tx1"
  proof (rule estimate_size_inputs_mono[OF U(2,1)])
    fix i assume "i < length (inputs tx1)"
    then obtain ss where ss: "inputs tx ! i = spend_input ss (sel ! i)" "length ss \<le> 108" "i < length sel"
      using inp[of i] i1 by (auto simp: WALLET_P2PKH_SCRIPTSIG_MAX_def)
    then show "input_size (inputs tx ! i) \<le> input_size (inputs tx1 ! i)"
      using varint_mono[of "length ss" 108] i1
      by (simp add: spend_input_def input_size_def WALLET_P2PKH_SCRIPTSIG_MAX_def)
  qed
  then have "length raw \<le> sz" using T estimate_size_exact[OF raw] by auto
  then have fee: "\<exists>raw n. tx_serialize tx = Inr raw \<and> length raw \<le> size_bytes r \<and> size_bytes r \<le> n \<and> n \<le> size_bytes r + 42 \<and>
       unat (fee_for n (plan_rate plan)) \<le> unat (res_fee r) \<and>
       unat (res_fee r) < unat (fee_for n (plan_rate plan)) + 546"
    using T raw st(15) by auto
  have money: "funds sel = sats (outputs tx) + unat (res_fee r)" "unat (total_out r) = sats (outputs tx)"
    using T U(2) st(7) by auto
  show ?thesis using st(1,2,5-8,14) de su unl so money fee by blast
qed

text \<open>Signing succeeds on every transaction whose inputs name well-formed transaction ids.\<close>

lemma sign_inputs_ok:
  assumes "secp_ok S" "ec_seckey_verify S key" "\<forall>x. length (sha x) = 32"
    and "length (inputs tx) = k + length us" "list_all txid_ok (inputs tx)"
  shows "\<exists>tx'. sign_inputs S sha key pub spk k us tx = Inr tx'"
  using assms(4,5)
proof (induction us arbitrary: k tx)
  case (Cons u us)
  have k: "k < length (inputs tx)" using Cons.prems(1) by simp
  then obtain digest where d: "bip143_sighash sha tx k spk (fu_satoshis u) 0x41 = Inr digest"
    using bip143_preimage_Inr_iff[of sha tx k spk "fu_satoshis u" "0x41"] Cons.prems(2)
    by (auto simp: bip143_sighash_def)
  obtain der where der: "ecdsa_sign_low_s S digest key = Inr der"
    using sign_verifies[OF assms(1,2) sighash_length[OF assms(3) d]] by blast
  define ss where "ss = [of_nat (length der + 1)] @ der @ [0x41] @ [of_nat (length pub)] @ pub"
  have "list_all txid_ok ((inputs tx)[k := (inputs tx ! k)\<lparr>script_sig := ss\<rparr>])"
    using Cons.prems(2) k by (simp add: list_all_length nth_list_update txid_ok_def)
  then obtain tx' where "sign_inputs S sha key pub spk (k + 1) us
      (tx\<lparr>inputs := (inputs tx)[k := (inputs tx ! k)\<lparr>script_sig := ss\<rparr>]\<rparr>) = Inr tx'"
    using Cons.IH[of "tx\<lparr>inputs := (inputs tx)[k := (inputs tx ! k)\<lparr>script_sig := ss\<rparr>]\<rparr>" "k + 1"] Cons.prems(1) by auto
  then show ?case using d der by (auto simp: Let_def ss_def)
qed simp

lemma tx_id_ok: "tx_serialize tx = Inr raw \<Longrightarrow> \<exists>s. tx_id sha tx = Inr s"
  by (simp add: tx_id_def Let_def hex_encode_small SIZE_MAX_def)

section \<open>An example\<close>

abbreviation sha7 :: "bytes \<Rightarrow> bytes" where "sha7 \<equiv> \<lambda>_. replicate 32 7"
abbreviation rip9 :: "bytes \<Rightarrow> bytes" where "rip9 \<equiv> \<lambda>_. replicate 20 9"

definition demo_addr :: string where "demo_addr = address_from_hash160 sha7 (replicate 20 0) BSV_MAINNET"

definition demo_utxo :: funding_utxo_t where
  "demo_utxo = \<lparr>fu_tx_id = replicate 64 (CHR ''a''), output_index = 1, fu_satoshis = 100000, confirmed = True\<rparr>"

definition demo_plan :: spend_plan_t where
  "demo_plan = \<lparr>recipients = [\<lparr>rcp_address = demo_addr, rcp_satoshis = 600\<rparr>], op_return_data = Some [1, 2],
     plan_change_address = None, plan_fee_per_kb = 0, send_all = False\<rparr>"

definition spend_demo_tx :: "bytes \<Rightarrow> u64 \<Rightarrow> bsv_tx_t" where
  "spend_demo_tx ss change = tx_builder_init\<lparr>inputs := [spend_input ss demo_utxo],
     outputs := [\<lparr>satoshis = 600, script = build_p2pkh_script (replicate 20 0)\<rparr>,
       \<lparr>satoshis = 0, script = [OP_0, OP_RETURN, 2, 1, 2]\<rparr>,
       \<lparr>satoshis = change, script = build_p2pkh_script (replicate 20 0)\<rparr>]\<rparr>"

lemma demo_h160: "addr_to_h160 sha7 demo_addr BSV_MAINNET = Inr (replicate 20 0)"
proof -
  have d: "base58check_decode sha7 demo_addr = Inr (0 # replicate 20 0)"
    unfolding demo_addr_def address_from_hash160_def by (simp add: base58check_decode_encode)
  have "base58check_decode sha7 [] \<noteq> Inr (0 # replicate 20 0)" by code_simp
  with d have "demo_addr \<noteq> []" by auto
  with d show ?thesis by (simp add: addr_to_h160_def)
qed

lemma demo_select: "select_some 50 600 3 5 [] [demo_utxo] 0 = Inr ([demo_utxo], 100000)"
  by code_simp

lemma demo_settle:
  "settle False 50 600 100000 (spend_demo_tx (replicate 108 0) 0) = Inr (spend_demo_tx (replicate 108 0) 99387, 13, 99387, 99987, 241)"
  by code_simp

lemma demo_builds:
  "\<exists>r. wallet_build_signed_spend demo_secp sha7 rip9 BSV_MAINNET (replicate 32 1) demo_addr [demo_utxo] demo_plan = Inr r \<and>
     size_bytes r = 241"
proof -
  let ?k = "replicate 32 1 :: bytes" and ?p = "2 # replicate 32 1 :: bytes"
  let ?spk = "build_p2pkh_script (hash160 sha7 rip9 ?p)"
  have k: "ec_seckey_verify demo_secp ?k" "ecdsa_key_derive_pubkey demo_secp ?k = Inr ?p"
    "ecdsa_pubkey_serialize_compressed demo_secp ?p = Inr ?p"
    by (simp_all add: demo_secp_def ecdsa_key_derive_pubkey_def ecdsa_pubkey_serialize_compressed_def)
  have sha7: "\<forall>x. length (sha7 x) = 32" by simp
  have hx: "is_hex_char (CHR ''a'')" "lower_char (CHR ''a'') = CHR ''a''" by code_simp+
  have ti: "is_hex_len (replicate 64 (CHR ''a'')) 32" using hx by (simp add: is_hex_len_iff list_all_iff)
  define b where "b = tx_builder_init\<lparr>inputs := [spend_input [] demo_utxo]\<rparr>"
  have ai: "add_inputs tx_builder_init [demo_utxo] = Inr b"
    using ti by (simp add: tx_builder_add_input_def demo_utxo_def b_def tx_builder_init_def tx_init_def spend_input_def hex_to_lower_def)
  have os: "build_opreturn_script [1, 2] = Inr [OP_0, OP_RETURN, 2, 1, 2]" by (simp add: build_opreturn_script_def Let_def)
  have ao: "add_outputs sha7 BSV_MAINNET demo_plan demo_addr (Some [OP_0, OP_RETURN, 2, 1, 2]) b = Inr (spend_demo_tx [] 0)"
    using demo_h160 by (simp add: add_outputs_def demo_plan_def add_p2pkh_def tx_builder_add_output_def spend_demo_tx_def b_def
        tx_builder_init_def tx_init_def)
  have ph: "install_placeholders (spend_demo_tx [] 0) = spend_demo_tx (replicate 108 0) 0"
    by (simp add: install_placeholders_def spend_demo_tx_def spend_input_def WALLET_P2PKH_SCRIPTSIG_MAX_def)
  let ?t = "spend_demo_tx (replicate 108 0) 99387"
  have in1: "inputs ?t = [spend_input (replicate 108 0) demo_utxo]" by (simp add: spend_demo_tx_def)
  have ok1: "list_all txid_ok (inputs ?t)"
    using ti hx by (simp add: in1 txid_ok_def spend_input_def demo_utxo_def hex_to_lower_def)
  have l1: "length (inputs ?t) = 0 + length [demo_utxo]" by (simp add: in1)
  obtain tx where tx: "sign_inputs demo_secp sha7 ?k ?p ?spk 0 [demo_utxo] ?t = Inr tx"
    using sign_inputs_ok[OF demo_secp_ok k(1) sha7 l1 ok1] by blast
  note G = sign_inputs_InrD[OF demo_secp_ok k(1) sha7 k(2) tx l1]
  have "unsig tx = unsig ?t" using G by simp
  note U = unsig_eqD[OF this]
  obtain ss where ss: "inputs tx = [spend_input ss demo_utxo]" "length ss \<le> 108"
  proof -
    have "\<exists>der. script_sig (inputs tx ! 0) = sig_script der ?p \<and> length der \<le> 72" using G by auto
    then obtain der where der: "script_sig (inputs tx ! 0) = sig_script der ?p" "length der \<le> 72" by blast
    obtain ss where ss: "inputs tx ! 0 = spend_input ss demo_utxo"
      using U(5)[of 0] in1 by (auto simp: spend_input_def)
    have "inputs tx = [spend_input ss demo_utxo]" using U(1) in1 ss by (cases "inputs tx") auto
    moreover have "length ss \<le> 108"
      using sig_script_length[OF der(2), of ?p] der(1) ss by (simp add: spend_input_def WALLET_P2PKH_SCRIPTSIG_MAX_def)
    ultimately show ?thesis using that by blast
  qed
  have "txin_ok (spend_input ss demo_utxo)" using ti ss(2) by (intro spend_input_ok) (simp_all add: demo_utxo_def)
  then have "tx_ok tx" using U(2) ss by (simp add: tx_ok_def spend_demo_tx_def txout_ok_def script_ok_def build_p2pkh_script_def)
  then obtain raw where raw: "tx_serialize tx = Inr raw" using tx_serialize_ok by blast
  have "estimate_size tx \<le> 500"
    using U(2) ss by (simp add: estimate_size_def spend_demo_tx_def input_size_def output_size_def spend_input_def
        build_p2pkh_script_def length_write_varint)
  then have "length raw \<le> (SIZE_MAX - 1) div 2" using estimate_size_exact[OF raw] by (simp add: SIZE_MAX_def)
  then obtain h where h: "tx_builder_build_hex tx = Inr h"
    using raw by (simp add: tx_builder_build_hex_def hex_encode_small)
  obtain txid where txid: "tx_id sha7 tx = Inr txid" using tx_id_ok[OF raw] by blast
  have pl: "send_all demo_plan = False" "recipients demo_plan = [\<lparr>rcp_address = demo_addr, rcp_satoshis = 600\<rparr>]"
    "op_return_data demo_plan = Some [1, 2]" "plan_change_address demo_plan = None" "plan_fee_per_kb demo_plan = 0"
    by (simp_all add: demo_plan_def)
  have rt: "recipient_total [\<lparr>rcp_address = demo_addr, rcp_satoshis = 600\<rparr>] 0 = Inr 600"
    by (simp add: WALLET_DUST_THRESHOLD_def add_money_u64_def BONSAI_MAX_MONEY_def)
  have three: "3 = Suc (Suc (Suc 0))" "5 = Suc (Suc (Suc (Suc (Suc 0))))" by simp_all
  note sel = demo_select[unfolded three]
  show ?thesis
    unfolding wallet_build_signed_spend_def Let_def
    using k(2,3) rt os sel ai ao tx h txid demo_settle ph
    by (simp add: pl BONSAI_FEE_PER_KB_def del: sign_inputs.simps add_inputs.simps select_some.simps recipient_total.simps)
qed

section \<open>What a signed spend guarantees\<close>

text \<open>
  C7. A signed spend is a valid payment. When the wallet returns a transaction, the hex it
  returns parses to a transaction with the returned id; its inputs are the first outputs it was
  offered, each with an unlocking script that satisfies the network's check against the output
  it spends; its outputs pay every recipient the amount asked for, in order, then the data
  output and a change of at least the dust limit (or, in a sweep, everything to the one
  recipient); and the inputs are worth exactly the outputs and the reported fee.
\<close>

theorem signed_spend_correct:
  assumes "secp_ok S" "ec_seckey_verify S key" "\<forall>x. length (sha x) = 32" "\<forall>x. length (ripemd x) = 20"
    and "length utxos < 2 ^ 64" "length (recipients plan) + 2 < 2 ^ 64"
    and "wallet_build_signed_spend S sha ripemd net key funding utxos plan = Inr r"
  shows "\<exists>p pub scr sel rest tx.
    ecdsa_key_derive_pubkey S key = Inr p \<and> ecdsa_pubkey_serialize_compressed S p = Inr pub \<and>
    utxos = sel @ rest \<and> num_inputs r = length sel \<and> opret_script plan = Inr scr \<and>
    tx_deserialize (raw_hex r) = Inr tx \<and> tx_id sha tx = Inr (res_txid r) \<and> spends_utxos sel (inputs tx) \<and>
    list_all (\<lambda>i. p2pkh_unlocks S sha ripemd tx i (build_p2pkh_script (hash160 sha ripemd pub)) (fu_satoshis (sel ! i)))
      [0..<length sel] \<and>
    spend_outputs sha net plan (plan_change plan funding) scr (total_out r) (res_change r) (outputs tx) \<and>
    unat (total_in r) = funds sel \<and> unat (total_in r) = sats (outputs tx) + unat (res_fee r) \<and>
    unat (total_out r) = sats (outputs tx)"
  using spend_facts[OF assms] by (elim exE conjE) (intro exI conjI; (assumption | simp))

theorem signed_spend_correct_witness:
  "\<exists>r tx. wallet_build_signed_spend demo_secp sha7 rip9 BSV_MAINNET (replicate 32 1) demo_addr [demo_utxo] demo_plan = Inr r \<and>
     tx_deserialize (raw_hex r) = Inr tx \<and> unat (total_in r) = sats (outputs tx) + unat (res_fee r)"
proof -
  obtain r where r: "wallet_build_signed_spend demo_secp sha7 rip9 BSV_MAINNET (replicate 32 1) demo_addr [demo_utxo] demo_plan = Inr r"
    using demo_builds by blast
  have "ec_seckey_verify demo_secp (replicate 32 1)" "\<forall>x. length (sha7 x) = 32" "\<forall>x. length (rip9 x) = 20"
    "length [demo_utxo] < 2 ^ 64" "length (recipients demo_plan) + 2 < 2 ^ 64"
    by (simp_all add: demo_secp_def demo_plan_def)
  from signed_spend_correct[OF demo_secp_ok this r] show ?thesis using r by blast
qed

text \<open>
  C8. The fee of a signed spend is enough and not excessive. The transaction is at most as long as
  the reported size; the fee pays at least the rate for every byte of it, and at most the rate
  for the reported size and a change output, plus a dust output and the rounding. The bound on the
  product keeps the floating-point arithmetic within the range where it is accurate.
\<close>

theorem signed_spend_fee_adequate:
  assumes "secp_ok S" "ec_seckey_verify S key" "\<forall>x. length (sha x) = 32" "\<forall>x. length (ripemd x) = 20"
    and "length utxos < 2 ^ 64" "length (recipients plan) + 2 < 2 ^ 64"
    and "wallet_build_signed_spend S sha ripemd net key funding utxos plan = Inr r"
    and "size_bytes r < 2 ^ 52" "unat (plan_rate plan) < 2 ^ 53"
    and "int (size_bytes r + 42) * int (unat (plan_rate plan)) \<le> FEE_LIMIT"
  shows "\<exists>tx raw. tx_deserialize (raw_hex r) = Inr tx \<and> tx_serialize tx = Inr raw \<and> length raw \<le> size_bytes r \<and>
    length raw * unat (plan_rate plan) \<le> 1000 * unat (res_fee r) \<and>
    1000 * unat (res_fee r) < (size_bytes r + 42) * unat (plan_rate plan) + 548000"
proof -
  obtain tx raw n where t: "tx_deserialize (raw_hex r) = Inr tx" "tx_serialize tx = Inr raw" "length raw \<le> size_bytes r"
    and n: "size_bytes r \<le> n" "n \<le> size_bytes r + 42"
    and f: "unat (fee_for n (plan_rate plan)) \<le> unat (res_fee r)" "unat (res_fee r) < unat (fee_for n (plan_rate plan)) + 546"
    using spend_facts[OF assms(1-7)] by blast
  let ?k = "unat (plan_rate plan)"
  have fee: "fee_for n (plan_rate plan) = tx_fee_for_size n (plan_rate plan)"
    by (simp add: fee_for_def sendtime_fee_window_def Let_def)
  have "int n * int ?k \<le> int (size_bytes r + 42) * int ?k" using n(2) by (intro mult_right_mono) simp_all
  then have lim: "int n * int ?k \<le> FEE_LIMIT" using assms(10) by linarith
  have "n < 2 ^ 53" using n(2) assms(8) by simp
  note B = tx_fee_bounds[OF this assms(9) lim]
  have "length raw * ?k \<le> n * ?k" using t(3) n(1) by (intro mult_right_mono) simp_all
  then have "length raw * ?k \<le> 1000 * unat (res_fee r)" using B(1) f(1) unfolding fee by linarith
  moreover have "n * ?k \<le> (size_bytes r + 42) * ?k" using n(2) by (intro mult_right_mono) simp_all
  then have "1000 * unat (res_fee r) < (size_bytes r + 42) * ?k + 548000" using B(2) f(2) unfolding fee by linarith
  ultimately show ?thesis using t by blast
qed

theorem signed_spend_fee_adequate_witness:
  "\<exists>r tx raw. wallet_build_signed_spend demo_secp sha7 rip9 BSV_MAINNET (replicate 32 1) demo_addr [demo_utxo] demo_plan = Inr r \<and>
     tx_deserialize (raw_hex r) = Inr tx \<and> tx_serialize tx = Inr raw \<and> length raw * 50 \<le> 1000 * unat (res_fee r)"
proof -
  obtain r where r: "wallet_build_signed_spend demo_secp sha7 rip9 BSV_MAINNET (replicate 32 1) demo_addr [demo_utxo] demo_plan = Inr r"
      "size_bytes r = 241"
    using demo_builds by blast
  have k: "plan_rate demo_plan = 50" by (simp add: demo_plan_def BONSAI_FEE_PER_KB_def)
  have "ec_seckey_verify demo_secp (replicate 32 1)" "\<forall>x. length (sha7 x) = 32" "\<forall>x. length (rip9 x) = 20"
    "length [demo_utxo] < 2 ^ 64" "length (recipients demo_plan) + 2 < 2 ^ 64"
    by (simp_all add: demo_secp_def demo_plan_def)
  from signed_spend_fee_adequate[OF demo_secp_ok this r(1)] show ?thesis
    unfolding k r(2) using r(1) by (auto simp: FEE_LIMIT_def)
qed

section \<open>Listing, ranking and spending; new wallets\<close>

text \<open>\<^verbatim>\<open>woc_client_list_utxos\<close> is the parameter \<open>list_utxos\<close>.\<close>

definition wallet_fund_and_sign ::
  "('p, 's) secp \<Rightarrow> (bytes \<Rightarrow> bytes) \<Rightarrow> (bytes \<Rightarrow> bytes) \<Rightarrow> (string \<Rightarrow> woc_utxo_t list res) \<Rightarrow> bsv_network_t \<Rightarrow> bytes \<Rightarrow>
     string \<Rightarrow> spend_plan_t \<Rightarrow> spend_result_t res" where
  "wallet_fund_and_sign S sha ripemd list_utxos net key funding_address plan =
     res_bind (list_utxos funding_address) (\<lambda>u.
     wallet_build_signed_spend S sha ripemd net key funding_address (rank_funding_utxos u None) plan)"

definition wallet_generate_key ::
  "('p, 's) secp \<Rightarrow> (bytes \<Rightarrow> bytes) \<Rightarrow> (bytes \<Rightarrow> bytes) \<Rightarrow> (nat \<Rightarrow> bytes res) \<Rightarrow> bsv_network_t \<Rightarrow> (string \<times> string) res" where
  "wallet_generate_key S sha ripemd rnd net =
     res_bind (ecdsa_key_random S rnd) (\<lambda>key.
     let secret = ecdsa_key_to_bytes key in
     res_bind (ecdsa_key_derive_pubkey S key) (\<lambda>pub.
     let wif = wif_encode sha secret True net in
     res_bind (address_from_pubkey sha ripemd (ecdsa_pubkey_serialize_compressed S) pub net) (\<lambda>addr.
     Inr (wif, addr))))"

lemma addr_to_h160_address:
  assumes "\<forall>x. length (sha x) = 32" "length h = 20"
  shows "addr_to_h160 sha (address_from_hash160 sha h net) net = Inr h"
proof -
  have d: "base58check_decode sha (address_from_hash160 sha h net) = Inr ((if net = BSV_TESTNET then 0x6f else 0x00) # h)"
    unfolding address_from_hash160_def using assms(1) by (simp add: base58check_decode_encode)
  have "base58check_decode sha [] = Inl BNS_EPARSE"
    by (simp add: base58check_decode_def base58_decode_def Let_def b58_convert_def dec_size_def)
  with d have "address_from_hash160 sha h net \<noteq> []" by auto
  with d show ?thesis using assms(2) by (simp add: addr_to_h160_def)
qed

text \<open>
  C9. A new wallet can spend what is sent to it. The exported text decodes to a valid private key,
  and the address decodes to the hash of that key's public key, so the output that a payment to
  the address creates is the one the wallet's signatures unlock.
\<close>

theorem generated_wallet_owns_address:
  assumes "secp_ok S" "\<forall>x. length (sha x) = 32" "\<forall>x. length (ripemd x) = 20"
    and "list_all (\<lambda>i. case rnd i of Inr b \<Rightarrow> length b = 32 | Inl _ \<Rightarrow> True) [0..<16]"
    and "wallet_generate_key S sha ripemd rnd net = Inr (wif, addr)"
  shows "\<exists>key p pub. ecdsa_key_from_wif S sha wif = Inr (key, True) \<and> ec_seckey_verify S key \<and>
    ecdsa_key_derive_pubkey S key = Inr p \<and> ecdsa_pubkey_serialize_compressed S p = Inr pub \<and>
    (\<forall>v. pays sha net addr v \<lparr>satoshis = v, script = build_p2pkh_script (hash160 sha ripemd pub)\<rparr>)"
proof -
  obtain key p where k: "ecdsa_key_random S rnd = Inr key" "ecdsa_key_derive_pubkey S key = Inr p"
    and a: "address_from_pubkey sha ripemd (ecdsa_pubkey_serialize_compressed S) p net = Inr addr"
    and w: "wif = wif_encode sha key True net"
    using assms(5) by (auto simp: wallet_generate_key_def res_bind_Inr_iff Let_def ecdsa_key_to_bytes_def)
  obtain i where i: "i < 16" "rnd i = Inr key" "ec_seckey_verify S key"
    using k(1) unfolding ecdsa_key_random_def key_random_loop_iff by auto
  then have l: "length key = 32" using assms(4) by (force simp: list_all_iff)
  obtain pub where pub: "ecdsa_pubkey_serialize_compressed S p = Inr pub"
      "addr = address_from_hash160 sha (hash160 sha ripemd pub) net"
    using a by (auto simp: address_from_pubkey_def res_bind_Inr_iff)
  have "ecdsa_key_from_wif S sha wif = Inr (key, True)"
    unfolding key_from_wif_iff using i(3) l w wif_decode_iff[OF assms(2)] by blast
  moreover have "addr_to_h160 sha addr net = Inr (hash160 sha ripemd pub)"
    unfolding pub(2) using assms(2,3) by (intro addr_to_h160_address) (simp_all add: hash160_def)
  ultimately show ?thesis using i(3) k(2) pub(1) by (auto simp: pays_def)
qed

theorem generated_wallet_owns_address_witness:
  "\<exists>wif addr key. wallet_generate_key demo_secp sha7 rip9 (\<lambda>i. Inr (replicate 32 (of_nat i))) BSV_MAINNET = Inr (wif, addr) \<and>
     ecdsa_key_from_wif demo_secp sha7 wif = Inr (key, True)"
proof -
  have "ecdsa_key_random demo_secp (\<lambda>i. Inr (replicate 32 (of_nat i))) = Inr (replicate 32 0)"
    unfolding ecdsa_key_random_def upt_conv_Cons[OF zero_less_numeral]
    by (simp add: ecdsa_key_from_bytes_def demo_secp_def)
  then obtain wif addr where w:
      "wallet_generate_key demo_secp sha7 rip9 (\<lambda>i. Inr (replicate 32 (of_nat i))) BSV_MAINNET = Inr (wif, addr)"
    by (simp add: wallet_generate_key_def Let_def ecdsa_key_derive_pubkey_def demo_secp_def address_from_pubkey_def
        ecdsa_pubkey_serialize_compressed_def)
  have r: "list_all (\<lambda>i. case (Inr (replicate 32 (of_nat i)) :: bytes res) of Inr b \<Rightarrow> length b = 32 | Inl _ \<Rightarrow> True) [0..<16]"
    by (simp add: list_all_iff)
  show ?thesis using generated_wallet_owns_address[OF demo_secp_ok _ _ r w] w by auto
qed

section \<open>Where the selection falls short\<close>

text \<open>
  Selection counts 148 bytes for an input and a slack of nine; settling counts 149. With ten
  inputs or more the selection may stop one output early, and the call fails although more
  outputs are on offer.
\<close>

lemma selection_underestimates:
  assumes "list_all (\<lambda>i. length (script_sig i) = WALLET_P2PKH_SCRIPTSIG_MAX) (inputs tx)"
    and "list_all (\<lambda>o'. length (script o') = 25) (outputs tx)" "9 < length (inputs tx)"
  shows "est_size_by_counts (length (inputs tx)) (length (outputs tx)) 0 < estimate_size tx"
proof -
  have "sum_list (map input_size is) = 149 * length is"
    if "list_all (\<lambda>i. length (script_sig i) = WALLET_P2PKH_SCRIPTSIG_MAX) is" for "is"
    using that by (induction "is") (simp_all add: input_size_def WALLET_P2PKH_SCRIPTSIG_MAX_def length_write_varint)
  moreover have "sum_list (map output_size os) = 34 * length os" if "list_all (\<lambda>o'. length (script o') = 25) os" for os
    using that by (induction os) (simp_all add: output_size_def length_write_varint)
  moreover have "1 \<le> length (write_varint n)" for n by (simp add: length_write_varint)
  ultimately have "sum_list (map input_size (inputs tx)) = 149 * length (inputs tx)"
    "sum_list (map output_size (outputs tx)) = 34 * length (outputs tx)"
    "1 \<le> length (write_varint (of_nat (length (inputs tx))))" "1 \<le> length (write_varint (of_nat (length (outputs tx))))"
    using assms by blast+
  then show ?thesis using assms(3) unfolding estimate_size_def est_size_by_counts_def by simp
qed

end
