(* ===== verification/RateLimiter.thy ===== *)
theory RateLimiter
  imports Oracle
begin

text \<open>
  Request pacing (\<^verbatim>\<open>src/chainSources/woc_rate_limiter.c\<close>, \<^verbatim>\<open>throttled_provider.c\<close>): the
  process-wide gate that spaces requests and retries a throttled one with a growing pause. The
  clock and the answers of the gated function are a parameter: the n-th invocation starts
  \<open>late\<close> milliseconds after the gate let it go, takes \<open>took\<close> milliseconds and returns a result
  code and a status. The mutex makes the calls of a process a sequence. Milliseconds are
  unbounded integers.
\<close>

section \<open>Model\<close>

definition BONSAI_WOC_MIN_INTERVAL_MS :: int where "BONSAI_WOC_MIN_INTERVAL_MS = 400"
definition BONSAI_WOC_MAX_RETRIES :: nat where "BONSAI_WOC_MAX_RETRIES = 6"
definition BONSAI_WOC_BASE_BACKOFF_MS :: int where "BONSAI_WOC_BASE_BACKOFF_MS = 1000"

text \<open>The inner loop compares one position; the outer one moves it.\<close>

fun ci_match :: "string \<Rightarrow> string \<Rightarrow> bool" where
  "ci_match hp [] = True"
| "ci_match [] (n # np) = False"
| "ci_match (h # hp) (n # np) = (tolower h = tolower n \<and> ci_match hp np)"

fun ci_scan :: "string \<Rightarrow> string \<Rightarrow> bool" where
  "ci_scan [] needle = False"
| "ci_scan (h # hs) needle = (ci_match (h # hs) needle \<or> ci_scan hs needle)"

definition ci_contains :: "string option \<Rightarrow> string \<Rightarrow> bool" where
  "ci_contains haystack needle =
     (case haystack of None \<Rightarrow> False | Some hay \<Rightarrow> if needle = [] then True else ci_scan hay needle)"

definition is_429 :: "int \<Rightarrow> string option \<Rightarrow> bool" where
  "is_429 status message =
     (if status = 429 then True
      else if ci_contains message ''429'' then True
      else if ci_contains message ''too many requests'' then True
      else False)"

record answer =
  late :: nat
  took :: nat
  ans_rc :: "bonsai_err_t"
  ans_status :: int

text \<open>The gate, the clock, the number of invocations so far and when each of them started.\<close>

record gate_t =
  g_last_start_ms :: int
  now_ms :: int
  invoked :: nat
  starts :: "int list"

definition sleep_ms :: "int \<Rightarrow> gate_t \<Rightarrow> gate_t" where
  "sleep_ms ms g = (if ms \<le> 0 then g else g\<lparr>now_ms := now_ms g + ms\<rparr>)"

text \<open>One invocation of the gated function.\<close>

definition invoke :: "(nat \<Rightarrow> answer) \<Rightarrow> gate_t \<Rightarrow> bonsai_err_t \<times> int \<times> gate_t" where
  "invoke world g =
     (let a = world (invoked g); t = now_ms g + int (late a) in
      (ans_rc a, ans_status a,
       g\<lparr>g_last_start_ms := t, now_ms := t + int (took a), invoked := invoked g + 1, starts := starts g @ [t]\<rparr>))"

function retry_loop :: "(nat \<Rightarrow> answer) \<Rightarrow> nat \<Rightarrow> gate_t \<Rightarrow> bonsai_err_t \<times> int \<times> gate_t" where
  "retry_loop world attempt g =
     (case invoke world g of (rc, status, g') \<Rightarrow>
        if rc = BNS_OK then (rc, status, g')
        else if is_429 status None \<and> attempt < BONSAI_WOC_MAX_RETRIES then
          retry_loop world (attempt + 1) (sleep_ms (BONSAI_WOC_BASE_BACKOFF_MS * 2 ^ attempt) g')
        else (rc, status, g'))"
  by pat_completeness auto
termination
  by (relation "measure (\<lambda>(world, attempt, g). BONSAI_WOC_MAX_RETRIES - attempt)") auto

definition woc_rate_limited :: "(nat \<Rightarrow> answer) \<Rightarrow> gate_t \<Rightarrow> bonsai_err_t \<times> int \<times> gate_t" where
  "woc_rate_limited world g =
     (let wait = g_last_start_ms g + BONSAI_WOC_MIN_INTERVAL_MS - now_ms g in
      retry_loop world 0 (if wait > 0 then sleep_ms wait g else g))"

text \<open>A process makes one call after another, pausing as it likes in between.\<close>

fun woc_calls :: "(nat \<Rightarrow> answer) \<Rightarrow> nat list \<Rightarrow> gate_t \<Rightarrow> (bonsai_err_t \<times> int) list \<times> gate_t" where
  "woc_calls world [] g = ([], g)"
| "woc_calls world (d # ds) g =
     (case woc_rate_limited world (g\<lparr>now_ms := now_ms g + int d\<rparr>) of (rc, status, g') \<Rightarrow>
      case woc_calls world ds g' of (rs, g'') \<Rightarrow> ((rc, status) # rs, g''))"

definition gate_start :: "int \<Rightarrow> gate_t" where
  "gate_start now = \<lparr>g_last_start_ms = 0, now_ms = now, invoked = 0, starts = []\<rparr>"

record 'c throttled_provider_t =
  tp_client :: 'c
  fee_per_kb_override :: int
  has_fee_per_kb_override :: bool

definition throttled_mainnet_provider :: "'c \<Rightarrow> 'c throttled_provider_t" where
  "throttled_mainnet_provider client =
     \<lparr>tp_client = client, fee_per_kb_override = 0, has_fee_per_kb_override = False\<rparr>"

definition throttled_provider_fee_per_kb :: "('c \<Rightarrow> int res) \<Rightarrow> 'c throttled_provider_t \<Rightarrow> int res" where
  "throttled_provider_fee_per_kb query p =
     (if has_fee_per_kb_override p then Inr (fee_per_kb_override p) else query (tp_client p))"

section \<open>Recognising a throttled answer\<close>

lemma ci_match_iff: "ci_match hay n \<longleftrightarrow> (\<exists>post. map tolower hay = map tolower n @ post)"
  by (induction hay n rule: ci_match.induct) auto

lemma ci_scan_iff: "n \<noteq> [] \<Longrightarrow> ci_scan hay n \<longleftrightarrow> (\<exists>pre post. map tolower hay = pre @ map tolower n @ post)"
proof (induction hay)
  case (Cons h hs)
  show ?case unfolding ci_scan.simps Cons.IH[OF Cons.prems] ci_match_iff
    by (simp add: Cons_eq_append_conv ex_disj_distrib) (metis append_eq_Cons_conv)
qed simp

section \<open>Spacing\<close>

text \<open>
  The gate's invariant: starts are spaced, the last one is the one remembered, and the clock is
  not behind it.
\<close>

definition spaced :: "int list \<Rightarrow> bool" where
  "spaced ts \<longleftrightarrow> list_all (\<lambda>i. ts ! i + BONSAI_WOC_MIN_INTERVAL_MS \<le> ts ! (i + 1)) [0..<length ts - 1]"

definition gate_inv :: "gate_t \<Rightarrow> bool" where
  "gate_inv g \<longleftrightarrow> spaced (starts g) \<and> length (starts g) = invoked g \<and>
     (if starts g = [] then g_last_start_ms g = 0 else g_last_start_ms g = last (starts g)) \<and>
     g_last_start_ms g \<le> now_ms g"

lemma spaced_snoc: "spaced (ts @ [t]) \<longleftrightarrow> spaced ts \<and> (ts = [] \<or> last ts + BONSAI_WOC_MIN_INTERVAL_MS \<le> t)"
proof (cases ts rule: rev_cases)
  case (snoc us u)
  have "spaced (us @ [u, t]) \<longleftrightarrow> list_all (\<lambda>i. (us @ [u, t]) ! i + BONSAI_WOC_MIN_INTERVAL_MS \<le> (us @ [u, t]) ! (i + 1)) ([0..<length us] @ [length us])"
    by (simp add: spaced_def)
  also have "\<dots> \<longleftrightarrow> spaced (us @ [u]) \<and> u + BONSAI_WOC_MIN_INTERVAL_MS \<le> t"
    unfolding list_all_append spaced_def by (auto simp: list_all_iff nth_append)
  finally show ?thesis using snoc by simp
qed (simp add: spaced_def)

declare retry_loop.simps [simp del]

text \<open>
  The invocations of one call, numbered from \<open>k\<close>: every one but the last failed with a throttled
  answer, and its successor starts after it has returned and the pause of its attempt has passed.
\<close>

fun paced_attempts :: "(nat \<Rightarrow> answer) \<Rightarrow> nat \<Rightarrow> nat \<Rightarrow> int list \<Rightarrow> bool" where
  "paced_attempts world k a [] = False"
| "paced_attempts world k a [t] = True"
| "paced_attempts world k a (t # u # ts) =
     (ans_rc (world k) \<noteq> BNS_OK \<and> is_429 (ans_status (world k)) None \<and>
      t + int (took (world k)) + BONSAI_WOC_BASE_BACKOFF_MS * 2 ^ a \<le> u \<and> paced_attempts world (k + 1) (a + 1) (u # ts))"

lemma retry_loop_spec:
  assumes "retry_loop world a g = (rc, status, g')" "a \<le> BONSAI_WOC_MAX_RETRIES"
  shows "\<exists>t ts. starts g' = starts g @ t # ts \<and> invoked g' = invoked g + length (t # ts) \<and>
    a + length ts \<le> BONSAI_WOC_MAX_RETRIES \<and> t = now_ms g + int (late (world (invoked g))) \<and>
    paced_attempts world (invoked g) a (t # ts) \<and> g_last_start_ms g' = last (t # ts) \<and> g_last_start_ms g' \<le> now_ms g' \<and>
    rc = ans_rc (world (invoked g + length ts)) \<and> status = ans_status (world (invoked g + length ts)) \<and>
    (rc = BNS_OK \<or> \<not> is_429 status None \<or> a + length ts = BONSAI_WOC_MAX_RETRIES)"
  using assms
proof (induction world a g rule: retry_loop.induct)
  case (1 world a g)
  let ?w = "world (invoked g)" and ?t = "now_ms g + int (late (world (invoked g)))"
  define g1 where "g1 = g\<lparr>g_last_start_ms := ?t, now_ms := ?t + int (took ?w), invoked := invoked g + 1, starts := starts g @ [?t]\<rparr>"
  have i: "invoke world g = (ans_rc ?w, ans_status ?w, g1)" by (simp add: invoke_def Let_def g1_def)
  show ?case
  proof (cases "ans_rc ?w \<noteq> BNS_OK \<and> is_429 (ans_status ?w) None \<and> a < BONSAI_WOC_MAX_RETRIES")
    case True
    define g2 where "g2 = sleep_ms (BONSAI_WOC_BASE_BACKOFF_MS * 2 ^ a) g1"
    have g2: "starts g2 = starts g @ [?t]" "invoked g2 = invoked g + 1"
      "now_ms g2 = ?t + int (took ?w) + BONSAI_WOC_BASE_BACKOFF_MS * 2 ^ a"
      by (simp_all add: g2_def sleep_ms_def g1_def BONSAI_WOC_BASE_BACKOFF_MS_def not_le)
    have r: "retry_loop world (a + 1) g2 = (rc, status, g')"
      using "1.prems"(1) True unfolding retry_loop.simps[of world a g] by (simp add: i g2_def)
    have "a + 1 \<le> BONSAI_WOC_MAX_RETRIES" using True by simp
    from "1.IH"[OF i[symmetric] refl _ _ r[unfolded g2_def] this] True
    obtain t ts where "starts g' = starts g2 @ t # ts" "invoked g' = invoked g2 + length (t # ts)"
      "a + 1 + length ts \<le> BONSAI_WOC_MAX_RETRIES" "t = now_ms g2 + int (late (world (invoked g2)))"
      "paced_attempts world (invoked g2) (a + 1) (t # ts)" "g_last_start_ms g' = last (t # ts)" "g_last_start_ms g' \<le> now_ms g'"
      "rc = ans_rc (world (invoked g2 + length ts))" "status = ans_status (world (invoked g2 + length ts))"
      "rc = BNS_OK \<or> \<not> is_429 status None \<or> a + 1 + length ts = BONSAI_WOC_MAX_RETRIES"
      unfolding g2_def[symmetric] by blast
    then show ?thesis using True g2 by (intro exI[of _ ?t] exI[of _ "t # ts"]) simp
  next
    case False
    then have "(rc, status, g') = (ans_rc ?w, ans_status ?w, g1)"
      using "1.prems"(1) unfolding retry_loop.simps[of world a g] by (auto simp: i split: if_splits)
    then show ?thesis using False "1.prems"(2) by (intro exI[of _ ?t] exI[of _ "[]"]) (auto simp: g1_def)
  qed
qed

lemma paced_spaced:
  "paced_attempts world k a ts \<Longrightarrow> spaced pre \<Longrightarrow> pre = [] \<or> last pre + BONSAI_WOC_MIN_INTERVAL_MS \<le> hd ts \<Longrightarrow> spaced (pre @ ts)"
proof (induction world k a ts arbitrary: pre rule: paced_attempts.induct)
  case (3 world k a t u ts)
  have "1 \<le> (2 :: int) ^ a" by simp
  then have "t + BONSAI_WOC_MIN_INTERVAL_MS \<le> u"
    using "3.prems"(1) unfolding paced_attempts.simps BONSAI_WOC_MIN_INTERVAL_MS_def BONSAI_WOC_BASE_BACKOFF_MS_def
    by linarith
  then show ?case using "3.IH"[of "pre @ [t]"] "3.prems" by (simp add: spaced_snoc)
qed (simp_all add: spaced_snoc)

text \<open>One call: what it returns and when its invocations start.\<close>

lemma rate_limited_step:
  assumes "gate_inv g" "woc_rate_limited world g = (rc, status, g')"
  shows "gate_inv g' \<and> (\<exists>n < 7. invoked g' = invoked g + n + 1)"
proof -
  define g0 where "g0 = (let wait = g_last_start_ms g + BONSAI_WOC_MIN_INTERVAL_MS - now_ms g in
      if wait > 0 then sleep_ms wait g else g)"
  have g0: "starts g0 = starts g" "invoked g0 = invoked g" "now_ms g \<le> now_ms g0"
    "g_last_start_ms g + BONSAI_WOC_MIN_INTERVAL_MS \<le> now_ms g0"
    by (simp_all add: g0_def sleep_ms_def Let_def)
  have "retry_loop world 0 g0 = (rc, status, g')" using assms(2) by (simp add: woc_rate_limited_def g0_def Let_def)
  from retry_loop_spec[OF this] obtain t ts where r: "starts g' = starts g0 @ t # ts" "invoked g' = invoked g0 + length (t # ts)"
    "length ts \<le> BONSAI_WOC_MAX_RETRIES" "t = now_ms g0 + int (late (world (invoked g0)))"
    "paced_attempts world (invoked g0) 0 (t # ts)" "g_last_start_ms g' = last (t # ts)" "g_last_start_ms g' \<le> now_ms g'"
    by auto
  have "starts g = [] \<or> last (starts g) + BONSAI_WOC_MIN_INTERVAL_MS \<le> t"
    using assms(1) g0(4) r(4) by (auto simp: gate_inv_def split: if_splits)
  then have "spaced (starts g')" unfolding r(1) g0(1) using paced_spaced[OF r(5)] assms(1) by (simp add: gate_inv_def)
  then show ?thesis using assms(1) r g0(1,2)
    by (auto simp: gate_inv_def BONSAI_WOC_MAX_RETRIES_def)
qed

text \<open>The number of requests that each call of a sequence makes.\<close>

fun call_requests :: "(nat \<Rightarrow> answer) \<Rightarrow> nat list \<Rightarrow> gate_t \<Rightarrow> nat list" where
  "call_requests world [] g = []"
| "call_requests world (d # ds) g =
     (case woc_rate_limited world (g\<lparr>now_ms := now_ms g + int d\<rparr>) of (rc, status, g') \<Rightarrow>
      (invoked g' - invoked g) # call_requests world ds g')"

lemma woc_calls_inv:
  "gate_inv g \<Longrightarrow> woc_calls world ds g = (rs, g') \<Longrightarrow>
     gate_inv g' \<and> length rs = length ds \<and> length (call_requests world ds g) = length ds \<and>
     list_all (\<lambda>n. 1 \<le> n \<and> n \<le> 7) (call_requests world ds g) \<and>
     invoked g' = invoked g + sum_list (call_requests world ds g)"
proof (induction ds arbitrary: g rs)
  case (Cons d ds)
  obtain rc status g1 where c: "woc_rate_limited world (g\<lparr>now_ms := now_ms g + int d\<rparr>) = (rc, status, g1)"
    by (cases "woc_rate_limited world (g\<lparr>now_ms := now_ms g + int d\<rparr>)") auto
  obtain rs1 where r: "woc_calls world ds g1 = (rs1, g')" "rs = (rc, status) # rs1"
    using Cons.prems(2) by (auto simp: c split: prod.splits)
  have "gate_inv (g\<lparr>now_ms := now_ms g + int d\<rparr>)" using Cons.prems(1) by (simp add: gate_inv_def)
  from rate_limited_step[OF this c] have "gate_inv g1" "\<exists>n < 7. invoked g1 = invoked g + n + 1" by auto
  then show ?case using Cons.IH[OF _ r(1)] r(2) by (auto simp: c)
qed simp

text \<open>
  C39. The process is a well-behaved client. Over any sequence of calls, with any pauses, delays and
  answers, every call returns, any two successive requests start at least 400 milliseconds
  apart, also across calls, and every single call makes at least one request and at most seven, which
  are all the requests there are.
\<close>

theorem woc_calls_paced:
  assumes "0 \<le> now" "woc_calls world ds (gate_start now) = (rs, g)"
  shows "spaced (starts g) \<and> length (starts g) = invoked g \<and> length rs = length ds \<and>
    length (call_requests world ds (gate_start now)) = length ds \<and>
    list_all (\<lambda>n. 1 \<le> n \<and> n \<le> 7) (call_requests world ds (gate_start now)) \<and>
    sum_list (call_requests world ds (gate_start now)) = invoked g"
proof -
  have "gate_inv (gate_start now)" using assms(1) by (simp add: gate_inv_def gate_start_def spaced_def)
  then show ?thesis using woc_calls_inv[OF _ assms(2)] by (auto simp: gate_inv_def gate_start_def)
qed

theorem woc_calls_paced_witness:
  "\<exists>rs g. woc_calls (\<lambda>n. \<lparr>late = 3, took = 20, ans_rc = if n < 2 then BNS_ENET else BNS_OK, ans_status = if n < 2 then 429 else 200\<rparr>)
       [0, 5] (gate_start 1000) = (rs, g) \<and> spaced (starts g) \<and>
     list_all (\<lambda>n. 1 \<le> n \<and> n \<le> 7) (call_requests
       (\<lambda>n. \<lparr>late = 3, took = 20, ans_rc = if n < 2 then BNS_ENET else BNS_OK, ans_status = if n < 2 then 429 else 200\<rparr>)
       [0, 5] (gate_start 1000))"
proof -
  let ?w = "\<lambda>n :: nat. \<lparr>late = 3, took = 20, ans_rc = if n < 2 then BNS_ENET else BNS_OK, ans_status = if n < 2 then 429 else 200\<rparr>"
  obtain rs g where r: "woc_calls ?w [0, 5] (gate_start 1000) = (rs, g)" by (rule prod.exhaust)
  show ?thesis using woc_calls_paced[OF _ r] r by (intro exI[of _ rs] exI[of _ g]) simp
qed

text \<open>
  What a call returns. It is the result of its last request; every earlier request of the call
  was answered with 429 and followed by a pause that doubles from one second; and the last
  request succeeded, failed with another status, or was the seventh.
\<close>

theorem woc_rate_limited_retries:
  "\<exists>t ts. case woc_rate_limited world g of (rc, status, g') \<Rightarrow>
    starts g' = starts g @ t # ts \<and> length ts \<le> 6 \<and> g_last_start_ms g + BONSAI_WOC_MIN_INTERVAL_MS \<le> t \<and>
    paced_attempts world (invoked g) 0 (t # ts) \<and>
    rc = ans_rc (world (invoked g + length ts)) \<and> status = ans_status (world (invoked g + length ts)) \<and>
    (rc = BNS_OK \<or> status \<noteq> 429 \<or> length ts = 6)"
proof -
  define g0 where "g0 = (let wait = g_last_start_ms g + BONSAI_WOC_MIN_INTERVAL_MS - now_ms g in
      if wait > 0 then sleep_ms wait g else g)"
  have g0: "starts g0 = starts g" "invoked g0 = invoked g" "g_last_start_ms g + BONSAI_WOC_MIN_INTERVAL_MS \<le> now_ms g0"
    by (simp_all add: g0_def sleep_ms_def Let_def)
  have e: "woc_rate_limited world g = retry_loop world 0 g0" by (simp add: woc_rate_limited_def g0_def Let_def)
  obtain rc status g' where r: "retry_loop world 0 g0 = (rc, status, g')" by (cases "retry_loop world 0 g0") auto
  have s: "is_429 status None \<longleftrightarrow> status = 429" by (simp add: is_429_def ci_contains_def)
  show ?thesis using retry_loop_spec[OF r] g0 s unfolding e r by (auto simp: BONSAI_WOC_MAX_RETRIES_def)
qed

text \<open>The text of an error is searched without regard to case.\<close>

lemma ci_contains_iff:
  "n \<noteq> [] \<Longrightarrow> ci_contains (Some hay) n \<longleftrightarrow> (\<exists>pre post. map tolower hay = pre @ map tolower n @ post)"
  by (simp add: ci_contains_def ci_scan_iff)

end
