(* ===== verification/AutoExecLinter.thy ===== *)
theory AutoExecLinter
  imports ReleaseGate Oracle
begin

text \<open>
  The first attestor class (\<^verbatim>\<open>src/attestor/auto_exec_linter.c\<close>): a lint of a release's files for
  automatic execution, and the attestor that signs a release's digest, under a growing sequence
  number, only when the lint is clean. The vendored JSON library is the parameter \<open>json_lib\<close>.
\<close>

section \<open>Model\<close>

definition BONSAI_PACKAGE_JSON_HOOKS :: "string list" where
  "BONSAI_PACKAGE_JSON_HOOKS = [''preinstall'', ''install'', ''postinstall'', ''prepare'', ''prepublish'']"

definition FORBIDDEN_EXACT :: "string list" where
  "FORBIDDEN_EXACT = [''.claude/settings.json'', ''.claude/settings.local.json'', ''.vscode/tasks.json'',
     ''.gemini/settings.json'']"

definition FORBIDDEN_PREFIXES :: "string list" where
  "FORBIDDEN_PREFIXES = [''.cursor/rules'', ''.idea/runconfigurations/'']"

text \<open>
  \<^verbatim>\<open>cJSON_Parse\<close>, \<^verbatim>\<open>cJSON_GetObjectItemCaseSensitive\<close>, \<^verbatim>\<open>cJSON_IsObject\<close> and
  \<^verbatim>\<open>cJSON_HasObjectItem\<close>.
\<close>

record 'j json_lib =
  json_parse :: "string \<Rightarrow> 'j option"
  json_get :: "'j \<Rightarrow> string \<Rightarrow> 'j option"
  json_is_object :: "'j \<Rightarrow> bool"
  json_has :: "'j \<Rightarrow> string \<Rightarrow> bool"

record manifest_entry_t =
  entry_path :: string
  entry_content :: "string option"

record lint_violation_t =
  viol_path :: string
  viol_rule :: string
  viol_detail :: string

record lint_result_t =
  lint_clean :: bool
  violations :: "lint_violation_t list"

fun split_slash :: "string \<Rightarrow> string \<Rightarrow> string list" where
  "split_slash seg [] = [seg]"
| "split_slash seg (c # s) = (if c = CHR ''/'' then seg # split_slash [] s else split_slash (seg @ [c]) s)"

definition strip_trailing :: "string \<Rightarrow> string" where
  "strip_trailing s = rev (dropWhile (\<lambda>c. c = CHR ''.'' \<or> c = CHR '' '') (rev s))"

definition work_char :: "char \<Rightarrow> char" where
  "work_char c = tolower (if c = CHR 0x5c then CHR ''/'' else c)"

definition normalize_segments :: "string \<Rightarrow> string list" where
  "normalize_segments path =
     (let work = map work_char path;
          start = (if take 2 work = ''./'' then drop 2 work else work) in
      map strip_trailing (split_slash [] start))"

fun join_slash :: "string list \<Rightarrow> string" where
  "join_slash [] = []"
| "join_slash [s] = s"
| "join_slash (s # t # ss) = s @ ''/'' @ join_slash (t # ss)"

text \<open>Suffixes from the longest to the shortest; an exact match comes before a prefix.\<close>

fun match_vector :: "string list \<Rightarrow> string option" where
  "match_vector [] = None"
| "match_vector (s # ss) =
     (let tail = join_slash (s # ss) in
      case find (\<lambda>f. tail = f) FORBIDDEN_EXACT of
        Some f \<Rightarrow> Some (''forbidden-file:'' @ f)
      | None \<Rightarrow>
          (case find (\<lambda>p. take (length p) tail = p) FORBIDDEN_PREFIXES of
             Some p \<Rightarrow> Some (''forbidden-prefix:'' @ p)
           | None \<Rightarrow> match_vector ss))"

definition hook_violations :: "'j json_lib \<Rightarrow> string \<Rightarrow> string \<Rightarrow> lint_violation_t list" where
  "hook_violations J path content =
     (case json_parse J content of
        None \<Rightarrow> [\<lparr>viol_path = path, viol_rule = ''unparseable-package-json'',
                 viol_detail = ''cannot rule out install hooks (fail closed)''\<rparr>]
      | Some root \<Rightarrow>
          (case json_get J root ''scripts'' of
             None \<Rightarrow> []
           | Some scripts \<Rightarrow>
               if \<not> json_is_object J scripts then []
               else map (\<lambda>hook. \<lparr>viol_path = path, viol_rule = ''install-hook:'' @ hook,
                         viol_detail = ''scripts.'' @ hook @ '' runs on install''\<rparr>)
                      (filter (json_has J scripts) BONSAI_PACKAGE_JSON_HOOKS)))"

definition entry_violations :: "'j json_lib \<Rightarrow> manifest_entry_t \<Rightarrow> lint_violation_t list" where
  "entry_violations J e =
     (let segs = normalize_segments (entry_path e) in
      (case match_vector segs of
         Some rule \<Rightarrow> [\<lparr>viol_path = entry_path e, viol_rule = rule, viol_detail = ''known auto-exec vector''\<rparr>]
       | None \<Rightarrow> []) @
      (case entry_content e of
         Some content \<Rightarrow>
           if segs \<noteq> [] \<and> last segs = ''package.json'' then hook_violations J (entry_path e) content else []
       | None \<Rightarrow> []))"

fun lint_loop :: "'j json_lib \<Rightarrow> manifest_entry_t list \<Rightarrow> lint_violation_t list \<Rightarrow> lint_violation_t list" where
  "lint_loop J [] vs = vs"
| "lint_loop J (e # es) vs = lint_loop J es (vs @ entry_violations J e)"

definition lint_manifest :: "'j json_lib \<Rightarrow> manifest_entry_t list \<Rightarrow> lint_result_t" where
  "lint_manifest J manifest =
     (let vs = lint_loop J manifest [] in \<lparr>lint_clean = (length vs = 0), violations = vs\<rparr>)"

record release_fields_t =
  rf_genesis_outpoint :: string
  rf_scope :: string
  rf_version :: string
  rf_bundle_hash :: string
  rf_file_set_root :: string
  rf_announce_txid :: string

datatype attest_result_t =
    Attested (attested_pubkey: string) (attested_signature: string) (attested_digest: string) (attested_seq: u64)
  | Dirty lint_result_t

record auto_exec_linter_attestor_t =
  linter_key :: rabin_key_t
  linter_seq :: u64

definition auto_exec_linter_attestor_new :: "rabin_key_t \<Rightarrow> u64 \<Rightarrow> auto_exec_linter_attestor_t res" where
  "auto_exec_linter_attestor_new key start_seq =
     (if start_seq < 1 then Inl BNS_EINVAL else Inr \<lparr>linter_key = key, linter_seq = start_seq\<rparr>)"

definition release_digest :: "(bytes \<Rightarrow> bytes) \<Rightarrow> release_fields_t \<Rightarrow> string" where
  "release_digest sha f = compute_activate_digest sha (rf_genesis_outpoint f) (rf_scope f) (rf_version f)
     (rf_bundle_hash f) (rf_file_set_root f) (rf_announce_txid f)"

text \<open>\<open>None\<close> is a signing search that does not end.\<close>

definition auto_exec_linter_attestor_attest ::
  "bn_lib \<Rightarrow> bn_in \<Rightarrow> bn_arith \<Rightarrow> bn_text \<Rightarrow> (bytes \<Rightarrow> bytes) \<Rightarrow> 'j json_lib \<Rightarrow> release_fields_t \<Rightarrow>
     manifest_entry_t list \<Rightarrow> auto_exec_linter_attestor_t \<Rightarrow> (attest_result_t res \<times> auto_exec_linter_attestor_t) option" where
  "auto_exec_linter_attestor_attest L I A T sha J release manifest a =
     (let lr = lint_manifest J manifest in
      if \<not> lint_clean lr then Some (Inr (Dirty lr), a)
      else
        let digest = release_digest sha release; sq = linter_seq a in
        case rabin_attestor_sign_digest L I A T sha (linter_key a) digest sq of
          None \<Rightarrow> None
        | Some (Inl e) \<Rightarrow> Some (Inl e, a)
        | Some (Inr signature) \<Rightarrow>
            Some (Inr (Attested (attestor_pub_key T (linter_key a)) signature digest sq), a\<lparr>linter_seq := sq + 1\<rparr>))"

text \<open>An attestor answers one request after another.\<close>

fun attest_run ::
  "bn_lib \<Rightarrow> bn_in \<Rightarrow> bn_arith \<Rightarrow> bn_text \<Rightarrow> (bytes \<Rightarrow> bytes) \<Rightarrow> 'j json_lib \<Rightarrow>
     (release_fields_t \<times> manifest_entry_t list) list \<Rightarrow> auto_exec_linter_attestor_t \<Rightarrow>
     (attest_result_t res list \<times> auto_exec_linter_attestor_t) option" where
  "attest_run L I A T sha J [] a = Some ([], a)"
| "attest_run L I A T sha J ((release, manifest) # reqs) a =
     (case auto_exec_linter_attestor_attest L I A T sha J release manifest a of
        None \<Rightarrow> None
      | Some (r, a') \<Rightarrow> map_option (\<lambda>(rs, a''). (r # rs, a'')) (attest_run L I A T sha J reqs a'))"

section \<open>Paths\<close>

lemma split_slash_neq [simp]: "split_slash seg s \<noteq> []"
  by (induction seg s rule: split_slash.induct) auto

lemma split_slash_append:
  "split_slash seg (s @ ''/'' @ t) = split_slash seg s @ split_slash [] t"
  by (induction seg s rule: split_slash.induct) auto

lemma match_vector_append: "match_vector ss \<noteq> None \<Longrightarrow> match_vector (ts @ ss) \<noteq> None"
  by (induction ts) (auto simp: Let_def split: option.splits)

lemma work_sep: "work_char (CHR ''/'') = CHR ''/''" "work_char (CHR 0x5c) = CHR ''/''"
  by code_simp+

text \<open>
  Every way to write a directory in front of a file leaves the file's segments at the end of the
  path's, also when the file itself begins with \<^verbatim>\<open>./\<close> or is written with backslashes.
\<close>

lemma normalize_nested:
  assumes "c = CHR ''/'' \<or> c = CHR 0x5c"
  shows "\<exists>ts. normalize_segments (d @ [c] @ f) = ts @ map strip_trailing (split_slash [] (map work_char f))"
proof -
  define wd where "wd = map work_char d"
  define wf where "wf = map work_char f"
  have w: "map work_char (d @ [c] @ f) = wd @ ''/'' @ wf" using assms work_sep by (auto simp: wd_def wf_def)
  show ?thesis
  proof (cases "take 2 (wd @ ''/'' @ wf) = ''./''")
    case True
    show ?thesis
    proof (cases "length wd < 2")
      case short: True
      then have "wd = ''.''" using True by (cases wd) auto
      then show ?thesis unfolding normalize_segments_def Let_def w wf_def[symmetric] using True by (intro exI[of _ "[]"]) simp
    next
      case False
      then have "drop 2 (wd @ ''/'' @ wf) = drop 2 wd @ ''/'' @ wf" by simp
      then show ?thesis unfolding normalize_segments_def Let_def w wf_def[symmetric] using True
        by (simp only: if_True simp_thms split_slash_append map_append) blast
    qed
  next
    case False
    then show ?thesis unfolding normalize_segments_def Let_def w wf_def[symmetric]
      by (simp only: if_False split_slash_append map_append) blast
  qed
qed

lemma lint_loop_eq: "lint_loop J es vs = vs @ concat (map (entry_violations J) es)"
  by (induction es arbitrary: vs) simp_all

lemma lint_clean_iff: "lint_clean (lint_manifest J m) \<longleftrightarrow> list_all (\<lambda>e. entry_violations J e = []) m"
  by (simp add: lint_manifest_def lint_loop_eq Let_def list_all_iff)

lemma join_split: "join_slash (split_slash seg s) = seg @ s"
proof (induction seg s rule: split_slash.induct)
  case (2 seg c s)
  show ?case
  proof (cases "c = CHR ''/''")
    case True
    obtain x xs where x: "split_slash [] s = x # xs" by (cases "split_slash [] s") auto
    then show ?thesis using 2 True by simp
  qed (use 2 in simp)
qed simp

lemma hd_split: "\<exists>t. hd (split_slash seg s) = seg @ t"
  by (induction seg s rule: split_slash.induct) auto

text \<open>
  What a disguise of a path is, said without the linter's own normaliser: \<open>spelled f g\<close> reads
  \<open>f\<close> against the plain path \<open>g\<close>, a letter in either case, a separator as a slash or a
  backslash, with any number of dots and blanks at the end of a part.
\<close>

definition junk :: "char \<Rightarrow> bool" where
  "junk c \<longleftrightarrow> c = CHR ''.'' \<or> c = CHR '' ''"

definition letter_cases :: "(char \<times> char) list" where
  "letter_cases = zip ''ABCDEFGHIJKLMNOPQRSTUVWXYZ'' ''abcdefghijklmnopqrstuvwxyz''"

definition case_variant :: "char \<Rightarrow> char \<Rightarrow> bool" where
  "case_variant c x \<longleftrightarrow> c = x \<or> (c, x) \<in> set letter_cases"

definition separator :: "char \<Rightarrow> bool" where
  "separator c \<longleftrightarrow> c = CHR ''/'' \<or> c = CHR 0x5c"

fun spelled :: "string \<Rightarrow> string \<Rightarrow> bool" where
  "spelled f [] = list_all junk f"
| "spelled f (x # g) =
     (if x = CHR ''/''
      then (case dropWhile junk f of [] \<Rightarrow> False | c # f' \<Rightarrow> separator c \<and> spelled f' g)
      else (case f of [] \<Rightarrow> False | c # f' \<Rightarrow> case_variant c x \<and> spelled f' g))"

text \<open>
  A path in normal form: every character is what the linter makes of it, and no part ends in
  a dot or a blank.
\<close>

fun tidy :: "string \<Rightarrow> bool" where
  "tidy [] = True"
| "tidy (x # g) = (work_char x = x \<and> (junk x \<longrightarrow> (case g of [] \<Rightarrow> False | y # _ \<Rightarrow> y \<noteq> CHR ''/'')) \<and> tidy g)"

lemma work_junk: "junk c \<Longrightarrow> work_char c = c \<and> c \<noteq> CHR ''/''"
proof -
  have "work_char (CHR ''.'') = CHR ''.''" "work_char (CHR '' '') = CHR '' ''" by code_simp+
  then show "junk c \<Longrightarrow> ?thesis" unfolding junk_def by auto
qed

lemma work_separator: "separator c \<Longrightarrow> work_char c = CHR ''/''"
  by (auto simp: separator_def work_sep)

lemma work_upper: "(c, x) \<in> set letter_cases \<Longrightarrow> work_char c = x"
proof -
  have "list_all (\<lambda>(c, x). work_char c = x) letter_cases"
    by code_simp
  then show "(c, x) \<in> set letter_cases \<Longrightarrow> ?thesis"
    unfolding list_all_iff by auto
qed

lemma work_case: "case_variant c x \<Longrightarrow> work_char x = x \<Longrightarrow> work_char c = x"
  using work_upper by (auto simp: case_variant_def)

lemma strip_junk: "list_all junk t \<Longrightarrow> strip_trailing (s @ t) = strip_trailing s"
  by (simp add: strip_trailing_def junk_def list_all_iff dropWhile_append)

lemma strip_tidy: "s = [] \<or> \<not> junk (last s) \<Longrightarrow> strip_trailing s = s"
  by (cases s rule: rev_cases) (auto simp: strip_trailing_def junk_def)

lemma map_work_junk: "list_all junk t \<Longrightarrow> map work_char t = t \<and> CHR ''/'' \<notin> set t"
  using work_junk by (induction t) (auto simp: list_all_iff)

lemma split_plain: "CHR ''/'' \<notin> set t \<Longrightarrow> split_slash seg (t @ r) = split_slash (seg @ t) r"
  by (induction t arbitrary: seg) auto

text \<open>
  The walk over a disguised path. \<open>seg\<close> is the part of the plain path read so far; it does
  not end in a character that stripping removes where a part may end.
\<close>

lemma spelled_split:
  assumes "spelled f g" "tidy g"
    and "g = [] \<or> hd g = CHR ''/'' \<Longrightarrow> seg = [] \<or> \<not> junk (last seg)"
  shows "map strip_trailing (split_slash seg (map work_char f)) = split_slash seg g"
  using assms
proof (induction f g arbitrary: seg rule: spelled.induct)
  case (1 f)
  then have "split_slash seg (map work_char f) = [seg @ f]" using map_work_junk[of f] split_plain[of f seg "[]"] by simp
  then show ?case using 1 by (simp add: strip_junk strip_tidy)
next
  case (2 f x g)
  show ?case
  proof (cases "x = CHR ''/''")
    case True
    obtain c f' where f': "dropWhile junk f = c # f'" "separator c" "spelled f' g"
      using "2.prems"(1) True by (auto split: list.splits)
    define t where "t = takeWhile junk f"
    have t: "list_all junk t" unfolding t_def by (auto simp: list_all_iff dest: set_takeWhileD)
    have f: "f = t @ c # f'" unfolding t_def f'(1)[symmetric] by simp
    have "split_slash seg (map work_char f) = (seg @ t) # split_slash [] (map work_char f')"
      unfolding f using map_work_junk[OF t] work_separator[OF f'(2)] split_plain[of t seg] by simp
    moreover have "map strip_trailing (split_slash [] (map work_char f')) = split_slash [] g"
      using "2.IH"(1)[OF True f'(1), of "[]"] f'(3) "2.prems"(2) by simp
    moreover have "strip_trailing (seg @ t) = seg" using "2.prems"(3) True t by (simp add: strip_junk strip_tidy)
    ultimately show ?thesis using True by simp
  next
    case False
    obtain c f' where f': "f = c # f'" "case_variant c x" "spelled f' g"
      using "2.prems"(1) False by (auto split: list.splits)
    have x: "work_char x = x" "tidy g" "junk x \<Longrightarrow> \<not> (g = [] \<or> hd g = CHR ''/'')"
      using "2.prems"(2) by (auto split: list.splits)
    have "work_char c = x" by (rule work_case[OF f'(2) x(1)])
    moreover have "map strip_trailing (split_slash (seg @ [x]) (map work_char f')) = split_slash (seg @ [x]) g"
      using "2.IH"(2)[OF False f'(1) _ x(2), of "seg @ [x]"] f'(3) x(3) by auto
    ultimately show ?thesis using False f'(1) by simp
  qed
qed

lemma tidy_forbidden: "g \<in> set FORBIDDEN_EXACT \<or> g \<in> set FORBIDDEN_PREFIXES \<Longrightarrow> tidy g \<and> take 1 g = ''.''"
proof -
  have "list_all (\<lambda>g. tidy g \<and> take 1 g = ''.'') (FORBIDDEN_EXACT @ FORBIDDEN_PREFIXES)" by code_simp
  then show "g \<in> set FORBIDDEN_EXACT \<or> g \<in> set FORBIDDEN_PREFIXES \<Longrightarrow> ?thesis" by (auto simp: list_all_iff)
qed

lemma join_Cons: "join_slash (s # ss) = s @ (if ss = [] then [] else ''/'' @ join_slash ss)"
  by (cases ss) simp_all

lemma strip_prefix: "seg = [] \<or> \<not> junk (last seg) \<Longrightarrow> \<exists>u. strip_trailing (seg @ t) = seg @ u"
proof (induction t rule: rev_induct)
  case Nil
  then show ?case by (auto simp: strip_tidy)
next
  case (snoc c t)
  show ?case
  proof (cases "junk c")
    case True
    then show ?thesis using snoc strip_junk[of "[c]" "seg @ t"] by simp
  next
    case False
    then show ?thesis using strip_tidy[of "seg @ t @ [c]"] by simp
  qed
qed

text \<open>The same walk when more text follows: the joined parts begin with the plain path.\<close>

lemma spelled_prefix:
  assumes "spelled f g" "tidy g"
    and "g = [] \<or> hd g = CHR ''/'' \<Longrightarrow> seg = [] \<or> \<not> junk (last seg)"
  shows "\<exists>u. join_slash (map strip_trailing (split_slash seg (map work_char (f @ rest)))) = seg @ g @ u"
  using assms
proof (induction f g arbitrary: seg rule: spelled.induct)
  case (1 f)
  obtain t where t: "hd (split_slash (seg @ f) (map work_char rest)) = seg @ f @ t"
    using hd_split[of "seg @ f" "map work_char rest"] by auto
  obtain ss where ss: "split_slash (seg @ f) (map work_char rest) = (seg @ f @ t) # ss"
    using t by (cases "split_slash (seg @ f) (map work_char rest)") auto
  obtain u where u: "strip_trailing (seg @ f @ t) = seg @ u" using strip_prefix[of seg "f @ t"] 1 by auto
  have "split_slash seg (map work_char (f @ rest)) = (seg @ f @ t) # ss"
    using 1 map_work_junk[of f] split_plain[of f seg] ss by simp
  then show ?case using u by (simp add: join_Cons)
next
  case (2 f x g)
  show ?case
  proof (cases "x = CHR ''/''")
    case True
    obtain c f' where f': "dropWhile junk f = c # f'" "separator c" "spelled f' g"
      using "2.prems"(1) True by (auto split: list.splits)
    define t where "t = takeWhile junk f"
    have t: "list_all junk t" unfolding t_def by (auto simp: list_all_iff dest: set_takeWhileD)
    have f: "f = t @ c # f'" unfolding t_def f'(1)[symmetric] by simp
    have "split_slash seg (map work_char (f @ rest)) = (seg @ t) # split_slash [] (map work_char (f' @ rest))"
      unfolding f using map_work_junk[OF t] work_separator[OF f'(2)] split_plain[of t seg] by simp
    moreover obtain u where "join_slash (map strip_trailing (split_slash [] (map work_char (f' @ rest)))) = g @ u"
      using "2.IH"(1)[OF True f'(1), of "[]"] f'(3) "2.prems"(2) by auto
    moreover have "strip_trailing (seg @ t) = seg" using "2.prems"(3) True t by (simp add: strip_junk strip_tidy)
    ultimately show ?thesis using True by (simp add: join_Cons)
  next
    case False
    obtain c f' where f': "f = c # f'" "case_variant c x" "spelled f' g"
      using "2.prems"(1) False by (auto split: list.splits)
    have x: "work_char x = x" "tidy g" "junk x \<Longrightarrow> \<not> (g = [] \<or> hd g = CHR ''/'')"
      using "2.prems"(2) by (auto split: list.splits)
    have "work_char c = x" by (rule work_case[OF f'(2) x(1)])
    moreover have "\<exists>u. join_slash (map strip_trailing (split_slash (seg @ [x]) (map work_char (f' @ rest)))) = (seg @ [x]) @ g @ u"
      using "2.IH"(2)[OF False f'(1) _ x(2), of "seg @ [x]"] f'(3) x(3) by auto
    ultimately show ?thesis using False f'(1) by auto
  qed
qed

lemma forbidden_match:
  assumes "ss \<noteq> []" "join_slash ss \<in> set FORBIDDEN_EXACT \<or> (\<exists>p\<in>set FORBIDDEN_PREFIXES. \<exists>u. join_slash ss = p @ u)"
  shows "match_vector ss \<noteq> None"
proof (cases ss)
  case (Cons s ts)
  show ?thesis using assms(2) unfolding Cons
    by (auto simp: Let_def find_None_iff split: option.splits)
qed (use assms(1) in simp)

text \<open>What a path holds below a directory is still there after normalisation.\<close>

lemma normalize_below:
  assumes "path = f \<or> (\<exists>d c. separator c \<and> path = d @ [c] @ f)"
    and "take 1 (join_slash (map strip_trailing (split_slash [] (map work_char f)))) = ''.''"
  shows "\<exists>ts. normalize_segments path = ts @ map strip_trailing (split_slash [] (map work_char f))"
  using assms(1)
proof
  assume "path = f"
  have "take 2 (map work_char f) \<noteq> ''./''"
  proof
    assume t: "take 2 (map work_char f) = ''./''"
    then have f: "map work_char f = ''./'' @ drop 2 (map work_char f)" by (metis append_take_drop_id)
    show False using assms(2) by (subst (asm) f) (simp add: join_Cons strip_trailing_def)
  qed
  then show ?thesis using \<open>path = f\<close> by (simp add: normalize_segments_def Let_def)
next
  assume "\<exists>d c. separator c \<and> path = d @ [c] @ f"
  then show ?thesis using normalize_nested unfolding separator_def by blast
qed

lemma known_vector_caught:
  assumes "spelled f g" "g \<in> set FORBIDDEN_EXACT \<and> rest = [] \<or> g \<in> set FORBIDDEN_PREFIXES"
    and "path = f @ rest \<or> (\<exists>d c. separator c \<and> path = d @ [c] @ f @ rest)"
  shows "match_vector (normalize_segments path) \<noteq> None"
proof -
  let ?ss = "map strip_trailing (split_slash [] (map work_char (f @ rest)))"
  have g: "tidy g" "take 1 g = ''.''" using tidy_forbidden assms(2) by blast+
  obtain u where u: "join_slash ?ss = g @ u" using spelled_prefix[OF assms(1) g(1), of "[]" rest] by auto
  have "rest = [] \<Longrightarrow> join_slash ?ss = g"
    using spelled_split[OF assms(1) g(1), of "[]"] join_split[of "[]" g] by simp
  then have "match_vector ?ss \<noteq> None" using assms(2) u by (intro forbidden_match) auto
  moreover have "take 1 (join_slash ?ss) = ''.''" unfolding u using g(2) by (cases g) auto
  then obtain ts where "normalize_segments path = ts @ ?ss" using normalize_below[OF assms(3)] by blast
  ultimately show ?thesis using match_vector_append by simp
qed

text \<open>
  C13. Disguise does not help. If a file is a known vector, or lies below a known prefix, up to
  letter case, slashes written as backslashes and dots or blanks at the end of any part, then a
  release that ships it is not clean, at the top or below any directory, however the directory
  is written and whatever else is shipped. The disguises are those of the specification \<open>spelled\<close>,
  which does not use the linter's normaliser.
\<close>

theorem hidden_vector_caught:
  assumes "spelled f g" "g \<in> set FORBIDDEN_EXACT \<and> rest = [] \<or> g \<in> set FORBIDDEN_PREFIXES"
    and "entry_path e = f @ rest \<or> (\<exists>d c. separator c \<and> entry_path e = d @ [c] @ f @ rest)"
    and "e \<in> set manifest"
  shows "\<not> lint_clean (lint_manifest J manifest)"
proof -
  have "entry_violations J e \<noteq> []"
    using known_vector_caught[OF assms(1-3)] by (auto simp: entry_violations_def Let_def)
  then show ?thesis using assms(4) by (auto simp: lint_clean_iff list_all_iff)
qed

definition demo_json :: "unit json_lib" where
  "demo_json = \<lparr>json_parse = (\<lambda>_. None), json_get = (\<lambda>_ _. None), json_is_object = (\<lambda>_. False), json_has = (\<lambda>_ _. False)\<rparr>"

theorem hidden_vector_caught_witness:
  "\<not> lint_clean (lint_manifest demo_json
     [\<lparr>entry_path = ''README'', entry_content = None\<rparr>, \<lparr>entry_path = ''a.b/.VSCode. /Tasks.json'', entry_content = None\<rparr>])"
proof -
  have "spelled ''.VSCode. /Tasks.json'' ''.vscode/tasks.json''" by code_simp
  moreover have "''.vscode/tasks.json'' \<in> set FORBIDDEN_EXACT" by (simp add: FORBIDDEN_EXACT_def)
  moreover have "''a.b/.VSCode. /Tasks.json'' = ''a.b'' @ [CHR ''/''] @ ''.VSCode. /Tasks.json'' @ []" by simp
  moreover have "separator (CHR ''/'')" by (simp add: separator_def)
  ultimately show ?thesis
    by (intro hidden_vector_caught[where f = "''.VSCode. /Tasks.json''" and g = "''.vscode/tasks.json''" and rest = "[]"
          and e = "\<lparr>entry_path = ''a.b/.VSCode. /Tasks.json'', entry_content = None\<rparr>"]) (blast | simp)+
qed

section \<open>Attesting\<close>

text \<open>The answers that are attestations: sequence number, digest, text.\<close>

fun attestations :: "attest_result_t res list \<Rightarrow> (u64 \<times> string \<times> string) list" where
  "attestations [] = []"
| "attestations (Inr (Attested pk w dg sq) # rs) = (sq, dg, w) # attestations rs"
| "attestations (r # rs) = attestations rs"

text \<open>What an answer says of its request.\<close>

definition attest_outcome ::
  "bn_text \<Rightarrow> (bytes \<Rightarrow> bytes) \<Rightarrow> 'j json_lib \<Rightarrow> rabin_key_t \<Rightarrow> release_fields_t \<times> manifest_entry_t list \<Rightarrow>
     attest_result_t res \<Rightarrow> bool" where
  "attest_outcome T sha J key req r \<longleftrightarrow>
     (case r of
        Inl e \<Rightarrow> lint_clean (lint_manifest J (snd req))
      | Inr (Dirty lr) \<Rightarrow> lr = lint_manifest J (snd req) \<and> violations lr \<noteq> []
      | Inr (Attested pk w dg sq) \<Rightarrow> lint_clean (lint_manifest J (snd req)) \<and>
          pk = attestor_pub_key T key \<and> dg = release_digest sha (fst req))"

lemma attest_cases:
  assumes "auto_exec_linter_attestor_attest L I A T sha J release manifest a = Some (r, a')"
  shows "attest_outcome T sha J (linter_key a) (release, manifest) r \<and> linter_key a' = linter_key a \<and>
    (case r of
       Inr (Attested pk w dg sq) \<Rightarrow> sq = linter_seq a \<and> linter_seq a' = sq + 1 \<and>
         rabin_attestor_sign_digest L I A T sha (linter_key a) (release_digest sha release) sq = Some (Inr w)
     | _ \<Rightarrow> a' = a)"
  using assms
  by (auto simp: auto_exec_linter_attestor_attest_def attest_outcome_def Let_def lint_manifest_def
      split: if_splits option.splits sum.splits)

lemma sign_digest_seq:
  assumes "rabin_attestor_sign_digest L I A T sha key dg sq = Some (Inr w)"
  shows "unat sq < 2 ^ 63"
proof (cases "build_msg_bytes sq dg")
  case (Inr m)
  then show ?thesis by (simp add: build_msg_iff)
qed (use assms in \<open>simp add: rabin_attestor_sign_digest_def\<close>)

lemma release_digest_hex: "\<forall>x. length (sha x) = 32 \<Longrightarrow> is_sha256_hex (release_digest sha f)"
proof -
  assume "\<forall>x. length (sha x) = 32"
  moreover have "hex_decode (hex_encode_loop b) = Inr b" for b by (rule hex_decode_encode)
  ultimately show "is_sha256_hex (release_digest sha f)"
    unfolding release_digest_def compute_activate_digest_def is_sha256_hex_def is_hex_len_iff hex_decode_Inr_iff
    using hex_decode_InrD hex_decode_encode by force
qed

text \<open>
  An attestation as the release gate reads it. The padding is the least that makes the hash of
  the message a square; within the verifier's cap the text reads back and verifies, and only over
  the cap is it refused.
\<close>

definition gate_reads ::
  "bn_in \<Rightarrow> bn_arith \<Rightarrow> bn_text \<Rightarrow> (bytes \<Rightarrow> bytes) \<Rightarrow> rabin_key_t \<Rightarrow> u64 \<times> string \<times> string \<Rightarrow> bool" where
  "gate_reads I A T sha key x \<longleftrightarrow>
     (case x of (sq, dg, w) \<Rightarrow>
       \<exists>m k s. build_msg_bytes sq dg = Inr m \<and> first_square (rabin_pubkey key) (padded_hash I sha m) k \<and>
         parse_attestation T w =
           (if k \<le> RABIN_MAX_PADDING_BYTES then Some \<lparr>att_seq = sq, att_s = s, att_padding = of_nat k\<rparr> else None) \<and>
         (rabin_attestation_verify I A T sha (attestor_pub_key T key) dg w \<longleftrightarrow> k \<le> RABIN_MAX_PADDING_BYTES))"

lemma attestation_read:
  assumes "bn_lib_ok L" "bn_in_ok I" "bn_arith_ok A" "bn_text_ok T" "blum_key key" "rabin_pubkey key < 16 ^ 1024"
    and "\<forall>x. length (sha x) = 32"
    and "rabin_attestor_sign_digest L I A T sha key (release_digest sha f) sq = Some (Inr w)"
  shows "gate_reads I A T sha key (sq, release_digest sha f, w)"
  using printed_attestation[OF assms(1-6) sign_digest_seq[OF assms(8)] release_digest_hex[OF assms(7)] assms(8)]
  unfolding gate_reads_def by auto

text \<open>The invariant of a run: answers match their requests and sequence numbers only grow.\<close>

lemma attest_run_inv:
  assumes "bn_lib_ok L" "bn_in_ok I" "bn_arith_ok A" "bn_text_ok T" "blum_key (linter_key a)"
    and "rabin_pubkey (linter_key a) < 16 ^ 1024" "\<forall>x. length (sha x) = 32"
    and "attest_run L I A T sha J reqs a = Some (rs, a')"
  shows "list_all2 (attest_outcome T sha J (linter_key a)) reqs rs \<and>
    sorted_wrt (\<lambda>x y. unat (fst x) < unat (fst y)) (attestations rs) \<and>
    list_all (\<lambda>x. linter_seq a \<le> fst x \<and> unat (fst x) < 2 ^ 63 \<and> gate_reads I A T sha (linter_key a) x) (attestations rs)"
  using assms(5-6,8)
proof (induction reqs arbitrary: a rs)
  case (Cons req reqs)
  obtain release manifest where req: "req = (release, manifest)" by (cases req)
  obtain r a1 rs1 where r: "auto_exec_linter_attestor_attest L I A T sha J release manifest a = Some (r, a1)"
    and rs1: "attest_run L I A T sha J reqs a1 = Some (rs1, a')" "rs = r # rs1"
    using Cons.prems(3) unfolding req by (auto split: option.splits prod.splits)
  note C = attest_cases[OF r]
  have k: "linter_key a1 = linter_key a" using C by blast
  note IH = Cons.IH[of a1 rs1, unfolded k, OF Cons.prems(1,2) rs1(1)]
  show ?case
  proof (cases "\<exists>pk w dg sq. r = Inr (Attested pk w dg sq)")
    case True
    then obtain pk w dg sq where ra: "r = Inr (Attested pk w dg sq)" by blast
    have sq: "sq = linter_seq a" "linter_seq a1 = sq + 1" "dg = release_digest sha release"
      and sg: "rabin_attestor_sign_digest L I A T sha (linter_key a) (release_digest sha release) sq = Some (Inr w)"
      using C unfolding ra attest_outcome_def by auto
    have b: "unat sq < 2 ^ 63" by (rule sign_digest_seq[OF sg])
    have "unat (sq + 1) = unat sq + 1" using b by (simp add: unat_word_ariths)
    then have "linter_seq a1 \<le> x \<Longrightarrow> unat sq < unat x" "linter_seq a1 \<le> x \<Longrightarrow> sq \<le> x" for x
      unfolding sq(2) word_le_nat_alt by simp_all
    moreover have "gate_reads I A T sha (linter_key a) (sq, dg, w)"
      unfolding sq(3) by (rule attestation_read[OF assms(1-4) Cons.prems(1,2) assms(7) sg])
    ultimately show ?thesis using IH C b unfolding rs1(2) ra req sq(1)[symmetric] list_all_iff by auto
  next
    case False
    then have "a1 = a" "attestations rs = attestations rs1"
      using C unfolding rs1(2) by (auto split: sum.splits attest_result_t.splits)
    then show ?thesis using IH C unfolding rs1(2) req by simp
  qed
qed simp



end
