(* ===== verification/Spec2Isabelle.thy ===== *)
theory Spec2Isabelle
  imports Varint Hex BufWriters TxBuild Sighash Base58 ScriptCodec KeyBroker
    Utf8 Spv Provenance UtxoSelect Fees Indexer AgentTea Rabin Arp Ecdsa RabinAttestor ReleaseGate Spend RateLimiter AutoExecLinter
begin

text \<open>
  A verification development for \<^verbatim>\<open>chain_c\<close>, the C port of a Bitcoin SV chain
  layer for autonomous agents. An agent's identity is a contract output on the ledger; every
  action, recovery or dissolution spends it and recreates it with a new state. A broker issues
  API keys bound to such an identity and meters what each key may spend; an indexer walks the
  chain of spends and scores the agent; a release protocol lets attestors vouch for software
  with Rabin signatures whose double use forfeits a bond; a wallet selects outputs, pays
  fees, signs and broadcasts.

  \<^bold>\<open>How the model reads.\<close> File and function names are those of the repository, relative to
  \<^verbatim>\<open>src/\<close>. A byte buffer is a list of 8-bit words and a C string the list of its bytes
  without the terminator; a fixed-width integer is a word, or an \<open>int\<close> or \<open>nat\<close> with the
  wrap-around written out where the source computes with it. A function that returns a
  \<^verbatim>\<open>bns_err_t\<close> and an output parameter returns \<open>Inl\<close> of the code or \<open>Inr\<close> of the output
  (\<open>res\<close> in \<open>Prelude\<close>); the early returns are in the order of the source. A structure is a record, a
  tagged union or enumeration a datatype. An object the source mutates is passed and returned.
  Big integers (\<^verbatim>\<open>bn_t\<close>) are \<open>int\<close>, with the operations of the library as a parameter.
  The arguments that exist only to be checked against \<^verbatim>\<open>NULL\<close>, the release of memory and the
  scrubbing of secrets are not represented. Failure of an allocation is represented in
  \<open>Bytes\<close> and \<open>BufWriters\<close>, where it decides what a half-written buffer holds, and nowhere else.

  \<^bold>\<open>Foundations.\<close> \<open>Prelude\<close> holds the error codes, the result type with its laws, little-endian
  words and list slices. \<open>Codec\<close> states the contract of a serializer and its parser as the
  locale \<open>prefix_codec\<close>: the parser inverts the serializer behind any prefix, before any suffix,
  accepts nothing else and consumes at least a minimum number of bytes; from it follow the
  round trip and the exact length of a counted sequence of items. It is interpreted on CompactSize
  integers (\<open>Varint\<close>, \<^verbatim>\<open>bsv/varint.c\<close>), script chunks (\<open>Script\<close>), fixed-width words, counted
  scripts, inputs and outputs (\<open>Tx\<close>). \<open>Loops\<close> gives the meaning of an unbounded loop, which may
  not end: the combinator \<open>until_loop\<close> returns \<open>None\<close> exactly when the loop never leaves, with
  the rules for invariants, for termination by a measure and for the first value that leaves.
  \<open>Doubles\<close> is binary64 rounding over the rationals; \<open>PrimeNum\<close> the number theory
  of Rabin signatures.

  \<^bold>\<open>Bytes and text.\<close> \<open>Hex\<close> (\<^verbatim>\<open>common/hex.c\<close>), \<open>Utf8\<close> (\<^verbatim>\<open>common/utf8.c\<close>: the validator accepts
  exactly the encodings of scalar values), \<open>Bytes\<close> (\<^verbatim>\<open>common/bytes.c\<close>: growth, capacity and
  allocation failure, with the locale \<open>byte_sink\<close> for what a writer relies on, interpreted on
  the buffer) and \<open>BufWriters\<close> (the writers that use it, shown to append what the list model
  computes or to leave a prefix of it on failure). \<open>Base58\<close> (\<^verbatim>\<open>bsv/base58.c\<close>,
  \<^verbatim>\<open>bsv/address.c\<close>): the digit loops on buffers of the source's size, shown big enough, so that
  encoding is a bijection; checksummed strings, WIF keys and addresses on top. \<open>Num2bin\<close>
  (\<^verbatim>\<open>bsv/num2bin.c\<close>) are the script-number encoders.

  \<^bold>\<open>Transactions.\<close> \<open>Tx\<close> (\<^verbatim>\<open>bsv/tx.c\<close>) parses and serializes; a raw transaction parses exactly if
  it is the serialization of the result. \<open>Script\<close> (\<^verbatim>\<open>bsv/script.c\<close>, \<^verbatim>\<open>bsv/script_utils.c\<close>) is the
  chunk parser with its error codes. \<open>TxBuild\<close> (\<^verbatim>\<open>bsv/tx_builder.c\<close>, \<^verbatim>\<open>chain/tx_parse.c\<close>) is the
  builder as a state machine and the shape readers. \<open>Sighash\<close> (\<^verbatim>\<open>bsv/sighash.c\<close>) is the
  BIP143 preimage and what a signature commits to. \<open>Ecdsa\<close> (\<^verbatim>\<open>crypto/ecdsa.c\<close>,
  \<^verbatim>\<open>scrypt/contract_call.c\<close>) holds keys, signatures and unlocking scripts, and composes
  \<open>Base58\<close>, \<open>Script\<close> and \<open>Sighash\<close> into the theorem that a P2PKH output can be spent by its key.
  \<open>Fees\<close> (\<^verbatim>\<open>chainSources/bsv_fees.c\<close>, \<^verbatim>\<open>bsv/tx_change.c\<close>) and \<open>UtxoSelect\<close>
  (\<^verbatim>\<open>chainSources/utxo_select.c\<close>; locale \<open>stable_sorter\<close>, interpreted on its merge sort) choose the
  outputs to spend and settle the change. \<open>Spend\<close> (\<^verbatim>\<open>wallet/spend.c\<close>, \<^verbatim>\<open>wallet/send.c\<close>,
  \<^verbatim>\<open>wallet/keygen.c\<close>) composes all of these into the wallet: a returned transaction spends the
  offered outputs with unlocking scripts that satisfy the network, pays what was asked, conserves
  money and pays an adequate fee; a new key owns the address it is given. \<open>Spv\<close> (\<^verbatim>\<open>lib/merkle_path.c\<close>, \<^verbatim>\<open>lib/blockchain.c\<close>)
  checks inclusion proofs and headers.

  \<^bold>\<open>Contracts.\<close> \<open>ScriptCodec\<close> (\<^verbatim>\<open>scrypt/script_codec.c\<close>) fills the template of a contract with its
  constructor values and appends its state. \<open>AgentTea\<close> (\<^verbatim>\<open>contracts_next/agent_tea.c\<close>) is the agent
  identity: its actions, decoding from a script, and the messages that are signed. \<open>Rabin\<close>
  (\<^verbatim>\<open>crypto/rabin.c\<close>, \<^verbatim>\<open>lib/rabin_verifier.c\<close>) is the signature scheme of the attestors, \<open>Arp\<close>
  (\<^verbatim>\<open>contracts_next/arp_attest.c\<close>, \<^verbatim>\<open>publisher_tea.c\<close>, \<^verbatim>\<open>attestor_tea.c\<close>) the release
  protocol, with the theorem that two releases accepted by quorums expose the bond of every attestor
  who used one sequence number for both.
  \<open>BnText\<close> are the decimal and hexadecimal forms of numbers (\<^verbatim>\<open>crypto/bignum.c\<close>) and
  \<open>RabinAttestor\<close> (\<^verbatim>\<open>verifier/rabin_attestor.c\<close>) the attestations in text form that the release gate reads.
  \<open>ReleaseGate\<close> (\<^verbatim>\<open>verifier/release_anchor_verifier.c\<close>) is the gate itself: the exact condition
  under which a release passes, what its digest commits to, and, through the locale
  \<open>attestation_scheme\<close> (what the gate relies on in an attestation verifier, interpreted on
  \<open>RabinAttestor\<close>), that of two conflicting releases that both pass, by counting quorums, common attestors exist and
  each that used one sequence number is exposed to the equivocation test of the bond contract in \<open>Arp\<close>. \<open>AutoExecLinter\<close>
  (\<^verbatim>\<open>attestor/auto_exec_linter.c\<close>) is an attestor for that gate: it signs only releases without
  files that execute by themselves, however their paths are disguised (a specification of
  disguises written apart from the linter's normaliser), and never uses a sequence
  number twice, as the equivocation test of its bond would need.
  \<open>Provenance\<close> (\<^verbatim>\<open>provenance.c\<close>, \<^verbatim>\<open>verifier/stake_policy.c\<close>) commits to the origin of a change.

  \<^bold>\<open>Broker and indexer.\<close> \<open>Envelope\<close> (\<^verbatim>\<open>broker/authorization_envelope.c\<close>) is the spending meter,
  \<open>Oracle\<close> (\<^verbatim>\<open>broker/chain_revocation_oracle.c\<close>, \<^verbatim>\<open>broker/identity_chain_view.c\<close>) the caching
  oracle that decides from the ledger whether an identity is still alive; the locale
  \<open>revocation_oracle\<close> is what the broker relies on and the caching oracle is its interpretation.
  \<open>KeyBroker\<close> (\<^verbatim>\<open>broker/key_broker.c\<close>) issues, revokes, authorizes and erases; its theorems are the
  exact condition of an allowed request, the cap over any run of requests, the finality of a
  revocation, and, through the oracle, that a dissolved identity authorizes nothing. \<open>Indexer\<close>
  (\<^verbatim>\<open>reputation_indexer.c\<close>) walks the spends in both directions, marks erased receipts and
  computes the score. \<open>RateLimiter\<close> (\<^verbatim>\<open>chainSources/woc_rate_limiter.c\<close>,
  \<^verbatim>\<open>throttled_provider.c\<close>) is the gate in front of the chain source: its requests are spaced, and a
  call that is throttled is retried with doubling pauses, at most seven times in all.

  \<^bold>\<open>Parameters.\<close> SHA-256 and RIPEMD-160 are functions on byte lists of documented output length;
  what needs more than that is stated up to an exhibited collision. \<open>bn_lib_ok\<close>, \<open>bn_in_ok\<close> and
  \<open>bn_arith_ok\<close> and \<open>bn_text_ok\<close> are the documented input, output, modular and text operations of the bignum
  wrapper over the cryptographic library, \<open>secp_ok\<close> the laws of the curve library; each is
  shown to hold of a concrete instance, which the witnesses use. The vendored JSON library is a
  record of the four functions the linter calls. The chain source, the clock, the
  source of random bytes and the exponential function are arguments; a chain source may
  answer anything, and theorems that relate it to a ledger name that ledger.

  \<^bold>\<open>Bounds and fuel.\<close> The walks of the oracle and the indexer stop after the number of hops the source fixes
  (\<^verbatim>\<open>MAX_HOPS\<close>), which is the fuel of the recursion. Loops without a bound in the source (prime search,
  padding search) are instances of \<open>until_loop\<close>; that they end, or exactly when they do,
  is a theorem. All other loops recurse on a list or on a counter of the source.

  \<^bold>\<open>What the model showed.\<close> A spender whose raw bytes do not parse is taken for a live identity by the oracle,
  against its comment to fail closed. The meter is documented as a rolling window but is fixed
  from its first charge. \<^verbatim>\<open>build_state\<close> does not check the number of values it is given; the results about it are
  for calls with no more values than properties. An inclusion proof of an inner node of a Merkle tree is
  accepted like that of a transaction.
  \<^verbatim>\<open>fee_for_size\<close> can exceed the exact fee by one, because the product is rounded before the ceiling.
  The forward walk returns success when it is cut at the hop limit. The Rabin signer has no cap on its
  padding while the verifier has one. The wallet's selection counts one byte less per input than
  its settlement, so that with ten or more inputs it can stop one output early and fail.

  \<^bold>\<open>Not modelled.\<close> The network (\<^verbatim>\<open>http_transport.c\<close>, \<^verbatim>\<open>woc_client.c\<close> and their wrappers), the
  command-line drivers under \<^verbatim>\<open>scripts/\<close> and \<^verbatim>\<open>bin/\<close>, files and directories, process sandboxing,
  the manifest registry's log, enclave and vault storage, authenticated encryption and random bytes (thin calls of the
  cryptographic library), the JSON reader (calls of a vendored library), and the zero-knowledge
  proof code. Vendored code under \<^verbatim>\<open>third_party/\<close> and the tests are not part of the model.
\<close>

end
